(* ===== verification/Qjs_Prelude.thy ===== *)
theory Qjs_Prelude
  imports Main "HOL-Library.Word" "HOL-Library.Monad_Syntax" "HOL-Library.Multiset"
begin

text \<open>
  Prelude of the development: the machine integer types of the C sources, arrays whose
  accesses are checked (an access out of range is undefined behaviour in C and the value
  \<^const>\<open>None\<close> here), and the list and word lemmas that several components share.
\<close>

unbundle bit_operations_syntax

section \<open>Machine integers\<close>

type_synonym u8 = "8 word"
type_synonym u16 = "16 word"
type_synonym u32 = "32 word"
type_synonym u64 = "64 word"
type_synonym u128 = "128 word"

named_theorems arr_simps \<open>facts about checked array accesses\<close>

section \<open>Checked arrays\<close>

text \<open>
  \<open>rd a i\<close> is \<^verbatim>\<open>a[i]\<close> as an rvalue and \<open>wr a i v\<close> the state of the array after
  \<^verbatim>\<open>a[i] = v\<close>; both are \<^const>\<open>None\<close> when the index is outside the array.
\<close>

definition rd :: "'a list \<Rightarrow> nat \<Rightarrow> 'a option" where
  "rd xs i = (if i < length xs then Some (xs ! i) else None)"

definition wr :: "'a list \<Rightarrow> nat \<Rightarrow> 'a \<Rightarrow> 'a list option" where
  "wr xs i v = (if i < length xs then Some (xs[i := v]) else None)"

lemma rd_Some [arr_simps]: "i < length xs \<Longrightarrow> rd xs i = Some (xs ! i)"
  by (simp add: rd_def)

lemma rd_None [arr_simps]: "length xs \<le> i \<Longrightarrow> rd xs i = None"
  by (simp add: rd_def)

lemma rd_eq_Some: "rd xs i = Some v \<longleftrightarrow> i < length xs \<and> v = xs ! i"
  by (auto simp: rd_def)

lemma wr_Some [arr_simps]: "i < length xs \<Longrightarrow> wr xs i v = Some (xs[i := v])"
  by (simp add: wr_def)

lemma wr_eq_Some: "wr xs i v = Some ys \<longleftrightarrow> i < length xs \<and> ys = xs[i := v]"
  by (auto simp: wr_def)

text \<open>
  \<open>memcpy_at dst off src\<close> is \<^verbatim>\<open>memcpy(dst + off, src, len)\<close> with \<open>src\<close> the list of
  the \<open>len\<close> bytes copied.
\<close>

definition memcpy_at :: "'a list \<Rightarrow> nat \<Rightarrow> 'a list \<Rightarrow> 'a list option" where
  "memcpy_at dst off src =
     (if off + length src \<le> length dst
      then Some (take off dst @ src @ drop (off + length src) dst) else None)"

lemma memcpy_at_Some [arr_simps]:
  "off + length src \<le> length dst \<Longrightarrow>
   memcpy_at dst off src = Some (take off dst @ src @ drop (off + length src) dst)"
  by (simp add: memcpy_at_def)

lemma memcpy_at_eq_Some:
  "memcpy_at dst off src = Some d \<longleftrightarrow>
   off + length src \<le> length dst \<and> d = take off dst @ src @ drop (off + length src) dst"
  by (auto simp: memcpy_at_def)

lemma memcpy_at_length: "memcpy_at dst off src = Some d \<Longrightarrow> length d = length dst"
  by (auto simp: memcpy_at_eq_Some)

section \<open>Lists\<close>

lemma last_notin_butlast: "distinct xs \<Longrightarrow> xs \<noteq> [] \<Longrightarrow> last xs \<notin> set (butlast xs)"
  by (induction xs) (auto dest: in_set_butlastD)

lemma take_drop_take: "o' + l \<le> n \<Longrightarrow> take l (drop o' (take n xs)) = take l (drop o' xs)"
  by (simp add: drop_take min_def)

lemma le_Suc_case: "(j :: nat) \<le> k \<longleftrightarrow> k = j \<or> Suc j \<le> k"
  by auto

section \<open>Exchanging two array cells\<close>

definition swap_at :: "nat \<Rightarrow> nat \<Rightarrow> 'a list \<Rightarrow> 'a list" where
  "swap_at i j xs = xs[i := xs ! j, j := xs ! i]"

lemma length_swap_at [simp]: "length (swap_at i j xs) = length xs"
  by (simp add: swap_at_def)

lemma mset_swap_at [simp]:
  "i < length xs \<Longrightarrow> j < length xs \<Longrightarrow> mset (swap_at i j xs) = mset xs"
  by (simp add: swap_at_def mset_swap)

lemma nth_swap_at:
  "i < length xs \<Longrightarrow> j < length xs \<Longrightarrow> k < length xs \<Longrightarrow>
   swap_at i j xs ! k = (if k = i then xs ! j else if k = j then xs ! i else xs ! k)"
  by (auto simp: swap_at_def nth_list_update)

lemma nth_swap_at_other [simp]: "k \<noteq> i \<Longrightarrow> k \<noteq> j \<Longrightarrow> swap_at i j xs ! k = xs ! k"
  by (simp add: swap_at_def)

lemma swap_at_same [simp]: "i < length xs \<Longrightarrow> swap_at i i xs = xs"
  by (simp add: swap_at_def)

section \<open>Slices of arrays\<close>

definition slice :: "nat \<Rightarrow> nat \<Rightarrow> 'a list \<Rightarrow> 'a list" where
  "slice p n xs = take n (drop p xs)"

definition splice :: "nat \<Rightarrow> 'a list \<Rightarrow> 'a list \<Rightarrow> 'a list" where
  "splice p ys xs = take p xs @ ys @ drop (p + length ys) xs"

lemma length_slice [simp]: "p + n \<le> length xs \<Longrightarrow> length (slice p n xs) = n"
  by (simp add: slice_def)

lemma nth_slice [simp]: "p + n \<le> length xs \<Longrightarrow> k < n \<Longrightarrow> slice p n xs ! k = xs ! (p + k)"
  by (simp add: slice_def)

lemma length_splice [simp]: "p + length ys \<le> length xs \<Longrightarrow> length (splice p ys xs) = length xs"
  by (simp add: splice_def)

lemma nth_splice:
  "p + length ys \<le> length xs \<Longrightarrow> k < length xs \<Longrightarrow>
   splice p ys xs ! k = (if p \<le> k \<and> k < p + length ys then ys ! (k - p) else xs ! k)"
  by (auto simp: splice_def nth_append)

lemma slice_split: "xs = take p xs @ slice p n xs @ drop (p + n) xs"
  by (metis append_take_drop_id drop_drop slice_def add.commute)

lemma mset_splice:
  assumes "mset ys = mset (slice p n xs)" "p + n \<le> length xs"
  shows "mset (splice p ys xs) = mset xs"
proof -
  have "length ys = n" using mset_eq_length[OF assms(1)] assms(2) by simp
  then have "mset (splice p ys xs) = mset (take p xs @ slice p n xs @ drop (p + n) xs)"
    using assms(1) by (simp add: splice_def)
  then show ?thesis by (simp only: slice_split[symmetric])
qed

section \<open>Bit operations as arithmetic\<close>

named_theorems word_arith \<open>reading shifts and masks of words as arithmetic on their values\<close>

lemma bit_nat_less: "(x :: nat) < 2 ^ k \<Longrightarrow> bit x n \<Longrightarrow> n < k"
  by (metis bit_take_bit_iff take_bit_nat_eq_self)

lemma or_disjoint_nat:
  fixes x :: nat
  assumes "x < 2 ^ k"
  shows "x OR (m * 2 ^ k) = x + m * 2 ^ k"
proof -
  have "x AND push_bit k m = 0"
    using bit_nat_less[OF assms] by (fastforce simp: bit_eq_iff bit_simps)
  then have "x + push_bit k m = x OR push_bit k m" by (rule disjunctive_add_eq_or)
  then show ?thesis by (simp add: push_bit_eq_mult)
qed

lemma or_disjoint_int:
  fixes x :: int
  assumes "0 \<le> x" "x < 2 ^ k" "0 \<le> m"
  shows "x OR (m * 2 ^ k) = x + m * 2 ^ k" "(m * 2 ^ k) OR x = m * 2 ^ k + x"
proof -
  have "nat x < 2 ^ k" using assms by (metis nat_less_numeral_power_cancel_iff)
  then have "nat x OR (nat m * 2 ^ k) = nat x + nat m * 2 ^ k" by (rule or_disjoint_nat)
  then have "int (nat x OR (nat m * 2 ^ k)) = int (nat x + nat m * 2 ^ k)" by simp
  then show "x OR (m * 2 ^ k) = x + m * 2 ^ k" using assms by (simp add: of_nat_or_eq)
  then show "(m * 2 ^ k) OR x = m * 2 ^ k + x" by (simp add: or.commute add.commute)
qed

lemma mod_block_int:
  assumes "q * m \<le> b" "b < (q + 1) * (m :: int)"
  shows "b mod m = b - q * m"
proof -
  have "b = (b - q * m) + q * m" by simp
  then have "b mod m = (b - q * m) mod m" by (metis mod_mult_self1)
  also have "\<dots> = b - q * m" using assms by (intro mod_pos_pos_trivial) (auto simp: algebra_simps)
  finally show ?thesis .
qed

lemma and_low_mask_int: "(x :: int) AND (2 ^ k - 1) = x mod 2 ^ k"
  by (metis mask_eq_exp_minus_1 take_bit_eq_mask take_bit_eq_mod)

lemmas and_low_masks_int = and_low_mask_int[of _ 1, simplified] and_low_mask_int[of _ 2, simplified]
  and_low_mask_int[of _ 3, simplified] and_low_mask_int[of _ 4, simplified]
  and_low_mask_int[of _ 5, simplified] and_low_mask_int[of _ 6, simplified]
  and_low_mask_int[of _ 7, simplified] and_low_mask_int[of _ 8, simplified]

lemma unat_drop_bit_div [word_arith]: "unat (drop_bit k w) = unat w div 2 ^ k"
  by (subst unat_drop_bit_eq) (rule drop_bit_eq_div)

lemma unat_take_bit_mod [word_arith]: "unat (take_bit k w) = unat w mod 2 ^ k"
  by (subst unsigned_take_bit_eq) (rule take_bit_eq_mod)

lemma unat_and_mask [word_arith]: "unat (w AND mask k) = unat w mod 2 ^ k"
  by (simp only: unat_take_bit_mod flip: take_bit_eq_mask)

lemma unat_of_nat_small: "n < 2 ^ LENGTH('a) \<Longrightarrow> unat (of_nat n :: 'a::len word) = n"
  by (simp add: unsigned_of_nat take_bit_nat_eq_self)

lemma unat_or_high [word_arith]:
  assumes "unat (x :: 'a::len word) < 2 ^ k" "unat y = m * 2 ^ k"
  shows "unat (x OR y) = unat x + unat y"
  using or_disjoint_nat[OF assms(1), of m] assms(2) by (simp add: unsigned_or_eq)

section \<open>Intrusive lists as lists of addresses\<close>

text \<open>The element behind \<open>p\<close>, or the end of the list; \<open>None\<close> if \<open>p\<close> is not in this list.\<close>

fun next_in :: "'a list \<Rightarrow> 'a \<Rightarrow> 'a option option" where
  "next_in [] p = None"
| "next_in (x # xs) p = (if x = p then Some (case xs of [] \<Rightarrow> None | y # _ \<Rightarrow> Some y) else next_in xs p)"

definition first_in :: "'a list \<Rightarrow> 'a option" where
  "first_in xs = (case xs of [] \<Rightarrow> None | x # _ \<Rightarrow> Some x)"

end
