(* ===== verification/List_Head.thy ===== *)
theory List_Head
  imports Qjs_Prelude
begin

text \<open>
  \<^verbatim>\<open>list.h\<close>: intrusive doubly linked rings with a sentinel. The heap maps the address of
  every live \<^verbatim>\<open>struct list_head\<close> to its two pointers; \<open>NULL\<close> is address 0 and is never
  mapped, so dereferencing it (or a dangling address) is \<^const>\<open>None\<close>. The ring predicate
  relates a heap and a head to the sequence of linked elements, and every operation of the
  header is shown to act on that sequence as the comments of the header say.
\<close>

section \<open>Nodes and the heap\<close>

type_synonym addr = nat

record list_head =
  prev :: addr
  "next" :: addr

type_synonym list_heap = "addr \<rightharpoonup> list_head"

definition NULL :: addr where
  "NULL = 0"

text \<open>Reading and writing the two fields through a pointer.\<close>

definition get_prev :: "list_heap \<Rightarrow> addr \<Rightarrow> addr option" where
  "get_prev h p = (if p = NULL then None else map_option prev (h p))"

definition get_next :: "list_heap \<Rightarrow> addr \<Rightarrow> addr option" where
  "get_next h p = (if p = NULL then None else map_option next (h p))"

definition set_prev :: "list_heap \<Rightarrow> addr \<Rightarrow> addr \<Rightarrow> list_heap option" where
  "set_prev h p v =
     (if p = NULL then None else map_option (\<lambda>n. h(p \<mapsto> n\<lparr>prev := v\<rparr>)) (h p))"

definition set_next :: "list_heap \<Rightarrow> addr \<Rightarrow> addr \<Rightarrow> list_heap option" where
  "set_next h p v =
     (if p = NULL then None else map_option (\<lambda>n. h(p \<mapsto> n\<lparr>next := v\<rparr>)) (h p))"

section \<open>The operations\<close>

definition init_list_head :: "list_heap \<Rightarrow> addr \<Rightarrow> list_heap option" where
  "init_list_head h head = do {
     h \<leftarrow> set_prev h head head;
     set_next h head head
   }"

definition list_add_between :: "list_heap \<Rightarrow> addr \<Rightarrow> addr \<Rightarrow> addr \<Rightarrow> list_heap option" where
  "list_add_between h el prv nxt = do {
     h \<leftarrow> set_next h prv el;
     h \<leftarrow> set_prev h el prv;
     h \<leftarrow> set_next h el nxt;
     set_prev h nxt el
   }"

definition list_add :: "list_heap \<Rightarrow> addr \<Rightarrow> addr \<Rightarrow> list_heap option" where
  "list_add h el head = do {
     n \<leftarrow> get_next h head;
     list_add_between h el head n
   }"

definition list_add_tail :: "list_heap \<Rightarrow> addr \<Rightarrow> addr \<Rightarrow> list_heap option" where
  "list_add_tail h el head = do {
     p \<leftarrow> get_prev h head;
     list_add_between h el p head
   }"

definition list_del :: "list_heap \<Rightarrow> addr \<Rightarrow> list_heap option" where
  "list_del h el = do {
     prv \<leftarrow> get_prev h el;
     nxt \<leftarrow> get_next h el;
     h \<leftarrow> set_next h prv nxt;
     h \<leftarrow> set_prev h nxt prv;
     h \<leftarrow> set_prev h el NULL;
     set_next h el NULL
   }"

definition list_empty :: "list_heap \<Rightarrow> addr \<Rightarrow> bool option" where
  "list_empty h el = do {
     n \<leftarrow> get_next h el;
     Some (n = el)
   }"

text \<open>
  The iteration macros. The walks may run forever on a corrupt ring, so they are partial
  functions; they return the addresses visited in order. The \<open>safe\<close> variant reads the
  successor before the body runs, which may unlink or free the current element.
\<close>

partial_function (option) list_walk :: "list_heap \<Rightarrow> addr \<Rightarrow> addr \<Rightarrow> addr list option" where
  "list_walk h head el =
     (if el = head then Some []
      else Option.bind (get_next h el) (\<lambda>n.
           Option.bind (list_walk h head n) (\<lambda>r. Some (el # r))))"

definition list_for_each :: "list_heap \<Rightarrow> addr \<Rightarrow> addr list option" where
  "list_for_each h head = Option.bind (get_next h head) (list_walk h head)"

partial_function (option) list_walk_prev :: "list_heap \<Rightarrow> addr \<Rightarrow> addr \<Rightarrow> addr list option" where
  "list_walk_prev h head el =
     (if el = head then Some []
      else Option.bind (get_prev h el) (\<lambda>n.
           Option.bind (list_walk_prev h head n) (\<lambda>r. Some (el # r))))"

definition list_for_each_prev :: "list_heap \<Rightarrow> addr \<Rightarrow> addr list option" where
  "list_for_each_prev h head = Option.bind (get_prev h head) (list_walk_prev h head)"

partial_function (option) list_walk_safe ::
  "(addr \<Rightarrow> list_heap \<times> 's \<Rightarrow> (list_heap \<times> 's) option) \<Rightarrow> addr \<Rightarrow> addr \<Rightarrow> addr \<Rightarrow>
   list_heap \<times> 's \<Rightarrow> (list_heap \<times> 's) option" where
  "list_walk_safe body head el el1 st =
     (if el = head then Some st
      else Option.bind (body el st) (\<lambda>st'.
           Option.bind (get_next (fst st') el1) (\<lambda>n. list_walk_safe body head el1 n st')))"

definition list_for_each_safe ::
  "(addr \<Rightarrow> list_heap \<times> 's \<Rightarrow> (list_heap \<times> 's) option) \<Rightarrow> addr \<Rightarrow>
   list_heap \<times> 's \<Rightarrow> (list_heap \<times> 's) option" where
  "list_for_each_safe body head st = do {
     el \<leftarrow> get_next (fst st) head;
     el1 \<leftarrow> get_next (fst st) el;
     list_walk_safe body head el el1 st
   }"

section \<open>Rings\<close>

text \<open>
  \<open>link h a b\<close>: \<open>a\<close> and \<open>b\<close> are neighbours. \<open>seg h a xs b\<close>: starting after \<open>a\<close>
  the elements \<open>xs\<close> follow in both directions up to \<open>b\<close>.
\<close>

definition link :: "list_heap \<Rightarrow> addr \<Rightarrow> addr \<Rightarrow> bool" where
  "link h a b \<longleftrightarrow> get_next h a = Some b \<and> get_prev h b = Some a"

fun seg :: "list_heap \<Rightarrow> addr \<Rightarrow> addr list \<Rightarrow> addr \<Rightarrow> bool" where
  "seg h a [] b \<longleftrightarrow> link h a b"
| "seg h a (x # xs) b \<longleftrightarrow> link h a x \<and> seg h x xs b"

definition ring :: "list_heap \<Rightarrow> addr \<Rightarrow> addr list \<Rightarrow> bool" where
  "ring h head xs \<longleftrightarrow> seg h head xs head \<and> distinct (head # xs)"

lemmas field_defs = get_prev_def get_next_def set_prev_def set_next_def

lemma get_set_next [simp]:
  "set_next h p v = Some h' \<Longrightarrow> get_next h' q = (if q = p then Some v else get_next h q)"
  "set_next h p v = Some h' \<Longrightarrow> get_prev h' q = get_prev h q"
  by (auto simp: field_defs split: if_splits)

lemma get_set_prev [simp]:
  "set_prev h p v = Some h' \<Longrightarrow> get_prev h' q = (if q = p then Some v else get_prev h q)"
  "set_prev h p v = Some h' \<Longrightarrow> get_next h' q = get_next h q"
  by (auto simp: field_defs split: if_splits)

lemma set_next_total: "get_next h p = Some a \<Longrightarrow> \<exists>h'. set_next h p v = Some h'"
  by (auto simp: field_defs split: if_splits)

lemma set_prev_total: "get_prev h p = Some a \<Longrightarrow> \<exists>h'. set_prev h p v = Some h'"
  by (auto simp: field_defs split: if_splits)

lemma get_prev_iff_next: "(\<exists>a. get_prev h p = Some a) \<longleftrightarrow> (\<exists>a. get_next h p = Some a)"
  by (auto simp: field_defs)

lemma seg_append: "seg h a (xs @ x # ys) b \<longleftrightarrow> seg h a xs x \<and> seg h x ys b"
  by (induction xs arbitrary: a) auto

text \<open>A segment only reads the \<open>next\<close> field of its first nodes and the \<open>prev\<close> field of its last.\<close>

lemma seg_cong:
  assumes "\<And>p. p \<in> set (a # xs) \<Longrightarrow> get_next h' p = get_next h p"
    and "\<And>p. p \<in> set (xs @ [b]) \<Longrightarrow> get_prev h' p = get_prev h p"
  shows "seg h' a xs b = seg h a xs b"
  using assms by (induction xs arbitrary: a) (auto simp: link_def)

lemma seg_link_ends:
  assumes "seg h a xs b"
  shows "get_next h a = Some (hd (xs @ [b]))" and "get_prev h b = Some (last (a # xs))"
  using assms by (induction xs arbitrary: a) (auto simp: link_def)

lemma seg_next_dom: "seg h a xs b \<Longrightarrow> p \<in> set (a # xs) \<Longrightarrow> \<exists>v. get_next h p = Some v"
  by (induction xs arbitrary: a) (auto simp: link_def)

lemma seg_prev_dom: "seg h a xs b \<Longrightarrow> p \<in> set (xs @ [b]) \<Longrightarrow> \<exists>v. get_prev h p = Some v"
  by (induction xs arbitrary: a) (auto simp: link_def)

lemma ring_node: "ring h head xs \<Longrightarrow> p \<in> set (head # xs) \<Longrightarrow> \<exists>v. get_next h p = Some v"
  using seg_next_dom by (auto simp: ring_def)

section \<open>Initialisation, emptiness\<close>

lemma init_list_head_ring:
  assumes "get_next h p = Some v"
  obtains h' where "init_list_head h p = Some h'" "ring h' p []"
    "\<And>q. q \<noteq> p \<Longrightarrow> h' q = h q"
proof -
  obtain w where w: "get_prev h p = Some w" using assms get_prev_iff_next by blast
  obtain h1 where h1: "set_prev h p p = Some h1" using set_prev_total[OF w] by blast
  then have "get_next h1 p = Some v" using assms by simp
  then obtain h2 where h2: "set_next h1 p p = Some h2" using set_next_total by blast
  have "ring h2 p []" using h1 h2 by (simp add: ring_def link_def)
  moreover have "q \<noteq> p \<Longrightarrow> h2 q = h q" for q
    using h1 h2 by (auto simp: field_defs split: if_splits)
  ultimately show thesis using that h1 h2 by (simp add: init_list_head_def)
qed

lemma list_empty_ring: "ring h head xs \<Longrightarrow> list_empty h head = Some (xs = [])"
  using seg_link_ends(1)[of h head xs head]
  by (cases xs) (auto simp: ring_def list_empty_def)

section \<open>Insertion\<close>

text \<open>
  Inserting a fresh node between two neighbours: the links of the two segments around them
  survive, because the four writes touch only the \<open>next\<close> field of the left neighbour and
  the \<open>prev\<close> field of the right one.
\<close>

lemma list_add_between_fields:
  assumes "get_next h a = Some b" "get_prev h b = Some a" "get_next h el = Some v"
    and "el \<noteq> a" "el \<noteq> b"
  obtains h' where "list_add_between h el a b = Some h'"
    "\<And>p. get_next h' p = (if p = el then Some b else if p = a then Some el else get_next h p)"
    "\<And>p. get_prev h' p = (if p = b then Some el else if p = el then Some a else get_prev h p)"
    "\<And>p. p \<notin> {el, a, b} \<Longrightarrow> h' p = h p"
proof -
  obtain h1 where h1: "set_next h a el = Some h1" using set_next_total[OF assms(1)] by blast
  have "\<exists>w. get_prev h1 el = Some w" using h1 assms(3) get_prev_iff_next by simp
  then obtain h2 where h2: "set_prev h1 el a = Some h2" using set_prev_total by blast
  have "\<exists>w. get_next h2 el = Some w" using h1 h2 assms by simp
  then obtain h3 where h3: "set_next h2 el b = Some h3" using set_next_total by blast
  have "\<exists>w. get_prev h3 b = Some w" using h1 h2 h3 assms by simp
  then obtain h4 where h4: "set_prev h3 b el = Some h4" using set_prev_total by blast
  have n: "get_next h4 p = (if p = el then Some b else if p = a then Some el else get_next h p)" for p
    using h1 h2 h3 h4 by simp
  have pr: "get_prev h4 p = (if p = b then Some el else if p = el then Some a else get_prev h p)" for p
    using h1 h2 h3 h4 by simp
  have fr: "h4 p = h p" if "p \<notin> {el, a, b}" for p
    using h1 h2 h3 h4 that by (auto simp: field_defs split: if_splits)
  have "list_add_between h el a b = Some h4"
    using h1 h2 h3 h4 by (simp add: list_add_between_def)
  then show thesis using that n pr fr by blast
qed

text \<open>
  Cutting a ring at any point leaves two segments; re-linking their ends to another node
  gives a ring again, provided the rest of their links is untouched.
\<close>

lemma seg_relink_left:
  assumes "seg h s us b" "link h' (last (s # us)) e"
    and "\<And>p. p \<in> set (butlast (s # us)) \<Longrightarrow> get_next h' p = get_next h p"
    and "\<And>p. p \<in> set us \<Longrightarrow> get_prev h' p = get_prev h p"
  shows "seg h' s us e"
  using assms by (induction us arbitrary: s) (auto simp: link_def)

lemma seg_relink_right:
  assumes "seg h a vs c" "link h' e (hd (vs @ [c]))"
    and "\<And>p. p \<in> set vs \<Longrightarrow> get_next h' p = get_next h p"
    and "\<And>p. p \<in> set (tl (vs @ [c])) \<Longrightarrow> get_prev h' p = get_prev h p"
  shows "seg h' e vs c"
proof (cases vs)
  case Nil
  with assms(2) show ?thesis by simp
next
  case (Cons v vs')
  have "seg h' v vs' c = seg h v vs' c"
    by (rule seg_cong) (use assms Cons in auto)
  with assms Cons show ?thesis by simp
qed

lemma seg_cut:
  assumes "seg h s (us @ vs) c"
  shows "seg h s us (hd (vs @ [c]))" "seg h (last (s # us)) vs c"
    "link h (last (s # us)) (hd (vs @ [c]))"
  using assms by (induction us arbitrary: s; cases vs; auto simp: link_def)+

lemma seg_paste:
  assumes "seg h s us e" "seg h e vs c"
  shows "seg h s (us @ e # vs) c"
  using assms by (simp add: seg_append)

lemma ring_insert:
  assumes r: "ring h head (us @ vs)" and el: "get_next h el = Some v" "el \<notin> set (head # us @ vs)"
  obtains h' where "list_add_between h el (last (head # us)) (hd (vs @ [head])) = Some h'"
    "ring h' head (us @ el # vs)" "\<And>p. p \<notin> set (el # head # us @ vs) \<Longrightarrow> h' p = h p"
proof -
  let ?a = "last (head # us)" and ?b = "hd (vs @ [head])"
  have sg: "seg h head (us @ vs) head" and d: "distinct (head # us @ vs)"
    using r by (auto simp: ring_def)
  note cut = seg_cut[OF sg]
  have ab: "?a \<in> set (head # us)" "?b \<in> set (head # vs)"
    using last_in_set[of "head # us"] by (cases vs; auto)+
  have "get_next h ?a = Some ?b" "get_prev h ?b = Some ?a" using cut(3) by (auto simp: link_def)
  moreover have ne: "el \<noteq> ?a" "el \<noteq> ?b" using el ab by auto
  ultimately obtain h' where h': "list_add_between h el ?a ?b = Some h'"
    and n: "\<And>p. get_next h' p = (if p = el then Some ?b else if p = ?a then Some el else get_next h p)"
    and pr: "\<And>p. get_prev h' p = (if p = ?b then Some el else if p = el then Some ?a else get_prev h p)"
    and fr: "\<And>p. p \<notin> {el, ?a, ?b} \<Longrightarrow> h' p = h p"
    using list_add_between_fields[of h ?a ?b el v] el by blast
  have na: "?a \<notin> set (butlast (head # us))" "?a \<notin> set vs"
    using d ab(1) last_notin_butlast[of "head # us"] by auto
  have nb: "?b \<notin> set us" "?b \<notin> set (tl (vs @ [head]))" "el \<notin> set (tl (vs @ [head]))"
    using d el by (cases vs; auto)+
  have "seg h' head us el"
    by (rule seg_relink_left[OF cut(1)]) (use n pr na nb el ne in \<open>auto simp: link_def dest: in_set_butlastD\<close>)
  moreover have "seg h' el vs head"
    by (rule seg_relink_right[OF cut(2)]) (use n pr na nb el ne in \<open>auto simp: link_def dest: list.set_sel(2)\<close>)
  ultimately have "seg h' head (us @ el # vs) head" by (rule seg_paste)
  moreover have "distinct (head # us @ el # vs)" using d el by auto
  moreover have "h' p = h p" if "p \<notin> set (el # head # us @ vs)" for p
    using fr[of p] ab that by auto
  ultimately show thesis using that h' by (auto simp: ring_def)
qed

lemma list_add_ring:
  assumes "ring h head xs" "get_next h el = Some v" "el \<notin> set (head # xs)"
  obtains h' where "list_add h el head = Some h'" "ring h' head (el # xs)"
    "\<And>p. p \<notin> set (el # head # xs) \<Longrightarrow> h' p = h p"
proof -
  have "seg h head xs head" using assms(1) by (simp add: ring_def)
  then have g: "get_next h head = Some (hd (xs @ [head]))"
    by (rule seg_link_ends(1))
  show thesis
    using ring_insert[of h head "[]" xs el v] assms that g by (auto simp: list_add_def)
qed

lemma list_add_tail_ring:
  assumes "ring h head xs" "get_next h el = Some v" "el \<notin> set (head # xs)"
  obtains h' where "list_add_tail h el head = Some h'" "ring h' head (xs @ [el])"
    "\<And>p. p \<notin> set (el # head # xs) \<Longrightarrow> h' p = h p"
proof -
  have "seg h head xs head" using assms(1) by (simp add: ring_def)
  then have g: "get_prev h head = Some (last (head # xs))"
    by (rule seg_link_ends(2))
  show thesis
    using ring_insert[of h head xs "[]" el v] assms that g by (auto simp: list_add_tail_def)
qed

section \<open>Deletion\<close>

lemma list_del_fields:
  assumes "get_prev h el = Some a" "get_next h el = Some b" "el \<noteq> a" "el \<noteq> b"
    and "get_next h a = Some x" "get_prev h b = Some y"
  obtains h' where "list_del h el = Some h'"
    "\<And>p. get_next h' p = (if p = el then Some NULL else if p = a then Some b else get_next h p)"
    "\<And>p. get_prev h' p = (if p = el then Some NULL else if p = b then Some a else get_prev h p)"
    "\<And>p. p \<notin> {el, a, b} \<Longrightarrow> h' p = h p"
proof -
  obtain h1 where h1: "set_next h a b = Some h1" using set_next_total[OF assms(5)] by blast
  have "\<exists>w. get_prev h1 b = Some w" using h1 assms by simp
  then obtain h2 where h2: "set_prev h1 b a = Some h2" using set_prev_total by blast
  have "\<exists>w. get_prev h2 el = Some w" using h1 h2 assms by simp
  then obtain h3 where h3: "set_prev h2 el NULL = Some h3" using set_prev_total by blast
  have "\<exists>w. get_next h3 el = Some w" using h1 h2 h3 assms by simp
  then obtain h4 where h4: "set_next h3 el NULL = Some h4" using set_next_total by blast
  have n: "get_next h4 p = (if p = el then Some NULL else if p = a then Some b else get_next h p)" for p
    using h1 h2 h3 h4 by simp
  have pr: "get_prev h4 p = (if p = el then Some NULL else if p = b then Some a else get_prev h p)" for p
    using h1 h2 h3 h4 by simp
  have fr: "h4 p = h p" if "p \<notin> {el, a, b}" for p
    using h1 h2 h3 h4 that by (auto simp: field_defs split: if_splits)
  have "list_del h el = Some h4" using h1 h2 h3 h4 assms by (simp add: list_del_def)
  then show thesis using that n pr fr by blast
qed

lemma list_del_ring:
  assumes r: "ring h head (us @ el # vs)"
  obtains h' where "list_del h el = Some h'" "ring h' head (us @ vs)"
    "get_next h' el = Some NULL" "get_prev h' el = Some NULL"
    "\<And>p. p \<notin> set (head # us @ el # vs) \<Longrightarrow> h' p = h p"
proof -
  let ?a = "last (head # us)" and ?b = "hd (vs @ [head])"
  have sg: "seg h head (us @ el # vs) head" and d: "distinct (head # us @ el # vs)"
    using r by (auto simp: ring_def)
  have s1: "seg h head us el" and s2: "seg h el vs head" using sg by (auto simp: seg_append)
  have l1: "link h ?a el" using seg_cut(3)[OF sg] by simp
  have l2: "link h el ?b" using s2 by (cases vs) auto
  have ab: "?a \<in> set (head # us)" "?b \<in> set (head # vs)"
    using last_in_set[of "head # us"] by (cases vs; auto)+
  have "el \<noteq> ?a" "el \<noteq> ?b" using d ab by auto
  then obtain h' where h': "list_del h el = Some h'"
    and n: "\<And>p. get_next h' p = (if p = el then Some NULL else if p = ?a then Some ?b else get_next h p)"
    and pr: "\<And>p. get_prev h' p = (if p = el then Some NULL else if p = ?b then Some ?a else get_prev h p)"
    and fr: "\<And>p. p \<notin> {el, ?a, ?b} \<Longrightarrow> h' p = h p"
    using list_del_fields[of h el ?a ?b el el] l1 l2 by (auto simp: link_def)
  have na: "?a \<notin> set (butlast (head # us))" "?a \<notin> set vs"
    using d ab(1) last_notin_butlast[of "head # us"] by auto
  have nb: "?b \<notin> set us" "?b \<notin> set (tl (vs @ [head]))" "el \<notin> set (tl (vs @ [head]))"
    using d by (cases vs; auto)+
  have l: "link h' ?a ?b" using n pr \<open>el \<noteq> ?a\<close> \<open>el \<noteq> ?b\<close> by (auto simp: link_def)
  have L: "seg h' head us ?b"
    by (rule seg_relink_left[OF s1]) (use n pr na nb d l in \<open>auto dest: in_set_butlastD\<close>)
  have R: "seg h' ?a vs head"
    by (rule seg_relink_right[OF s2]) (use n pr na nb d l in \<open>auto dest: list.set_sel(2)\<close>)
  have "seg h' head (us @ vs) head"
  proof (cases vs)
    case Nil
    with L show ?thesis by simp
  next
    case (Cons v vs')
    with L R show ?thesis by (simp add: seg_append)
  qed
  moreover have "h' p = h p" if "p \<notin> set (head # us @ el # vs)" for p
    using fr[of p] ab that by auto
  ultimately show thesis using that[OF h'] n pr d by (auto simp: ring_def)
qed

section \<open>Iteration\<close>

lemma list_walk_seg:
  "seg h a xs head \<Longrightarrow> head \<notin> set xs \<Longrightarrow> list_walk h head (hd (xs @ [head])) = Some xs"
proof (induction xs arbitrary: a)
  case Nil
  then show ?case by (simp add: list_walk.simps)
next
  case (Cons x xs)
  have "get_next h x = Some (hd (xs @ [head]))"
    using seg_link_ends(1)[of h x xs head] Cons.prems by simp
  then show ?case using Cons.prems Cons.IH[of x] by (simp add: list_walk.simps[of h head x])
qed

lemma list_for_each_ring: "ring h head xs \<Longrightarrow> list_for_each h head = Some xs"
  using list_walk_seg[of h head xs head] seg_link_ends(1)[of h head xs head]
  by (auto simp: ring_def list_for_each_def)

lemma list_walk_prev_seg:
  "seg h head xs b \<Longrightarrow> head \<notin> set xs \<Longrightarrow> list_walk_prev h head (last (head # xs)) = Some (rev xs)"
proof (induction xs arbitrary: b rule: rev_induct)
  case Nil
  then show ?case by (simp add: list_walk_prev.simps)
next
  case (snoc x xs)
  have "seg h head xs x" using snoc.prems(1) seg_append[of h head xs x "[]" b] by simp
  moreover from this have "get_prev h x = Some (last (head # xs))"
    by (rule seg_link_ends(2))
  ultimately show ?case using snoc by (simp add: list_walk_prev.simps[of h head x])
qed

lemma list_for_each_prev_ring: "ring h head xs \<Longrightarrow> list_for_each_prev h head = Some (rev xs)"
  using list_walk_prev_seg[of h head xs head] seg_link_ends(2)[of h head xs head]
  by (auto simp: ring_def list_for_each_prev_def)

section \<open>The interface of the lists\<close>

text \<open>
  What the clients of \<^verbatim>\<open>list.h\<close> rely on: \<open>rep h head xs\<close> says that the list anchored at \<open>head\<close> links
  the elements \<open>xs\<close> in this order, \<open>node h p\<close> that \<open>p\<close> has link fields. Every operation leaves
  the lists it does not touch.
\<close>

locale intrusive_list =
  fixes rep :: "'h \<Rightarrow> 'a \<Rightarrow> 'a list \<Rightarrow> bool"
    and node :: "'h \<Rightarrow> 'a \<Rightarrow> bool"
    and add_tail :: "'h \<Rightarrow> 'a \<Rightarrow> 'a \<Rightarrow> 'h option"
    and del :: "'h \<Rightarrow> 'a \<Rightarrow> 'h option"
    and is_empty :: "'h \<Rightarrow> 'a \<Rightarrow> bool option"
    and iter :: "'h \<Rightarrow> 'a \<Rightarrow> 'a list option"
  assumes rep_distinct: "rep h head xs \<Longrightarrow> distinct (head # xs)"
    and rep_node: "rep h head xs \<Longrightarrow> p \<in> set (head # xs) \<Longrightarrow> node h p"
    and add_tail_law: "rep h head xs \<Longrightarrow> node h el \<Longrightarrow> el \<notin> set (head # xs) \<Longrightarrow>
      \<exists>h'. add_tail h el head = Some h' \<and> rep h' head (xs @ [el]) \<and> (\<forall>p. node h' p = node h p) \<and>
        (\<forall>hd2 ys. rep h hd2 ys \<longrightarrow> set (hd2 # ys) \<inter> set (el # head # xs) = {} \<longrightarrow> rep h' hd2 ys)"
    and del_law: "rep h head (us @ el # vs) \<Longrightarrow>
      \<exists>h'. del h el = Some h' \<and> rep h' head (us @ vs) \<and> (\<forall>p. node h' p = node h p) \<and>
        (\<forall>hd2 ys. rep h hd2 ys \<longrightarrow> set (hd2 # ys) \<inter> set (head # us @ el # vs) = {} \<longrightarrow> rep h' hd2 ys)"
    and empty_law: "rep h head xs \<Longrightarrow> is_empty h head = Some (xs = [])"
    and iter_law: "rep h head xs \<Longrightarrow> iter h head = Some xs"
begin

text \<open>Moving an element from one list to the end of another, as the collector does.\<close>

lemma move_tail:
  assumes a: "rep h A (us @ el # vs)" and b: "rep h B ys"
    and dis: "set (A # us @ el # vs) \<inter> set (B # ys) = {}"
  shows "\<exists>h1 h'. del h el = Some h1 \<and> add_tail h1 el B = Some h' \<and>
    rep h' A (us @ vs) \<and> rep h' B (ys @ [el]) \<and> (\<forall>p. node h' p = node h p) \<and>
    (\<forall>C zs. rep h C zs \<longrightarrow> set (C # zs) \<inter> set (A # us @ el # vs) = {} \<longrightarrow>
       set (C # zs) \<inter> set (B # ys) = {} \<longrightarrow> rep h' C zs)"
proof -
  obtain h1 where h1: "del h el = Some h1" "rep h1 A (us @ vs)" "\<forall>p. node h1 p = node h p"
    and f1: "\<forall>C zs. rep h C zs \<longrightarrow> set (C # zs) \<inter> set (A # us @ el # vs) = {} \<longrightarrow> rep h1 C zs"
    using del_law[OF a] by blast
  have b1: "rep h1 B ys" using f1 b dis by blast
  have el: "node h1 el" "el \<notin> set (B # ys)" using rep_node[OF a, of el] h1(3) dis by auto
  obtain h' where h': "add_tail h1 el B = Some h'" "rep h' B (ys @ [el])" "\<forall>p. node h' p = node h1 p"
    and f2: "\<forall>C zs. rep h1 C zs \<longrightarrow> set (C # zs) \<inter> set (el # B # ys) = {} \<longrightarrow> rep h' C zs"
    using add_tail_law[OF b1 el] by blast
  have "set (A # us @ vs) \<inter> set (el # B # ys) = {}" using rep_distinct[OF a] dis by auto
  then have "rep h' A (us @ vs)" using f2 h1(2) by blast
  moreover have "\<forall>C zs. rep h C zs \<longrightarrow> set (C # zs) \<inter> set (A # us @ el # vs) = {} \<longrightarrow>
       set (C # zs) \<inter> set (B # ys) = {} \<longrightarrow> rep h' C zs"
  proof (intro allI impI)
    fix C zs
    assume c: "rep h C zs" and d1: "set (C # zs) \<inter> set (A # us @ el # vs) = {}" and d2: "set (C # zs) \<inter> set (B # ys) = {}"
    have "rep h1 C zs" using f1 c d1 by blast
    moreover have "set (C # zs) \<inter> set (el # B # ys) = {}" using d1 d2 by auto
    ultimately show "rep h' C zs" using f2 by blast
  qed
  ultimately show ?thesis using h1(1,3) h'(1,2,3) by auto
qed

text \<open>Taking the first element, as the job queue does.\<close>

lemma take_first:
  assumes "rep h head (el # vs)"
  shows "iter h head = Some (el # vs)" "\<exists>h'. del h el = Some h' \<and> rep h' head vs \<and> (\<forall>p. node h' p = node h p)"
  using iter_law[OF assms] del_law[of h head "[]" el vs] assms by auto

end

definition is_node :: "list_heap \<Rightarrow> addr \<Rightarrow> bool" where
  "is_node h p \<longleftrightarrow> p \<noteq> NULL \<and> h p \<noteq> None"

lemma is_node_next: "is_node h p \<longleftrightarrow> (\<exists>v. get_next h p = Some v)"
  by (auto simp: is_node_def get_next_def)

lemma ring_frame:
  assumes "ring h head xs" "\<And>p. p \<in> set (head # xs) \<Longrightarrow> h' p = h p"
  shows "ring h' head xs"
proof -
  have "get_next h' p = get_next h p" "get_prev h' p = get_prev h p" if "p \<in> set (head # xs)" for p
    using assms(2)[OF that] by (simp_all add: get_next_def get_prev_def)
  then show ?thesis using assms(1) unfolding ring_def
    by (subst seg_cong[of head xs h' h head]) auto
qed

lemma set_field_node:
  "set_next h p v = Some h' \<Longrightarrow> is_node h' q = is_node h q"
  "set_prev h p v = Some h' \<Longrightarrow> is_node h' q = is_node h q"
  by (auto simp: is_node_def set_next_def set_prev_def split: if_splits)

lemma list_add_tail_node: "list_add_tail h el head = Some h' \<Longrightarrow> is_node h' q = is_node h q"
  by (auto simp: list_add_tail_def list_add_between_def set_field_node split: bind_splits)

lemma list_del_node: "list_del h el = Some h' \<Longrightarrow> is_node h' q = is_node h q"
  by (auto simp: list_del_def set_field_node split: bind_splits)

interpretation lh: intrusive_list ring is_node list_add_tail list_del list_empty list_for_each
proof unfold_locales
  fix h head el and xs :: "addr list"
  assume r: "ring h head xs" and el: "is_node h el" "el \<notin> set (head # xs)"
  obtain v where v: "get_next h el = Some v" using el(1) is_node_next by blast
  obtain h' where h': "list_add_tail h el head = Some h'" "ring h' head (xs @ [el])"
    "\<And>p. p \<notin> set (el # head # xs) \<Longrightarrow> h' p = h p" using list_add_tail_ring[OF r v el(2)] by blast
  show "\<exists>h'. list_add_tail h el head = Some h' \<and> ring h' head (xs @ [el]) \<and> (\<forall>p. is_node h' p = is_node h p) \<and>
        (\<forall>hd2 ys. ring h hd2 ys \<longrightarrow> set (hd2 # ys) \<inter> set (el # head # xs) = {} \<longrightarrow> ring h' hd2 ys)"
    using h' list_add_tail_node[OF h'(1)] ring_frame[of h _ _ h'] by (intro exI[of _ h']) blast
next
  fix h head el and us vs :: "addr list"
  assume r: "ring h head (us @ el # vs)"
  obtain h' where h': "list_del h el = Some h'" "ring h' head (us @ vs)"
    "\<And>p. p \<notin> set (head # us @ el # vs) \<Longrightarrow> h' p = h p" using list_del_ring[OF r] by blast
  show "\<exists>h'. list_del h el = Some h' \<and> ring h' head (us @ vs) \<and> (\<forall>p. is_node h' p = is_node h p) \<and>
        (\<forall>hd2 ys. ring h hd2 ys \<longrightarrow> set (hd2 # ys) \<inter> set (head # us @ el # vs) = {} \<longrightarrow> ring h' hd2 ys)"
    using h' list_del_node[OF h'(1)] ring_frame[of h _ _ h'] by (intro exI[of _ h']) blast
qed (use ring_node is_node_next list_empty_ring list_for_each_ring in \<open>auto simp: ring_def\<close>)

section \<open>Deleting while iterating\<close>

text \<open>The body of the loops that empty a list: unlink the current element and record it.\<close>

definition unlink_body :: "addr \<Rightarrow> list_heap \<times> addr list \<Rightarrow> (list_heap \<times> addr list) option" where
  "unlink_body el st = Option.bind (list_del (fst st) el) (\<lambda>h. Some (h, snd st @ [el]))"

lemma ring_first: "ring h head xs \<Longrightarrow> get_next h head = Some (hd (xs @ [head]))"
  using seg_link_ends(1)[of h head xs head] by (simp add: ring_def)

lemma list_walk_safe_unlink:
  "ring h head xs \<Longrightarrow> get_next h head = Some e \<Longrightarrow> get_next h e = Some e1 \<Longrightarrow>
   \<exists>h'. list_walk_safe unlink_body head e e1 (h, acc) = Some (h', acc @ xs) \<and> ring h' head []"
proof (induction xs arbitrary: h e e1 acc)
  case Nil
  then have "e = head" using ring_first by fastforce
  then show ?case using Nil.prems(1) by (subst list_walk_safe.simps) auto
next
  case (Cons x xs)
  have e: "e = x" using ring_first[OF Cons.prems(1)] Cons.prems(2) by simp
  have x: "x \<noteq> head" using Cons.prems(1) by (auto simp: ring_def)
  have "seg h x xs head" using Cons.prems(1) by (simp add: ring_def)
  then have e1: "e1 = hd (xs @ [head])" using seg_link_ends(1) Cons.prems(3) e by fastforce
  obtain h1 where h1: "list_del h x = Some h1" "ring h1 head xs"
    using list_del_ring[of h head "[]" x xs] Cons.prems(1) by auto
  have step: "unlink_body x (h, acc) = Some (h1, acc @ [x])" using h1(1) by (simp add: unlink_body_def)
  have "hd (xs @ [head]) \<in> set (head # xs)" by (cases xs) auto
  then obtain n where n: "get_next h1 e1 = Some n" using ring_node[OF h1(2)] e1 by blast
  have "get_next h1 head = Some e1" using ring_first[OF h1(2)] e1 by simp
  from Cons.IH[OF h1(2) this n, of "acc @ [x]"] show ?case
    using x n e step by (subst list_walk_safe.simps) simp
qed

section \<open>Properties\<close>


text \<open>A list of one element at address 2 anchored at 1, and a node 3 that is in no list.\<close>

definition example_heap :: list_heap where
  "example_heap = [1 \<mapsto> \<lparr>prev = 2, next = 2\<rparr>, 2 \<mapsto> \<lparr>prev = 1, next = 1\<rparr>, 3 \<mapsto> \<lparr>prev = 0, next = 0\<rparr>]"


text \<open>
  Deleting every element of a list from inside \<^verbatim>\<open>list_for_each_safe\<close> visits all of them once, in
  order, terminates, and leaves the empty list: the macro reads the successor before the body
  unlinks the current element.
\<close>

theorem list_for_each_safe_unlinks:
  assumes "ring h head xs"
  shows "\<exists>h'. list_for_each_safe unlink_body head (h, acc) = Some (h', acc @ xs) \<and> ring h' head []"
proof -
  have "hd (xs @ [head]) \<in> set (head # xs)" by (cases xs) auto
  then obtain e1 where "get_next h (hd (xs @ [head])) = Some e1" using ring_node[OF assms] by blast
  from list_walk_safe_unlink[OF assms ring_first[OF assms] this, of acc]
  show ?thesis using \<open>get_next h (hd (xs @ [head])) = Some e1\<close> ring_first[OF assms]
    by (simp add: list_for_each_safe_def)
qed

theorem list_for_each_safe_unlinks_witness:
  "\<exists>h'. list_for_each_safe unlink_body 1 (example_heap, []) = Some (h', [] @ [2]) \<and> ring h' 1 []"
  by (rule list_for_each_safe_unlinks)
     (simp add: ring_def link_def example_heap_def get_next_def get_prev_def NULL_def)

end
