(* ===== verification/Js_Job.thy ===== *)
theory Js_Job
  imports List_Head
begin

text \<open>
  The job queue of \<^verbatim>\<open>quickjs.c\<close>, which runs promise reactions: \<^verbatim>\<open>JS_EnqueueJob\<close>, \<^verbatim>\<open>JS_IsJobPending\<close> and
  \<^verbatim>\<open>JS_ExecutePendingJob\<close>. The entries are linked into the list of the runtime through the
  operations of \<^theory_text>\<open>List_Head\<close>. The allocator and the job functions are parameters; a job
  function acts on the queue by enqueueing more jobs.
\<close>

section \<open>The state and the operations\<close>

record ('c, 'v) job_entry =
  e_ctx :: 'c
  e_job_func :: nat
  e_argv :: "'v list"

record ('c, 'v) job_rt =
  heap :: list_heap
  job_list :: addr
  entries :: "addr \<rightharpoonup> ('c, 'v) job_entry"
  refs :: "'v \<Rightarrow> int"

text \<open>\<^verbatim>\<open>JS_DupValue\<close> and \<^verbatim>\<open>JS_FreeValue\<close> on the reference counts.\<close>

fun dup_values :: "'v list \<Rightarrow> ('v \<Rightarrow> int) \<Rightarrow> ('v \<Rightarrow> int)" where
  "dup_values [] r = r"
| "dup_values (v # vs) r = dup_values vs (r(v := r v + 1))"

fun free_values :: "'v list \<Rightarrow> ('v \<Rightarrow> int) \<Rightarrow> ('v \<Rightarrow> int)" where
  "free_values [] r = r"
| "free_values (v # vs) r = free_values vs (r(v := r v - 1))"

text \<open>
  \<open>js_malloc\<close> answers the address of a fresh entry or \<^const>\<open>None\<close> when the memory is exhausted. The
  result is the return value and the new state; the outer \<^const>\<open>None\<close> is an invalid access.
\<close>

definition JS_EnqueueJob ::
  "(('c, 'v) job_rt \<Rightarrow> addr option) \<Rightarrow> 'c \<Rightarrow> nat \<Rightarrow> 'v list \<Rightarrow> ('c, 'v) job_rt \<Rightarrow>
   (int \<times> ('c, 'v) job_rt) option" where
  "JS_EnqueueJob js_malloc ctx job_func argv rt =
     (case js_malloc rt of
        None \<Rightarrow> Some (- 1, rt)
      | Some e \<Rightarrow> do {
          let rt = rt\<lparr>entries := (entries rt)(e \<mapsto> \<lparr>e_ctx = ctx, e_job_func = job_func, e_argv = argv\<rparr>),
                      heap := (heap rt)(e \<mapsto> \<lparr>prev = NULL, next = NULL\<rparr>),
                      refs := dup_values argv (refs rt)\<rparr>;
          h \<leftarrow> list_add_tail (heap rt) e (job_list rt);
          Some (0, rt\<lparr>heap := h\<rparr>) })"

definition JS_IsJobPending :: "('c, 'v) job_rt \<Rightarrow> bool option" where
  "JS_IsJobPending rt = map_option Not (list_empty (heap rt) (job_list rt))"

text \<open>
  \<open>call f argv rt\<close> runs a job function: it returns whether the result is not an exception, and
  the state it leaves.
\<close>

definition JS_ExecutePendingJob ::
  "(('c, 'v) job_entry \<Rightarrow> ('c, 'v) job_rt \<Rightarrow> (bool \<times> ('c, 'v) job_rt) option) \<Rightarrow> ('c, 'v) job_rt \<Rightarrow>
   (int \<times> 'c option \<times> ('c, 'v) job_rt) option" where
  "JS_ExecutePendingJob call rt = do {
     emp \<leftarrow> list_empty (heap rt) (job_list rt);
     if emp then Some (0, None, rt)
     else do {
       e \<leftarrow> get_next (heap rt) (job_list rt);
       h \<leftarrow> list_del (heap rt) e;
       ent \<leftarrow> entries rt e;
       (ok, rt) \<leftarrow> call ent (rt\<lparr>heap := h\<rparr>);
       let rt = rt\<lparr>refs := free_values (e_argv ent) (refs rt)\<rparr>;
       let rt = rt\<lparr>entries := (entries rt)(e := None), heap := (heap rt)(e := None)\<rparr>;
       Some (if ok then 1 else - 1, Some (e_ctx ent), rt) } }"

text \<open>A job function that enqueues the given jobs, and the loop that runs \<open>n\<close> pending jobs.\<close>

fun enqueue_all ::
  "(('c, 'v) job_rt \<Rightarrow> addr option) \<Rightarrow> ('c \<times> nat \<times> 'v list) list \<Rightarrow> ('c, 'v) job_rt \<Rightarrow> ('c, 'v) job_rt option" where
  "enqueue_all js_malloc [] rt = Some rt"
| "enqueue_all js_malloc ((ctx, f, argv) # js) rt = do {
     (r, rt) \<leftarrow> JS_EnqueueJob js_malloc ctx f argv rt;
     enqueue_all js_malloc js rt }"

definition job_call ::
  "(('c, 'v) job_rt \<Rightarrow> addr option) \<Rightarrow> (('c, 'v) job_entry \<Rightarrow> ('c \<times> nat \<times> 'v list) list) \<Rightarrow>
   (('c, 'v) job_entry \<Rightarrow> bool) \<Rightarrow> ('c, 'v) job_entry \<Rightarrow> ('c, 'v) job_rt \<Rightarrow> (bool \<times> ('c, 'v) job_rt) option" where
  "job_call js_malloc spawn succeeds ent rt =
     map_option (\<lambda>rt. (succeeds ent, rt)) (enqueue_all js_malloc (spawn ent) rt)"

fun run_jobs ::
  "(('c, 'v) job_entry \<Rightarrow> ('c, 'v) job_rt \<Rightarrow> (bool \<times> ('c, 'v) job_rt) option) \<Rightarrow> nat \<Rightarrow> ('c, 'v) job_rt \<Rightarrow>
   (int list \<times> 'c option list \<times> ('c, 'v) job_rt) option" where
  "run_jobs call 0 rt = Some ([], [], rt)"
| "run_jobs call (Suc n) rt = do {
     (ret, pctx, rt) \<leftarrow> JS_ExecutePendingJob call rt;
     (rets, pctxs, rt) \<leftarrow> run_jobs call n rt;
     Some (ret # rets, pctx # pctxs, rt) }"

section \<open>The queue\<close>

text \<open>
  The abstract state: the jobs waiting, in the order in which they were enqueued. The reference
  counts are those of the rest of the runtime, \<open>base\<close>, and one for each argument of a waiting
  job.
\<close>

definition jobs_rep ::
  "('v \<Rightarrow> int) \<Rightarrow> ('c, 'v) job_rt \<Rightarrow> addr list \<Rightarrow> ('c, 'v) job_entry list \<Rightarrow> bool" where
  "jobs_rep base rt as js \<longleftrightarrow>
     ring (heap rt) (job_list rt) as \<and> map (entries rt) as = map Some js \<and>
     finite (dom (heap rt)) \<and> job_list rt \<notin> dom (entries rt) \<and>
     dom (heap rt) = insert (job_list rt) (dom (entries rt)) \<and>
     (\<forall>v. refs rt v = base v + int (count_list (concat (map e_argv js)) v))"

definition pending :: "('v \<Rightarrow> int) \<Rightarrow> ('c, 'v) job_rt \<Rightarrow> ('c, 'v) job_entry list \<Rightarrow> bool" where
  "pending base rt js \<longleftrightarrow> (\<exists>as. jobs_rep base rt as js)"

text \<open>An allocator that does not fail and returns an address that is not in use.\<close>

definition malloc_fresh :: "(('c, 'v) job_rt \<Rightarrow> addr option) \<Rightarrow> bool" where
  "malloc_fresh js_malloc \<longleftrightarrow>
     (\<forall>rt. finite (dom (heap rt)) \<longrightarrow> (\<exists>e. js_malloc rt = Some e \<and> e \<noteq> NULL \<and> e \<notin> dom (heap rt)))"

abbreviation mk_entry :: "'c \<times> nat \<times> 'v list \<Rightarrow> ('c, 'v) job_entry" where
  "mk_entry x \<equiv> \<lparr>e_ctx = fst x, e_job_func = fst (snd x), e_argv = snd (snd x)\<rparr>"

text \<open>The queue as the specification of promise jobs describes it.\<close>

fun fifo :: "(('c, 'v) job_entry \<Rightarrow> ('c \<times> nat \<times> 'v list) list) \<Rightarrow> (('c, 'v) job_entry \<Rightarrow> bool) \<Rightarrow> nat \<Rightarrow>
   ('c, 'v) job_entry list \<Rightarrow> int list \<times> 'c option list \<times> ('c, 'v) job_entry list" where
  "fifo spawn succeeds 0 q = ([], [], q)"
| "fifo spawn succeeds (Suc n) [] = (case fifo spawn succeeds n [] of (rets, cs, q) \<Rightarrow> (0 # rets, None # cs, q))"
| "fifo spawn succeeds (Suc n) (j # q) =
     (case fifo spawn succeeds n (q @ map mk_entry (spawn j)) of
        (rets, cs, q) \<Rightarrow> ((if succeeds j then 1 else - 1) # rets, Some (e_ctx j) # cs, q))"

lemma dup_values_count: "dup_values vs r v = r v + int (count_list vs v)"
  by (induction vs arbitrary: r) auto

lemma free_values_count: "free_values vs r v = r v - int (count_list vs v)"
  by (induction vs arbitrary: r) auto

lemma set_field_dom:
  "set_next h p v = Some h' \<Longrightarrow> dom h' = dom h" "set_prev h p v = Some h' \<Longrightarrow> dom h' = dom h"
  by (auto simp: set_next_def set_prev_def split: if_splits)

lemma list_op_dom:
  "list_add_tail h el head = Some h' \<Longrightarrow> dom h' = dom h" "list_del h el = Some h' \<Longrightarrow> dom h' = dom h"
  by (auto simp: list_add_tail_def list_add_between_def list_del_def set_field_dom split: bind_splits)

lemma jobs_rep_addrs:
  assumes "jobs_rep base rt as js"
  shows "set (job_list rt # as) \<subseteq> dom (heap rt)" "set as \<subseteq> dom (entries rt)"
    "distinct (job_list rt # as)" "length as = length js"
proof -
  have r: "ring (heap rt) (job_list rt) as" and m: "map (entries rt) as = map Some js"
    using assms by (auto simp: jobs_rep_def)
  show "set (job_list rt # as) \<subseteq> dom (heap rt)" using r lh.rep_node by (fastforce simp: is_node_def)
  show "distinct (job_list rt # as)" using r by (rule lh.rep_distinct)
  show "length as = length js" using m by (metis length_map)
  have "entries rt a \<noteq> None" if "a \<in> set as" for a
  proof -
    have "entries rt a \<in> set (map Some js)" using that m by (metis image_eqI set_map)
    then show ?thesis by auto
  qed
  then show "set as \<subseteq> dom (entries rt)" by auto
qed

lemma enqueue_rep:
  assumes rep: "jobs_rep base rt as js" and mal: "malloc_fresh js_malloc"
  shows "\<exists>e rt'. JS_EnqueueJob js_malloc ctx f argv rt = Some (0, rt') \<and> e \<notin> dom (entries rt) \<and>
     job_list rt' = job_list rt \<and> entries rt' = (entries rt)(e \<mapsto> mk_entry (ctx, f, argv)) \<and>
     jobs_rep base rt' (as @ [e]) (js @ [mk_entry (ctx, f, argv)])"
proof -
  have fin: "finite (dom (heap rt))" and r: "ring (heap rt) (job_list rt) as"
    and dom: "dom (heap rt) = insert (job_list rt) (dom (entries rt))"
    using rep by (auto simp: jobs_rep_def)
  obtain e where e: "js_malloc rt = Some e" "e \<noteq> NULL" "e \<notin> dom (heap rt)"
    using mal fin by (auto simp: malloc_fresh_def)
  let ?h = "(heap rt)(e \<mapsto> \<lparr>prev = NULL, next = NULL\<rparr>)"
  note as = jobs_rep_addrs[OF rep]
  have "ring ?h (job_list rt) as" by (rule ring_frame[OF r]) (use as(1) e(3) in auto)
  moreover have "is_node ?h e" using e(2) by (simp add: is_node_def)
  moreover have "e \<notin> set (job_list rt # as)" using as(1) e(3) by blast
  ultimately obtain h' where h': "list_add_tail ?h e (job_list rt) = Some h'" "ring h' (job_list rt) (as @ [e])"
    using lh.add_tail_law[of ?h "job_list rt" as e] by blast
  define rt' where "rt' = rt\<lparr>entries := (entries rt)(e \<mapsto> mk_entry (ctx, f, argv)), heap := h',
      refs := dup_values argv (refs rt)\<rparr>"
  have "JS_EnqueueJob js_malloc ctx f argv rt = Some (0, rt')"
    using e(1) h'(1) by (simp add: JS_EnqueueJob_def rt'_def)
  moreover have "map ((entries rt)(e \<mapsto> mk_entry (ctx, f, argv))) as = map Some js"
    using as(2) dom e(3) rep by (subst map_cong[OF refl, of as _ "entries rt"]) (auto simp: jobs_rep_def)
  then have "jobs_rep base rt' (as @ [e]) (js @ [mk_entry (ctx, f, argv)])"
    using rep h'(2) list_op_dom(1)[OF h'(1)] e(3) dom
    by (auto simp: jobs_rep_def rt'_def dup_values_count)
  moreover have "e \<notin> dom (entries rt)" using e(3) dom by blast
  ultimately show ?thesis by (intro exI[of _ e] exI[of _ rt']) (simp add: rt'_def)
qed

lemma enqueue_all_rep:
  assumes mal: "malloc_fresh js_malloc"
  shows "jobs_rep base rt as js \<Longrightarrow>
    \<exists>es rt'. enqueue_all js_malloc xs rt = Some rt' \<and> jobs_rep base rt' (as @ es) (js @ map mk_entry xs) \<and>
      set es \<inter> dom (entries rt) = {} \<and> job_list rt' = job_list rt \<and> entries rt \<subseteq>\<^sub>m entries rt'"
proof (induction xs arbitrary: rt as js)
  case (Cons x xs)
  obtain ctx f argv where x: "x = (ctx, f, argv)" by (cases x)
  obtain e rt1 where e: "JS_EnqueueJob js_malloc ctx f argv rt = Some (0, rt1)" "e \<notin> dom (entries rt)"
      "job_list rt1 = job_list rt" "entries rt1 = (entries rt)(e \<mapsto> mk_entry (ctx, f, argv))"
      "jobs_rep base rt1 (as @ [e]) (js @ [mk_entry (ctx, f, argv)])"
    using enqueue_rep[OF Cons.prems mal] by blast
  obtain es rt' where rt': "enqueue_all js_malloc xs rt1 = Some rt'"
      "jobs_rep base rt' ((as @ [e]) @ es) ((js @ [mk_entry (ctx, f, argv)]) @ map mk_entry xs)"
      "set es \<inter> dom (entries rt1) = {}" "job_list rt' = job_list rt1" "entries rt1 \<subseteq>\<^sub>m entries rt'"
    using Cons.IH[OF e(5)] by blast
  have sub: "entries rt \<subseteq>\<^sub>m entries rt1" using e(2,4) by (auto simp: map_le_def)
  then have "entries rt \<subseteq>\<^sub>m entries rt'" using rt'(5) map_le_trans by blast
  then show ?case using x e rt' by (intro exI[of _ "e # es"] exI[of _ rt']) auto
qed (intro exI[of _ "[]"], simp)

lemma execute_empty:
  "jobs_rep base rt [] [] \<Longrightarrow> JS_ExecutePendingJob call rt = Some (0, None, rt)"
  using lh.empty_law by (fastforce simp: jobs_rep_def JS_ExecutePendingJob_def)

lemma execute_rep:
  assumes rep: "jobs_rep base rt (a # as) (j # js)" and mal: "malloc_fresh js_malloc"
  shows "\<exists>rt'. JS_ExecutePendingJob (job_call js_malloc spawn succeeds) rt =
      Some (if succeeds j then 1 else - 1, Some (e_ctx j), rt') \<and>
     pending base rt' (js @ map mk_entry (spawn j))"
proof -
  let ?base = "\<lambda>v. base v + int (count_list (e_argv j) v)"
  have r: "ring (heap rt) (job_list rt) (a # as)" and ent: "entries rt a = Some j"
    using rep by (auto simp: jobs_rep_def)
  obtain h where h: "list_del (heap rt) a = Some h" "ring h (job_list rt) as"
    using lh.take_first(2)[OF r] by blast
  have rep1: "jobs_rep ?base (rt\<lparr>heap := h\<rparr>) as js"
    using rep h(2) list_op_dom(2)[OF h(1)] by (auto simp: jobs_rep_def)
  obtain es rt1 where rt1: "enqueue_all js_malloc (spawn j) (rt\<lparr>heap := h\<rparr>) = Some rt1"
      "jobs_rep ?base rt1 (as @ es) (js @ map mk_entry (spawn j))"
      "set es \<inter> dom (entries rt) = {}" "job_list rt1 = job_list rt" "entries rt \<subseteq>\<^sub>m entries rt1"
    using enqueue_all_rep[OF mal rep1, of "spawn j"] by auto
  define rt' where "rt' = rt1\<lparr>refs := free_values (e_argv j) (refs rt1),
      entries := (entries rt1)(a := None), heap := (heap rt1)(a := None)\<rparr>"
  have eq: "JS_ExecutePendingJob (job_call js_malloc spawn succeeds) rt =
      Some (if succeeds j then 1 else - 1, Some (e_ctx j), rt')"
    using lh.empty_law[OF r] ring_first[OF r] h(1) ent rt1(1)
    by (simp add: JS_ExecutePendingJob_def job_call_def rt'_def)
  have a: "a \<notin> set (as @ es)" "a \<noteq> job_list rt1"
    using jobs_rep_addrs(3)[OF rep] rt1(3,4) ent by auto
  have "ring (heap rt') (job_list rt') (as @ es)"
    by (rule ring_frame[of "heap rt1"]) (use rt1(2) a in \<open>auto simp: jobs_rep_def rt'_def\<close>)
  moreover have "map (entries rt') (as @ es) = map Some (js @ map mk_entry (spawn j))"
    using a(1) rt1(2) by (subst map_cong[OF refl, of _ _ "entries rt1"]) (auto simp: rt'_def jobs_rep_def)
  moreover have "finite (dom (heap rt'))" "job_list rt' \<notin> dom (entries rt')"
    "dom (heap rt') = insert (job_list rt') (dom (entries rt'))"
    using rt1(2) a(2) unfolding jobs_rep_def by (auto simp: rt'_def)
  moreover have "\<forall>v. refs rt' v = base v + int (count_list (concat (map e_argv (js @ map mk_entry (spawn j)))) v)"
    using rt1(2) unfolding jobs_rep_def by (simp add: rt'_def free_values_count)
  ultimately have "jobs_rep base rt' (as @ es) (js @ map mk_entry (spawn j))"
    unfolding jobs_rep_def by (intro conjI)
  then show ?thesis using eq by (auto simp: pending_def)
qed

lemma run_jobs_rep:
  assumes mal: "malloc_fresh js_malloc"
  shows "pending base rt js \<Longrightarrow> fifo spawn succeeds n js = (rets, pctxs, q) \<Longrightarrow>
    \<exists>rt'. run_jobs (job_call js_malloc spawn succeeds) n rt = Some (rets, pctxs, rt') \<and> pending base rt' q"
proof (induction n arbitrary: rt js rets pctxs)
  case (Suc n)
  show ?case
  proof (cases js)
    case Nil
    then have "JS_ExecutePendingJob (job_call js_malloc spawn succeeds) rt = Some (0, None, rt)"
      using Suc.prems(1) jobs_rep_addrs(4) execute_empty by (fastforce simp: pending_def)
    then show ?thesis using Suc Nil by (fastforce split: prod.splits)
  next
    case (Cons j js')
    then obtain a as where "jobs_rep base rt (a # as) (j # js')"
      using Suc.prems(1) jobs_rep_addrs(4) unfolding pending_def by (metis length_Suc_conv)
    then obtain rt1 where rt1: "JS_ExecutePendingJob (job_call js_malloc spawn succeeds) rt =
        Some (if succeeds j then 1 else - 1, Some (e_ctx j), rt1)" "pending base rt1 (js' @ map mk_entry (spawn j))"
      using execute_rep[OF _ mal] by blast
    obtain rs cs where f: "fifo spawn succeeds n (js' @ map mk_entry (spawn j)) = (rs, cs, q)"
        "rets = (if succeeds j then 1 else - 1) # rs" "pctxs = Some (e_ctx j) # cs"
      using Suc.prems(2) Cons by (auto split: prod.splits)
    obtain rt' where "run_jobs (job_call js_malloc spawn succeeds) n rt1 = Some (rs, cs, rt')" "pending base rt' q"
      using Suc.IH[OF rt1(2) f(1)] by blast
    then show ?thesis using rt1(1) f(2,3) by simp
  qed
qed simp

lemma JS_IsJobPending_rep: "pending base rt js \<Longrightarrow> JS_IsJobPending rt = Some (js \<noteq> [])"
  using lh.empty_law jobs_rep_addrs(4) by (fastforce simp: pending_def jobs_rep_def JS_IsJobPending_def)

section \<open>Properties\<close>


text \<open>A runtime with one job, which enqueues another one.\<close>

definition example_malloc :: "(unit, nat) job_rt \<Rightarrow> addr option" where
  "example_malloc rt = Some (Suc (Max (insert 0 (dom (heap rt)))))"

definition example_rt :: "(unit, nat) job_rt" where
  "example_rt = \<lparr>heap = [1 \<mapsto> \<lparr>prev = 2, next = 2\<rparr>, 2 \<mapsto> \<lparr>prev = 1, next = 1\<rparr>], job_list = 1,
     entries = [2 \<mapsto> \<lparr>e_ctx = (), e_job_func = 1, e_argv = [7]\<rparr>], refs = (\<lambda>v. if v = 7 then 1 else 0)\<rparr>"

lemma example_malloc_fresh: "malloc_fresh example_malloc"
proof -
  have "Suc (Max (insert 0 A)) \<notin> A" if "finite A" for A :: "nat set"
  proof
    assume "Suc (Max (insert 0 A)) \<in> A"
    then have "Suc (Max (insert 0 A)) \<le> Max (insert 0 A)" using that by (intro Max_ge) auto
    then show False by simp
  qed
  then show ?thesis by (simp add: malloc_fresh_def example_malloc_def NULL_def)
qed

lemma example_rt_pending: "pending (\<lambda>v. 0) example_rt [\<lparr>e_ctx = (), e_job_func = 1, e_argv = [7]\<rparr>]"
  unfolding pending_def
  by (rule exI[of _ "[2]"])
     (auto simp: jobs_rep_def example_rt_def ring_def link_def get_next_def get_prev_def NULL_def)


end
