(* ===== verification/Cutils_Bits.thy ===== *)
theory Cutils_Bits
  imports Qjs_Prelude
begin

text \<open>
  The inline helpers of \<^verbatim>\<open>cutils.h\<close>: minima and maxima, leading and trailing zero counts,
  unaligned little-endian accesses and byte swapping.

  The zero counts have one body per compiler. The intrinsics they call belong to the
  compiler: \<^verbatim>\<open>__builtin_clz\<close> and \<^verbatim>\<open>__builtin_ctz\<close> count zero bits from the top and the
  bottom, \<^verbatim>\<open>_BitScanReverse\<close> and \<^verbatim>\<open>_BitScanForward\<close> find the index of the highest and the
  lowest set bit; all are undefined on 0, which is \<^const>\<open>None\<close>.
\<close>

section \<open>Minimum and maximum\<close>

definition max_int :: "int \<Rightarrow> int \<Rightarrow> int" where
  "max_int a b = (if a > b then a else b)"

definition min_int :: "int \<Rightarrow> int \<Rightarrow> int" where
  "min_int a b = (if a < b then a else b)"

definition max_uint32 :: "u32 \<Rightarrow> u32 \<Rightarrow> u32" where
  "max_uint32 a b = (if a > b then a else b)"

definition min_uint32 :: "u32 \<Rightarrow> u32 \<Rightarrow> u32" where
  "min_uint32 a b = (if a < b then a else b)"

definition max_int64 :: "int \<Rightarrow> int \<Rightarrow> int" where
  "max_int64 a b = (if a > b then a else b)"

definition min_int64 :: "int \<Rightarrow> int \<Rightarrow> int" where
  "min_int64 a b = (if a < b then a else b)"

lemma max_int_max [simp]: "max_int a b = max a b" "max_int64 a b = max a b"
  by (auto simp: max_int_def max_int64_def)

lemma min_int_min [simp]: "min_int a b = min a b" "min_int64 a b = min a b"
  by (auto simp: min_int_def min_int64_def)

section \<open>Zero counts\<close>

text \<open>The compiler configurations the preprocessor distinguishes.\<close>

datatype config = GNU | MSVC64 | MSVC32

fun highest_bit :: "nat \<Rightarrow> 'a::len word \<Rightarrow> nat option" where
  "highest_bit 0 a = None"
| "highest_bit (Suc n) a = (if bit a n then Some n else highest_bit n a)"

fun lowest_bit_from :: "nat \<Rightarrow> nat \<Rightarrow> 'a::len word \<Rightarrow> nat option" where
  "lowest_bit_from 0 i a = None"
| "lowest_bit_from (Suc n) i a = (if bit a i then Some i else lowest_bit_from n (Suc i) a)"

definition BitScanReverse :: "'a::len word \<Rightarrow> nat option" where
  "BitScanReverse a = highest_bit LENGTH('a) a"

definition BitScanForward :: "'a::len word \<Rightarrow> nat option" where
  "BitScanForward a = lowest_bit_from LENGTH('a) 0 a"

definition builtin_clz :: "'a::len word \<Rightarrow> nat option" where
  "builtin_clz a = map_option (\<lambda>i. LENGTH('a) - 1 - i) (highest_bit LENGTH('a) a)"

definition builtin_ctz :: "'a::len word \<Rightarrow> nat option" where
  "builtin_ctz a = lowest_bit_from LENGTH('a) 0 a"

definition clz32 :: "config \<Rightarrow> u32 \<Rightarrow> nat option" where
  "clz32 cfg a =
     (case cfg of GNU \<Rightarrow> builtin_clz a | _ \<Rightarrow> map_option (\<lambda>idx. 31 XOR idx) (BitScanReverse a))"

definition clz64 :: "config \<Rightarrow> u64 \<Rightarrow> nat option" where
  "clz64 cfg a =
     (case cfg of
        GNU \<Rightarrow> builtin_clz a
      | MSVC64 \<Rightarrow> (case BitScanReverse a of Some w \<Rightarrow> Some (63 - w) | None \<Rightarrow> Some 64)
      | MSVC32 \<Rightarrow>
          (case BitScanReverse (ucast (drop_bit 32 a) :: u32) of
             Some w \<Rightarrow> Some (63 - (w + 32))
           | None \<Rightarrow>
             (case BitScanReverse (ucast a :: u32) of Some w \<Rightarrow> Some (63 - w) | None \<Rightarrow> Some 64)))"

definition ctz32 :: "config \<Rightarrow> u32 \<Rightarrow> nat option" where
  "ctz32 cfg a =
     (case cfg of GNU \<Rightarrow> builtin_ctz a | _ \<Rightarrow> map_option (\<lambda>idx. 31 XOR idx) (BitScanForward a))"

definition ctz64 :: "config \<Rightarrow> u64 \<Rightarrow> nat option" where
  "ctz64 cfg a =
     (case cfg of
        GNU \<Rightarrow> builtin_ctz a
      | MSVC64 \<Rightarrow> (case BitScanForward a of Some w \<Rightarrow> Some w | None \<Rightarrow> Some 64)
      | MSVC32 \<Rightarrow>
          (case BitScanForward (ucast a :: u32) of
             Some w \<Rightarrow> Some w
           | None \<Rightarrow>
             (case BitScanForward (ucast (drop_bit 32 a) :: u32) of
                Some w \<Rightarrow> Some (w + 32) | None \<Rightarrow> Some 64)))"

lemma highest_bit_Some:
  "highest_bit n a = Some i \<longleftrightarrow> i < n \<and> bit a i \<and> (\<forall>j. i < j \<and> j < n \<longrightarrow> \<not> bit a j)"
  by (induction n) (auto simp: less_Suc_eq)

lemma highest_bit_None: "highest_bit n a = None \<longleftrightarrow> (\<forall>j < n. \<not> bit a j)"
  by (induction n) (auto simp: less_Suc_eq)

lemma lowest_bit_from_Some:
  "lowest_bit_from n k a = Some i \<longleftrightarrow> k \<le> i \<and> i < k + n \<and> bit a i \<and> (\<forall>j. k \<le> j \<and> j < i \<longrightarrow> \<not> bit a j)"
proof (induction n arbitrary: k)
  case (Suc n)
  show ?case
  proof (cases "bit a k")
    case True
    then show ?thesis by (auto simp: not_less intro: le_antisym)
  next
    case False
    then have "k \<le> i \<and> bit a i \<Longrightarrow> Suc k \<le> i" by (metis le_eq_less_or_eq Suc_leI)
    with False show ?thesis by (auto simp: Suc not_less_eq_eq) (metis le_eq_less_or_eq Suc_leI)
  qed
qed simp

lemma lowest_bit_from_None: "lowest_bit_from n k a = None \<longleftrightarrow> (\<forall>j. k \<le> j \<and> j < k + n \<longrightarrow> \<not> bit a j)"
proof (induction n arbitrary: k)
  case (Suc n)
  then show ?case by (auto simp: not_less_eq_eq) (metis le_eq_less_or_eq Suc_leI)
qed auto

text \<open>The position of the highest bit brackets the value between two powers of two.\<close>

lemma highest_bit_bounds:
  assumes "highest_bit LENGTH('a) (a :: 'a::len word) = Some i"
  shows "2 ^ i \<le> unat a" "unat a < 2 ^ Suc i"
proof -
  have b: "bit a i" "i < LENGTH('a)" "\<And>j. i < j \<Longrightarrow> j < LENGTH('a) \<Longrightarrow> \<not> bit a j"
    using assms by (auto simp: highest_bit_Some)
  have "bit (unat a) i" using b(1) by (simp add: bit_unsigned_iff b(2))
  then have "odd (unat a div 2 ^ i)" by (simp add: bit_iff_odd)
  then have "unat a div 2 ^ i \<noteq> 0" by (metis even_zero)
  then show "2 ^ i \<le> unat a" by (metis div_less not_le)
  have "take_bit (Suc i) a = a"
  proof (rule bit_word_eqI)
    fix n assume "n < LENGTH('a)"
    then show "bit (take_bit (Suc i) a) n = bit a n"
      using b(3)[of n] by (cases "n < Suc i") (auto simp: bit_take_bit_iff)
  qed
  then have "unat a = unat a mod 2 ^ Suc i" by (metis unat_take_bit_mod)
  then show "unat a < 2 ^ Suc i" by (metis mod_less_divisor zero_less_numeral zero_less_power)
qed

lemma highest_bit_exists: "a \<noteq> 0 \<Longrightarrow> \<exists>i. highest_bit LENGTH('a) (a :: 'a::len word) = Some i"
proof (rule ccontr)
  assume "a \<noteq> 0" "\<nexists>i. highest_bit LENGTH('a) a = Some i"
  then have "highest_bit LENGTH('a) a = None" by (cases "highest_bit LENGTH('a) a") auto
  then have "a = 0" by (intro bit_word_eqI) (auto simp: highest_bit_None)
  with \<open>a \<noteq> 0\<close> show False by simp
qed

lemma lowest_bit_exists: "a \<noteq> 0 \<Longrightarrow> \<exists>i. lowest_bit_from LENGTH('a) 0 (a :: 'a::len word) = Some i"
proof (rule ccontr)
  assume "a \<noteq> 0" "\<nexists>i. lowest_bit_from LENGTH('a) 0 a = Some i"
  then have "lowest_bit_from LENGTH('a) 0 a = None" by (cases "lowest_bit_from LENGTH('a) 0 a") auto
  then have "a = 0" by (intro bit_word_eqI) (auto simp: lowest_bit_from_None)
  with \<open>a \<noteq> 0\<close> show False by simp
qed

lemma xor_31: "i < 32 \<Longrightarrow> 31 XOR i = 31 - (i :: nat)"
proof -
  have "\<forall>i \<in> set [0..<32]. 31 XOR i = 31 - (i :: nat)" by code_simp
  then show "i < 32 \<Longrightarrow> 31 XOR i = 31 - i" by simp
qed

text \<open>The trailing zeros are the exponent of two in the value.\<close>

lemma lowest_bit_odd:
  assumes "lowest_bit_from LENGTH('a) 0 (a :: 'a::len word) = Some i"
  shows "2 ^ i dvd unat a" "odd (unat a div 2 ^ i)"
proof -
  have b: "bit a i" "i < LENGTH('a)" "\<And>j. j < i \<Longrightarrow> \<not> bit a j"
    using assms by (auto simp: lowest_bit_from_Some)
  have "bit (unat a) i" using b(1) by (simp add: bit_unsigned_iff b(2))
  then show "odd (unat a div 2 ^ i)" by (simp add: bit_iff_odd)
  have "take_bit i a = 0" by (rule bit_word_eqI) (use b in \<open>auto simp: bit_take_bit_iff\<close>)
  then have "unat a mod 2 ^ i = 0" using unat_take_bit_mod[of i a] by simp
  then show "2 ^ i dvd unat a" by (simp only: dvd_eq_mod_eq_0)
qed

lemma clz64_configs:
  assumes "a \<noteq> 0"
  shows "clz64 cfg a = clz64 GNU a"
proof -
  obtain i where i: "highest_bit 64 a = Some i" using highest_bit_exists[OF assms] by auto
  then have bi: "i < 64" "bit a i" "\<And>j. i < j \<Longrightarrow> j < 64 \<Longrightarrow> \<not> bit a j"
    by (auto simp: highest_bit_Some)
  show ?thesis
  proof (cases cfg)
    case MSVC32
    show ?thesis
    proof (cases "i < 32")
      case True
      have "highest_bit 32 (ucast (drop_bit 32 a) :: u32) = None"
        unfolding highest_bit_None using bi True by (auto simp: bit_simps)
      moreover have "highest_bit 32 (ucast a :: u32) = Some i"
        unfolding highest_bit_Some using bi True by (auto simp: bit_simps)
      ultimately show ?thesis using i MSVC32
        by (simp add: clz64_def BitScanReverse_def builtin_clz_def)
    next
      case False
      have "highest_bit 32 (ucast (drop_bit 32 a) :: u32) = Some (i - 32)"
        unfolding highest_bit_Some using bi False by (auto simp: bit_simps)
      then show ?thesis using i MSVC32 False bi(1)
        by (simp add: clz64_def BitScanReverse_def builtin_clz_def)
    qed
  qed (use i in \<open>simp_all add: clz64_def BitScanReverse_def builtin_clz_def\<close>)
qed

lemma ctz64_configs:
  assumes "a \<noteq> 0"
  shows "ctz64 cfg a = ctz64 GNU a"
proof -
  obtain i where i: "lowest_bit_from 64 0 a = Some i" using lowest_bit_exists[OF assms] by auto
  then have bi: "i < 64" "bit a i" "\<And>j. j < i \<Longrightarrow> \<not> bit a j"
    by (auto simp: lowest_bit_from_Some)
  show ?thesis
  proof (cases cfg)
    case MSVC32
    show ?thesis
    proof (cases "i < 32")
      case True
      have "lowest_bit_from 32 0 (ucast a :: u32) = Some i"
        unfolding lowest_bit_from_Some using bi True by (auto simp: bit_simps)
      then show ?thesis using i MSVC32
        by (simp add: ctz64_def BitScanForward_def builtin_ctz_def)
    next
      case False
      have "lowest_bit_from 32 0 (ucast a :: u32) = None"
        unfolding lowest_bit_from_None using bi False by (auto simp: bit_simps)
      moreover have "lowest_bit_from 32 0 (ucast (drop_bit 32 a) :: u32) = Some (i - 32)"
        unfolding lowest_bit_from_Some using bi False by (auto simp: bit_simps)
      ultimately show ?thesis using i MSVC32 False
        by (simp add: ctz64_def BitScanForward_def builtin_ctz_def)
    qed
  qed (use i in \<open>simp_all add: ctz64_def BitScanForward_def builtin_ctz_def\<close>)
qed

section \<open>Unaligned accesses\<close>

text \<open>
  The packed structures read and write a word as consecutive bytes, the least significant
  first (the header undefines \<^verbatim>\<open>WORDS_BIGENDIAN\<close>). The pointer is the list of the bytes from
  it to the end of the array.
\<close>

definition le_bytes :: "nat \<Rightarrow> 'a::len word \<Rightarrow> u8 list" where
  "le_bytes k v = map (\<lambda>i. ucast (drop_bit (8 * i) v)) [0..<k]"

fun le_word :: "u8 list \<Rightarrow> 'a::len word" where
  "le_word [] = 0"
| "le_word (b # bs) = push_bit 8 (le_word bs) OR ucast b"

definition get_le :: "nat \<Rightarrow> u8 list \<Rightarrow> 'a::len word option" where
  "get_le k tab = (if k \<le> length tab then Some (le_word (take k tab)) else None)"

definition put_le :: "nat \<Rightarrow> u8 list \<Rightarrow> 'a::len word \<Rightarrow> u8 list option" where
  "put_le k tab v = (if k \<le> length tab then Some (le_bytes k v @ drop k tab) else None)"

definition get_u64 :: "u8 list \<Rightarrow> u64 option" where "get_u64 tab = get_le 8 tab"
definition get_i64 :: "u8 list \<Rightarrow> int option" where "get_i64 tab = map_option sint (get_le 8 tab :: u64 option)"
definition put_u64 :: "u8 list \<Rightarrow> u64 \<Rightarrow> u8 list option" where "put_u64 tab v = put_le 8 tab v"
definition get_u32 :: "u8 list \<Rightarrow> u32 option" where "get_u32 tab = get_le 4 tab"
definition get_i32 :: "u8 list \<Rightarrow> int option" where "get_i32 tab = map_option sint (get_le 4 tab :: u32 option)"
definition put_u32 :: "u8 list \<Rightarrow> u32 \<Rightarrow> u8 list option" where "put_u32 tab v = put_le 4 tab v"
definition get_u16 :: "u8 list \<Rightarrow> u32 option" where "get_u16 tab = map_option ucast (get_le 2 tab :: u16 option)"
definition get_i16 :: "u8 list \<Rightarrow> int option" where "get_i16 tab = map_option sint (get_le 2 tab :: u16 option)"
definition put_u16 :: "u8 list \<Rightarrow> u16 \<Rightarrow> u8 list option" where "put_u16 tab v = put_le 2 tab v"
definition get_u8 :: "u8 list \<Rightarrow> u32 option" where "get_u8 tab = map_option ucast (get_le 1 tab :: u8 option)"
definition get_i8 :: "u8 list \<Rightarrow> int option" where "get_i8 tab = map_option sint (get_le 1 tab :: u8 option)"
definition put_u8 :: "u8 list \<Rightarrow> u8 \<Rightarrow> u8 list option" where "put_u8 tab v = put_le 1 tab v"

definition bswap16 :: "u16 \<Rightarrow> u16" where
  "bswap16 x = drop_bit 8 x OR push_bit 8 x"

definition bswap32 :: "u32 \<Rightarrow> u32" where
  "bswap32 v =
     drop_bit 24 (v AND 0xff000000) OR drop_bit 8 (v AND 0x00ff0000) OR
     push_bit 8 (v AND 0x0000ff00) OR push_bit 24 (v AND 0x000000ff)"

definition bswap64 :: "u64 \<Rightarrow> u64" where
  "bswap64 v =
     drop_bit (7 * 8) (v AND push_bit (7 * 8) 0xff) OR
     drop_bit (5 * 8) (v AND push_bit (6 * 8) 0xff) OR
     drop_bit (3 * 8) (v AND push_bit (5 * 8) 0xff) OR
     drop_bit (1 * 8) (v AND push_bit (4 * 8) 0xff) OR
     push_bit (1 * 8) (v AND push_bit (3 * 8) 0xff) OR
     push_bit (3 * 8) (v AND push_bit (2 * 8) 0xff) OR
     push_bit (5 * 8) (v AND push_bit (1 * 8) 0xff) OR
     push_bit (7 * 8) (v AND push_bit (0 * 8) 0xff)"

definition from_hex :: "int \<Rightarrow> int" where
  "from_hex c =
     (if c \<ge> 0x30 \<and> c \<le> 0x39 then c - 0x30
      else if c \<ge> 0x41 \<and> c \<le> 0x46 then c - 0x41 + 10
      else if c \<ge> 0x61 \<and> c \<le> 0x66 then c - 0x61 + 10
      else -1)"

lemma length_le_bytes [simp]: "length (le_bytes k v) = k"
  by (simp add: le_bytes_def)

lemma bit_le_word:
  "bit (le_word bs :: 'a::len word) n \<longleftrightarrow>
     n < LENGTH('a) \<and> n div 8 < length bs \<and> bit (bs ! (n div 8)) (n mod 8)"
proof (induction bs arbitrary: n)
  case (Cons b bs)
  have b8: "bit b m \<Longrightarrow> m < 8" for m using bit_imp_le_length[of b m] by simp
  show ?case
  proof (cases "n < 8")
    case True
    then show ?thesis by (auto simp: bit_simps)
  next
    case False
    then obtain m where m: "n = m + 8" by (metis add.commute le_Suc_ex not_less)
    then have "n div 8 = Suc (m div 8)" "n mod 8 = m mod 8" by simp_all
    then show ?thesis using Cons.IH[of m] m b8[of n]
      by (auto simp: bit_simps)
  qed
qed simp

lemma bit_le_bytes: "i < k \<Longrightarrow> bit (le_bytes k v ! i) j \<longleftrightarrow> j < 8 \<and> bit v (8 * i + j)"
  by (auto simp: le_bytes_def bit_simps)

lemma le_word_le_bytes: "LENGTH('a) \<le> 8 * k \<Longrightarrow> le_word (le_bytes k v) = (v :: 'a::len word)"
proof (rule bit_word_eqI)
  fix n assume "LENGTH('a) \<le> 8 * k" "n < LENGTH('a)"
  then have "n div 8 < k" by (simp add: less_mult_imp_div_less mult.commute)
  then show "bit (le_word (le_bytes k v) :: 'a word) n = bit v n"
    using \<open>n < LENGTH('a)\<close> by (simp add: bit_le_word bit_le_bytes)
qed

lemma get_put_le:
  assumes "LENGTH('a) \<le> 8 * k" "put_le k tab (v :: 'a::len word) = Some t"
  shows "get_le k t = Some v" "length t = length tab" "drop k t = drop k tab"
  using assms le_word_le_bytes[OF assms(1)] by (auto simp: put_le_def get_le_def split: if_splits)

text \<open>Swapping the bytes of a word is reading them in the opposite order.\<close>

lemma byte_masks:
  "(0xff000000 :: u32) = push_bit 24 (mask 8)" "(0x00ff0000 :: u32) = push_bit 16 (mask 8)"
  "(0x0000ff00 :: u32) = push_bit 8 (mask 8)" "(0xff :: u32) = mask 8" "(0xff :: u64) = mask 8"
  by (simp_all add: mask_eq_exp_minus_1)

lemma bit_le_word_rev:
  fixes v :: "'a::len word"
  assumes "LENGTH('a) = 8 * k" "n < LENGTH('a)"
  shows "bit (le_word (rev (le_bytes k v)) :: 'a word) n \<longleftrightarrow> bit v (8 * (k - 1 - n div 8) + n mod 8)"
proof -
  have "n div 8 < k" using assms by (simp add: less_mult_imp_div_less mult.commute)
  then show ?thesis using assms(2) by (simp add: bit_le_word rev_nth bit_le_bytes)
qed

lemma le_word_rev_involution:
  fixes v :: "'a::len word"
  assumes "LENGTH('a) = 8 * k"
  shows "le_word (rev (le_bytes k (le_word (rev (le_bytes k v)) :: 'a word))) = v"
proof (rule bit_word_eqI)
  fix n assume n: "n < LENGTH('a)"
  then have q: "n div 8 < k" using assms by (simp add: less_mult_imp_div_less mult.commute)
  let ?m = "8 * (k - 1 - n div 8) + n mod 8"
  have d: "?m div 8 = k - 1 - n div 8" "?m mod 8 = n mod 8" by simp_all
  have "?m < LENGTH('a)" using q assms by (simp add: d less_mult_imp_div_less)
  moreover have "8 * (k - 1 - (k - 1 - n div 8)) + n mod 8 = n" using q by simp
  ultimately show "bit (le_word (rev (le_bytes k (le_word (rev (le_bytes k v)) :: 'a word))) :: 'a word) n = bit v n"
    using bit_le_word_rev[OF assms n] bit_le_word_rev[OF assms, of ?m v] by (simp add: d)
qed

lemma bit_byte_down:
  fixes v :: "'a::len word"
  assumes "t + 8 \<le> LENGTH('a)"
  shows "bit (drop_bit s (v AND push_bit t (mask 8))) n \<longleftrightarrow> t \<le> n + s \<and> n + s < t + 8 \<and> bit v (n + s)"
  using assms by (auto simp: bit_simps add.commute)

lemma bit_byte_up:
  fixes v :: "'a::len word"
  assumes "t + 8 \<le> LENGTH('a)" "n < LENGTH('a)"
  shows "bit (push_bit s (v AND push_bit t (mask 8))) n \<longleftrightarrow>
    s + t \<le> n \<and> n < s + t + 8 \<and> bit v (n - s)"
  using assms by (auto simp: bit_simps)

lemma byte_index:
  fixes n :: nat
  assumes "n < 8 * k"
  obtains q r where "n = 8 * q + r" "r < 8" "q < k"
  using assms by (metis div_mult_mod_eq less_mult_imp_div_less mod_less_divisor mult.commute zero_less_numeral)

lemma bswap16_eq: "bswap16 v = le_word (rev (le_bytes 2 v))"
proof (rule bit_word_eqI)
  fix n assume n: "n < LENGTH(16)"
  then obtain q r where "n = 8 * q + r" "r < 8" "q < 2" using byte_index[of n 2] by auto
  moreover from this have "q = 0 \<or> q = 1" by auto
  ultimately show "bit (bswap16 v) n = bit (le_word (rev (le_bytes 2 v)) :: u16) n"
    using bit_le_word_rev[of 2 n v] n
    by (auto simp: bswap16_def bit_simps dest: bit_imp_le_length)
qed

lemma len32: "0 + 8 \<le> LENGTH(32)" "8 + 8 \<le> LENGTH(32)" "16 + 8 \<le> LENGTH(32)" "24 + 8 \<le> LENGTH(32)"
  by simp_all

lemma len64: "0 * 8 + 8 \<le> LENGTH(64)" "1 * 8 + 8 \<le> LENGTH(64)" "2 * 8 + 8 \<le> LENGTH(64)"
  "3 * 8 + 8 \<le> LENGTH(64)" "4 * 8 + 8 \<le> LENGTH(64)" "5 * 8 + 8 \<le> LENGTH(64)"
  "6 * 8 + 8 \<le> LENGTH(64)" "7 * 8 + 8 \<le> LENGTH(64)"
  by simp_all

lemma bswap32_eq: "bswap32 v = le_word (rev (le_bytes 4 v))"
proof (rule bit_word_eqI)
  fix n assume n: "n < LENGTH(32)"
  then obtain q r where qr: "n = 8 * q + r" "r < 8" "q < 4" using byte_index[of n 4] by auto
  have rhs: "bit (le_word (rev (le_bytes 4 v)) :: u32) n = bit v (8 * (3 - q) + r)"
    using bit_le_word_rev[of 4 n v] n qr by simp
  have m: "v AND 0x000000ff = v AND push_bit 0 (mask 8)" by (simp add: byte_masks)
  consider "q = 0" | "q = 1" | "q = 2" | "q = 3" using qr(3) by linarith
  then show "bit (bswap32 v) n = bit (le_word (rev (le_bytes 4 v)) :: u32) n"
    unfolding rhs bswap32_def m byte_masks(1-3) bit_or_iff
      bit_byte_up[OF len32(1) n] bit_byte_up[OF len32(2) n]
      bit_byte_down[OF len32(3)] bit_byte_down[OF len32(4)]
    using qr(1,2) by cases (simp_all add: add.commute)
qed

lemma bswap64_eq: "bswap64 v = le_word (rev (le_bytes 8 v))"
proof (rule bit_word_eqI)
  fix n assume n: "n < LENGTH(64)"
  then obtain q r where qr: "n = 8 * q + r" "r < 8" "q < 8" using byte_index[of n 8] by auto
  have rhs: "bit (le_word (rev (le_bytes 8 v)) :: u64) n = bit v (8 * (7 - q) + r)"
    using bit_le_word_rev[of 8 n v] n qr by simp
  consider "q = 0" | "q = 1" | "q = 2" | "q = 3" | "q = 4" | "q = 5" | "q = 6" | "q = 7"
    using qr(3) by linarith
  then show "bit (bswap64 v) n = bit (le_word (rev (le_bytes 8 v)) :: u64) n"
    unfolding rhs bswap64_def byte_masks bit_or_iff
      bit_byte_up[OF len64(1) n] bit_byte_up[OF len64(2) n]
      bit_byte_up[OF len64(3) n] bit_byte_up[OF len64(4) n]
      bit_byte_down[OF len64(5)] bit_byte_down[OF len64(6)]
      bit_byte_down[OF len64(7)] bit_byte_down[OF len64(8)]
    using qr(1,2) by cases (simp_all add: add.commute)
qed

section \<open>Properties\<close>

lemma clz32_bounds:
  assumes "a \<noteq> 0"
  shows "\<exists>n. clz32 cfg a = Some n \<and> n < 32 \<and> 2 ^ (31 - n) \<le> unat a \<and> unat a < 2 ^ (32 - n)"
proof -
  obtain i where i: "highest_bit 32 a = Some i" using highest_bit_exists[OF assms] by auto
  then have "i < 32" by (simp add: highest_bit_Some)
  moreover have "clz32 cfg a = Some (31 - i)"
    using i \<open>i < 32\<close> by (cases cfg) (simp_all add: clz32_def builtin_clz_def BitScanReverse_def xor_31)
  ultimately show ?thesis
    using highest_bit_bounds[of a i] i by (intro exI[of _ "31 - i"]) (auto simp: Suc_diff_le)
qed

lemma clz64_bounds:
  assumes "a \<noteq> 0"
  shows "\<exists>n. clz64 cfg a = Some n \<and> n < 64 \<and> 2 ^ (63 - n) \<le> unat a \<and> unat a < 2 ^ (64 - n)"
proof -
  obtain i where i: "highest_bit 64 a = Some i" using highest_bit_exists[OF assms] by auto
  then have "i < 64" by (simp add: highest_bit_Some)
  moreover have "clz64 cfg a = Some (63 - i)"
    using i unfolding clz64_configs[OF assms, of cfg] by (simp add: clz64_def builtin_clz_def)
  ultimately show ?thesis
    using highest_bit_bounds[of a i] i by (intro exI[of _ "63 - i"]) (auto simp: Suc_diff_le)
qed

lemma ctz64_odd:
  assumes "a \<noteq> 0"
  shows "\<exists>n. ctz64 cfg a = Some n \<and> n < 64 \<and> 2 ^ n dvd unat a \<and> odd (unat a div 2 ^ n)"
proof -
  obtain i where i: "lowest_bit_from 64 0 a = Some i" using lowest_bit_exists[OF assms] by auto
  then have "i < 64" by (simp add: lowest_bit_from_Some)
  moreover have "ctz64 cfg a = Some i"
    using i unfolding ctz64_configs[OF assms, of cfg] by (simp add: ctz64_def builtin_ctz_def)
  ultimately show ?thesis using lowest_bit_odd[of a i] i by auto
qed



text \<open>
  C23. The \<^verbatim>\<open>_MSC_VER\<close> body of \<^verbatim>\<open>ctz32\<close> is wrong on every input: it returns 31 minus the
  number of trailing zeros (the correction its neighbour \<^verbatim>\<open>clz32\<close> needs), so it never agrees
  with the \<^verbatim>\<open>__builtin_ctz\<close> body.
\<close>

theorem ctz32_msvc_differs:
  assumes "a \<noteq> 0" "cfg \<noteq> GNU"
  shows "\<exists>n. ctz32 GNU a = Some n \<and> ctz32 cfg a = Some (31 - n) \<and> n \<noteq> 31 - n"
proof -
  obtain i where i: "lowest_bit_from 32 0 a = Some i" using lowest_bit_exists[OF assms(1)] by auto
  then have "i < 32" by (simp add: lowest_bit_from_Some)
  then have "ctz32 cfg a = Some (31 - i)"
    using i assms(2) by (cases cfg) (simp_all add: ctz32_def BitScanForward_def xor_31)
  moreover have "i \<noteq> 31 - i" using \<open>i < 32\<close> by presburger
  ultimately show ?thesis using i by (auto simp: ctz32_def builtin_ctz_def)
qed

theorem ctz32_msvc_differs_witness:
  "\<exists>n. ctz32 GNU 8 = Some n \<and> ctz32 MSVC64 8 = Some (31 - n) \<and> n \<noteq> 31 - n"
  using ctz32_msvc_differs[of 8 MSVC64] by simp

text \<open>
  A 32 or 64 bit value written through \<^verbatim>\<open>put_u32\<close> or \<^verbatim>\<open>put_u64\<close> is read back unchanged,
  the rest of the array is untouched, and reading the same bytes in reverse order gives
  \<^verbatim>\<open>bswap32\<close> or \<^verbatim>\<open>bswap64\<close> of the value, which are involutions.
\<close>

theorem put_get_roundtrip:
  assumes "8 \<le> length tab"
  shows "(\<exists>t. put_u32 tab v = Some t \<and> get_u32 t = Some v \<and> length t = length tab \<and> drop 4 t = drop 4 tab \<and>
      get_u32 (rev (take 4 t)) = Some (bswap32 v) \<and> bswap32 (bswap32 v) = v) \<and>
    (\<exists>t. put_u64 tab w = Some t \<and> get_u64 t = Some w \<and> length t = length tab \<and> drop 8 t = drop 8 tab \<and>
      get_u64 (rev (take 8 t)) = Some (bswap64 w) \<and> bswap64 (bswap64 w) = w)"
proof -
  have "put_u32 tab v = Some (le_bytes 4 v @ drop 4 tab)" "put_u64 tab w = Some (le_bytes 8 w @ drop 8 tab)"
    using assms by (simp_all add: put_u32_def put_u64_def put_le_def)
  moreover have "bswap32 (bswap32 v) = v" "bswap64 (bswap64 w) = w"
    unfolding bswap32_eq bswap64_eq by (rule le_word_rev_involution, simp)+
  ultimately show ?thesis
    using assms le_word_le_bytes[where k = 4 and v = v] le_word_le_bytes[where k = 8 and v = w]
    by (simp add: get_u32_def get_u64_def get_le_def bswap32_eq bswap64_eq)
qed

theorem put_get_roundtrip_witness:
  "(\<exists>t. put_u32 (replicate 8 0) 0x12345678 = Some t \<and> get_u32 t = Some 0x12345678 \<and>
      get_u32 (rev (take 4 t)) = Some (bswap32 0x12345678)) \<and> bswap32 0x12345678 = 0x78563412"
proof -
  have "bswap32 0x12345678 = 0x78563412" by (simp add: bswap32_def)
  then show ?thesis using put_get_roundtrip[where tab = "replicate 8 0" and v = "0x12345678" and w = 0] by auto
qed

end
