(* ===== verification/Utf8.thy ===== *)
theory Utf8
  imports Qjs_Prelude
begin

text \<open>
  \<^verbatim>\<open>unicode_to_utf8\<close> and \<^verbatim>\<open>unicode_from_utf8\<close> of \<^verbatim>\<open>cutils.c\<close>, the UTF-8 codec used by the
  string, regular expression and module code. The encoder returns the bytes it stores (its C
  result is their number). The decoder reads from a list of bytes: \<^const>\<open>None\<close> is a read past
  the end of the array, \<open>Some (-1, None)\<close> the error return that leaves \<^verbatim>\<open>*pp\<close> alone and
  \<open>Some (c, Some r)\<close> the code point with \<^verbatim>\<open>*pp\<close> set to the remaining bytes \<open>r\<close>.
\<close>

section \<open>The codec\<close>

text \<open>
  The nesting of the conditions is that of the C code; its innermost \<^verbatim>\<open>return 0\<close>, reached
  before any byte is stored, is tested first.
\<close>

definition unicode_to_utf8 :: "u32 \<Rightarrow> u8 list" where
  "unicode_to_utf8 c =
     (if c < 0x80 then [ucast c]
      else if 0x80000000 \<le> c then []
      else
        (if c < 0x800 then [ucast (drop_bit 6 c OR 0xc0)]
         else
           (if c < 0x10000 then [ucast (drop_bit 12 c OR 0xe0)]
            else
              (if c < 0x00200000 then [ucast (drop_bit 18 c OR 0xf0)]
               else
                 (if c < 0x04000000 then [ucast (drop_bit 24 c OR 0xf8)]
                  else [ucast (drop_bit 30 c OR 0xfc), ucast ((drop_bit 24 c AND 0x3f) OR 0x80)])
                 @ [ucast ((drop_bit 18 c AND 0x3f) OR 0x80)])
              @ [ucast ((drop_bit 12 c AND 0x3f) OR 0x80)])
           @ [ucast ((drop_bit 6 c AND 0x3f) OR 0x80)])
        @ [ucast ((c AND 0x3f) OR 0x80)])"

definition utf8_min_code :: "int list" where
  "utf8_min_code = [0x80, 0x800, 0x10000, 0x00200000, 0x04000000]"

definition utf8_first_code_mask :: "int list" where
  "utf8_first_code_mask = [0x1f, 0xf, 0x7, 0x3, 0x1]"

text \<open>The \<^verbatim>\<open>switch\<close> on the first byte: the number of continuation bytes.\<close>

definition utf8_seq_len :: "u8 \<Rightarrow> nat option" where
  "utf8_seq_len b =
     (if 0xc0 \<le> b \<and> b \<le> 0xdf then Some 1
      else if 0xe0 \<le> b \<and> b \<le> 0xef then Some 2
      else if 0xf0 \<le> b \<and> b \<le> 0xf7 then Some 3
      else if 0xf8 \<le> b \<and> b \<le> 0xfb then Some 4
      else if 0xfc \<le> b \<and> b \<le> 0xfd then Some 5
      else None)"

fun utf8_cont :: "nat \<Rightarrow> int \<Rightarrow> u8 list \<Rightarrow> (int \<times> u8 list) option option" where
  "utf8_cont 0 c p = Some (Some (c, p))"
| "utf8_cont (Suc i) c [] = None"
| "utf8_cont (Suc i) c (b # p) =
     (if b < 0x80 \<or> 0xc0 \<le> b then Some None
      else utf8_cont i (push_bit 6 c OR (uint b AND 0x3f)) p)"

definition unicode_from_utf8 :: "u8 list \<Rightarrow> int \<Rightarrow> (int \<times> u8 list option) option" where
  "unicode_from_utf8 p max_len =
     (case p of
        [] \<Rightarrow> None
      | b # p1 \<Rightarrow>
        (if b < 0x80 then Some (uint b, Some p1)
         else case utf8_seq_len b of
             None \<Rightarrow> Some (-1, None)
           | Some l \<Rightarrow>
             (if int l > max_len - 1 then Some (-1, None)
              else case utf8_cont l (uint b AND utf8_first_code_mask ! (l - 1)) p1 of
                  None \<Rightarrow> None
                | Some None \<Rightarrow> Some (-1, None)
                | Some (Some (c, r)) \<Rightarrow>
                  (if c < utf8_min_code ! (l - 1) then Some (-1, None)
                   else Some (c, Some r)))))"

section \<open>The bytes as arithmetic\<close>

text \<open>The continuation bytes of \<open>n\<close>: its last \<open>k\<close> digits to the base 64, most significant first.\<close>

fun utf8_tail :: "nat \<Rightarrow> nat \<Rightarrow> u8 list" where
  "utf8_tail 0 n = []"
| "utf8_tail (Suc k) n = of_nat (0x80 + n div 64 ^ k mod 64) # utf8_tail k n"

lemma length_utf8_tail [simp]: "length (utf8_tail k n) = k"
  by (induction k) auto

lemma utf8_tail_numeral [simp]:
  "utf8_tail (numeral v) n =
     of_nat (0x80 + n div 64 ^ pred_numeral v mod 64) # utf8_tail (pred_numeral v) n"
  by (simp only: numeral_eq_Suc utf8_tail.simps)

lemma ucast_eq_of_nat: "ucast (w :: u32) = (of_nat (unat w) :: u8)"
  by (simp add: unsigned_ucast_eq of_nat_unat)

lemma cont_byte: "ucast ((w AND 0x3f) OR 0x80 :: u32) = (of_nat (0x80 + unat w mod 64) :: u8)"
proof -
  have "unat (w AND 0x3f) = unat w mod 64"
    using unat_and_mask[of w 6] by (simp add: mask_eq_exp_minus_1)
  moreover have "unat ((w AND 0x3f) OR 0x80) = unat (w AND 0x3f) + unat (0x80 :: u32)"
    by (rule unat_or_high[of _ 6 _ 2]) (use calculation in simp_all)
  ultimately have "unat ((w AND 0x3f) OR 0x80) = 0x80 + unat w mod 64" by simp
  then show ?thesis by (metis ucast_eq_of_nat)
qed

lemma lead_byte:
  assumes "unat (w :: u32) < 2 ^ k" "unat l = m * 2 ^ k"
  shows "ucast (w OR l) = (of_nat (unat l + unat w) :: u8)"
proof -
  have "unat (w OR l) = unat w + unat l" by (rule unat_or_high[OF assms])
  then show ?thesis by (metis add.commute ucast_eq_of_nat)
qed

text \<open>The first byte carries a prefix that counts the continuation bytes.\<close>

fun utf8_lead :: "nat \<Rightarrow> nat" where
  "utf8_lead k = (if k = 1 then 0xc0 else if k = 2 then 0xe0 else if k = 3 then 0xf0
                  else if k = 4 then 0xf8 else 0xfc)"

definition utf8_len :: "nat \<Rightarrow> nat" where
  "utf8_len n = (if n < 0x80 then 0 else if n < 0x800 then 1 else if n < 0x10000 then 2
                 else if n < 0x00200000 then 3 else if n < 0x04000000 then 4 else 5)"

lemma unicode_to_utf8_eq:
  assumes "unat c < 2 ^ 31"
  shows "unicode_to_utf8 c =
           (let n = unat c; k = utf8_len n in
            if k = 0 then [of_nat n] else of_nat (utf8_lead k + n div 64 ^ k) # utf8_tail k n)"
proof -
  define n where "n = unat c"
  have n: "n < 2 ^ 31" using assms by (simp add: n_def)
  have lead: "ucast (drop_bit (6 * k) c OR l) = (of_nat (unat l + n div 64 ^ k) :: u8)"
    if "n div 64 ^ k < 2 ^ j" "unat l = m * 2 ^ j" for k l j m
    using lead_byte[of "drop_bit (6 * k) c" j l m] that
    by (simp add: unat_drop_bit_div n_def power_mult)
  have cont: "ucast ((drop_bit (6 * k) c AND 0x3f) OR 0x80) =
      (of_nat (0x80 + n div 64 ^ k mod 64) :: u8)" for k
    using cont_byte[of "drop_bit (6 * k) c"] by (simp add: unat_drop_bit_div n_def power_mult)
  note conts = cont[of 0, simplified] cont[of 1, simplified] cont[of 2, simplified]
    cont[of 3, simplified] cont[of 4, simplified]
  have l1: "ucast (drop_bit 6 c OR 0xc0) = (of_nat (0xc0 + n div 64) :: u8)" if "n < 0x800"
    using lead[of 1 5 "0xc0" 6] that by simp
  have l2: "ucast (drop_bit 12 c OR 0xe0) = (of_nat (0xe0 + n div 64 ^ 2) :: u8)" if "n < 0x10000"
    using lead[of 2 4 "0xe0" 14] that by simp
  have l3: "ucast (drop_bit 18 c OR 0xf0) = (of_nat (0xf0 + n div 64 ^ 3) :: u8)" if "n < 0x00200000"
    using lead[of 3 3 "0xf0" 30] that by simp
  have l4: "ucast (drop_bit 24 c OR 0xf8) = (of_nat (0xf8 + n div 64 ^ 4) :: u8)" if "n < 0x04000000"
    using lead[of 4 2 "0xf8" 62] that by simp
  have l5: "ucast (drop_bit 30 c OR 0xfc) = (of_nat (0xfc + n div 64 ^ 5) :: u8)"
    using lead[of 5 1 "0xfc" 126] n by simp
  have cmp: "c < 0x80 \<longleftrightarrow> n < 0x80" "c < 0x800 \<longleftrightarrow> n < 0x800" "c < 0x10000 \<longleftrightarrow> n < 0x10000"
    "c < 0x00200000 \<longleftrightarrow> n < 0x00200000" "c < 0x04000000 \<longleftrightarrow> n < 0x04000000"
    "0x80000000 \<le> c \<longleftrightarrow> 0x80000000 \<le> n"
    by (simp_all add: n_def word_less_nat_alt word_le_nat_alt)
  have n': "\<not> 0x80000000 \<le> n" using n by simp
  consider "n < 0x80" | "0x80 \<le> n" "n < 0x800" | "0x800 \<le> n" "n < 0x10000"
    | "0x10000 \<le> n" "n < 0x00200000" | "0x00200000 \<le> n" "n < 0x04000000" | "0x04000000 \<le> n"
    by linarith
  then show ?thesis
    unfolding unicode_to_utf8_def cmp Let_def n_def[symmetric]
    by cases (simp_all add: utf8_len_def l1 l2 l3 l4 l5 conts n' ucast_eq_of_nat[of c, folded n_def])
qed

section \<open>The decoding loop inverts the continuation bytes\<close>

lemma cont_step:
  fixes c x :: int
  assumes "0 \<le> c"
  shows "push_bit 6 c OR (x AND 0x3f) = c * 64 + x mod 64"
proof -
  have "x AND 0x3f = x mod 64" by (simp add: and_low_masks_int)
  then show ?thesis using or_disjoint_int(2)[of "x mod 64" 6 c] assms by (simp add: push_bit_eq_mult)
qed

lemma utf8_cont_tail:
  "0 \<le> c \<Longrightarrow> utf8_cont k c (utf8_tail k n @ r) = Some (Some (c * 64 ^ k + int (n mod 64 ^ k), r))"
proof (induction k arbitrary: c)
  case 0
  then show ?case by simp
next
  case (Suc k)
  define d where "d = n div 64 ^ k mod 64"
  have d: "d < 64" by (simp add: d_def)
  have u: "uint (of_nat (0x80 + d) :: u8) = 0x80 + int d"
    using d by (simp add: unsigned_of_nat take_bit_nat_eq_self_iff uint_nat flip: of_nat_add) (simp add: take_bit_nat_eq_self)
  have "\<not> ((of_nat (0x80 + d) :: u8) < 0x80 \<or> 0xc0 \<le> (of_nat (0x80 + d) :: u8))"
    using d u by (simp add: word_less_def word_le_def)
  moreover have "n mod 64 ^ Suc k = d * 64 ^ k + n mod 64 ^ k"
    using mod_mult2_eq[of n "64 ^ k" 64] by (simp add: d_def mult.commute)
  moreover have "push_bit 6 c OR (uint (of_nat (0x80 + d) :: u8) AND 0x3f) = c * 64 + int d"
  proof -
    have "(0x80 + int d) mod 64 = int d" using mod_block_int[of 2 64 "0x80 + int d"] d by simp
    then show ?thesis unfolding u cont_step[OF Suc.prems] by (rule arg_cong)
  qed
  ultimately show ?case
    using Suc.IH[of "c * 64 + int d"] Suc.prems by (simp flip: d_def add: algebra_simps)
qed

lemma utf8_cont_inv:
  "utf8_cont k c p = Some (Some (v, r)) \<Longrightarrow> 0 \<le> c \<Longrightarrow>
   0 \<le> v \<and> v div 64 ^ k = c \<and> p = utf8_tail k (nat v) @ r"
proof (induction k c p arbitrary: v r rule: utf8_cont.induct)
  case (3 i c b p)
  define x where "x = uint b mod 64"
  have x: "0 \<le> x" "x < 64" by (simp_all add: x_def)
  from "3.prems" have b: "0x80 \<le> b" "b < 0xc0" by (auto split: if_splits)
  then have "0x80 \<le> uint b" "uint b < 0xc0" by (simp_all add: word_less_def word_le_def)
  then have bx: "uint b = 0x80 + x" using mod_block_int[of 2 64 "uint b"] by (simp add: x_def)
  have c': "push_bit 6 c OR (uint b AND 0x3f) = c * 64 + x"
    using cont_step[OF "3.prems"(2), of "uint b"] by (simp add: x_def)
  have nb: "\<not> (b < 0x80 \<or> 0xc0 \<le> b)" using b by auto
  then have "utf8_cont i (push_bit 6 c OR (uint b AND 0x3f)) p = Some (Some (v, r))"
    using "3.prems"(1) by simp
  from "3.IH"[OF nb this] have IH: "0 \<le> v" "v div 64 ^ i = c * 64 + x" "p = utf8_tail i (nat v) @ r"
    using c' x "3.prems"(2) by auto
  have "v div 64 ^ Suc i = (v div 64 ^ i) div 64"
    using zdiv_zmult2_eq[of 64 v "64 ^ i"] by (simp add: mult.commute)
  then have "v div 64 ^ Suc i = c" using IH(2) x by simp
  moreover have "nat v div 64 ^ i mod 64 = nat x"
  proof -
    have "nat v div 64 ^ i mod 64 = nat (v div 64 ^ i mod 64)"
      using IH(1) by (simp add: nat_div_distrib nat_mod_distrib pos_imp_zdiv_nonneg_iff nat_power_eq)
    then show ?thesis using IH(2) x by simp
  qed
  moreover have "of_nat (0x80 + nat x) = b"
  proof -
    have "unat b = 0x80 + nat x" using bx x by (simp only: unat_eq_nat_uint nat_add_distrib nat_numeral)
    then have "of_nat (0x80 + nat x) = (of_nat (unat b) :: u8)" by (simp only:)
    then show ?thesis by simp
  qed
  ultimately show ?case using IH by simp
qed auto

section \<open>Correctness of the codec\<close>

lemma utf8_seq_len_of_nat:
  assumes "n < 256"
  shows "utf8_seq_len (of_nat n) = (if 0xc0 \<le> n \<and> n \<le> 0xdf then Some 1
      else if 0xe0 \<le> n \<and> n \<le> 0xef then Some 2
      else if 0xf0 \<le> n \<and> n \<le> 0xf7 then Some 3
      else if 0xf8 \<le> n \<and> n \<le> 0xfb then Some 4
      else if 0xfc \<le> n \<and> n \<le> 0xfd then Some 5
      else None)"
proof -
  have un: "unat (of_nat n :: u8) = n" using assms by (intro unat_of_nat_small) simp
  have le: "a \<le> (of_nat n::u8) \<longleftrightarrow> unat a \<le> n" "(of_nat n::u8) \<le> a \<longleftrightarrow> n \<le> unat a" for a by (simp_all only: word_le_nat_alt un)
  show ?thesis unfolding utf8_seq_len_def le by simp
qed

lemma utf8_lead_facts:
  assumes "k \<in> {1, 2, 3, 4, 5}" "d < 2 ^ (if k = 5 then 1 else 6 - k)"
  shows "\<not> (of_nat (utf8_lead k + d) :: u8) < 0x80"
    and "utf8_seq_len (of_nat (utf8_lead k + d)) = Some k"
    and "uint (of_nat (utf8_lead k + d) :: u8) AND utf8_first_code_mask ! (k - 1) = int d"
proof -
  have lt: "utf8_lead k + d < 256" using assms by auto
  then have un: "unat (of_nat (utf8_lead k + d) :: u8) = utf8_lead k + d"
    by (intro unat_of_nat_small) simp
  then have ui: "uint (of_nat (utf8_lead k + d) :: u8) = int (utf8_lead k + d)"
    by (simp only: uint_nat)
  consider "k = 1" "d < 32" | "k = 2" "d < 16" | "k = 3" "d < 8" | "k = 4" "d < 4" | "k = 5" "d < 2"
    using assms by auto
  then have "128 \<le> utf8_lead k + d \<and> utf8_seq_len (of_nat (utf8_lead k + d)) = Some k \<and>
    int (utf8_lead k + d) AND utf8_first_code_mask ! (k - 1) = int d"
    unfolding utf8_seq_len_of_nat[OF lt]
    using mod_block_int[of 6 32 "0xc0 + int d"] mod_block_int[of 14 16 "0xe0 + int d"]
      mod_block_int[of 30 8 "0xf0 + int d"] mod_block_int[of 62 4 "0xf8 + int d"]
      mod_block_int[of 126 2 "0xfc + int d"]
    by cases (simp_all add: utf8_first_code_mask_def and_low_masks_int)
  then show "\<not> (of_nat (utf8_lead k + d) :: u8) < 0x80"
    and "utf8_seq_len (of_nat (utf8_lead k + d)) = Some k"
    and "uint (of_nat (utf8_lead k + d) :: u8) AND utf8_first_code_mask ! (k - 1) = int d"
    unfolding ui word_less_nat_alt un by (auto simp del: utf8_lead.simps)
qed

lemma utf8_len_bounds:
  assumes "n < 2 ^ 31" "utf8_len n \<noteq> 0"
  shows "utf8_len n \<in> {1, 2, 3, 4, 5}"
    "n div 64 ^ utf8_len n < 2 ^ (if utf8_len n = 5 then 1 else 6 - utf8_len n)"
    "utf8_min_code ! (utf8_len n - 1) \<le> int n"
proof -
  consider "0x80 \<le> n" "n < 0x800" | "0x800 \<le> n" "n < 0x10000"
    | "0x10000 \<le> n" "n < 0x00200000" | "0x00200000 \<le> n" "n < 0x04000000" | "0x04000000 \<le> n"
    using assms(2) unfolding utf8_len_def by (cases "n < 0x80") (simp, linarith)
  then have "utf8_len n \<in> {1, 2, 3, 4, 5} \<and>
    n div 64 ^ utf8_len n < 2 ^ (if utf8_len n = 5 then 1 else 6 - utf8_len n) \<and>
    utf8_min_code ! (utf8_len n - 1) \<le> int n"
  proof cases
    case 1 then show ?thesis by (simp add: utf8_len_def utf8_min_code_def)
  next
    case 2 then show ?thesis by (simp add: utf8_len_def utf8_min_code_def)
  next
    case 3 then show ?thesis by (simp add: utf8_len_def utf8_min_code_def)
  next
    case 4 then show ?thesis by (simp add: utf8_len_def utf8_min_code_def)
  next
    case 5 then show ?thesis using assms(1) by (simp add: utf8_len_def utf8_min_code_def)
  qed
  then show "utf8_len n \<in> {1, 2, 3, 4, 5}"
    "n div 64 ^ utf8_len n < 2 ^ (if utf8_len n = 5 then 1 else 6 - utf8_len n)"
    "utf8_min_code ! (utf8_len n - 1) \<le> int n"
    by blast+
qed

lemma utf8_decode_encode:
  assumes "unat c < 2 ^ 31" "int (length (unicode_to_utf8 c)) \<le> max_len"
  shows "unicode_from_utf8 (unicode_to_utf8 c @ r) max_len = Some (uint c, Some r)"
proof (cases "utf8_len (unat c) = 0")
  case True
  then have lt: "unat c < 0x80" by (auto simp: utf8_len_def split: if_splits)
  then have un: "unat (of_nat (unat c) :: u8) = unat c"
    by (intro unat_of_nat_small) simp
  then have "uint (of_nat (unat c) :: u8) = uint c" by (simp only: uint_nat)
  then show ?thesis
    using True lt un unicode_to_utf8_eq[OF assms(1)]
    by (simp add: unicode_from_utf8_def word_less_nat_alt del: of_nat_unat)
next
  case False
  define n k where "n = unat c" and "k = utf8_len n"
  have n: "n < 2 ^ 31" using assms(1) by (simp add: n_def)
  have "k \<noteq> 0" using False by (simp add: k_def n_def)
  note k = utf8_len_bounds[OF n, folded k_def, OF this]
  have enc: "unicode_to_utf8 c = of_nat (utf8_lead k + n div 64 ^ k) # utf8_tail k n"
    using unicode_to_utf8_eq[OF assms(1)] False
    by (simp only: Let_def n_def[symmetric] k_def[symmetric] if_False)
  have len: "\<not> int k > max_len - 1" using assms(2) by (simp add: enc)
  have "int (n div 64 ^ k) * 64 ^ k + int (n mod 64 ^ k) = int n"
    by (simp only: zdiv_int zmod_int of_nat_power of_nat_numeral div_mult_mod_eq)
  then have "utf8_cont k (int (n div 64 ^ k)) (utf8_tail k n @ r) = Some (Some (int n, r))"
    using utf8_cont_tail[of "int (n div 64 ^ k)" k n r] by simp
  note cont = this
  define b :: u8 where "b = of_nat (utf8_lead k + n div 64 ^ k)"
  note b = utf8_lead_facts[OF k(1,2), folded b_def]
  have "uint c = int n" by (simp only: n_def uint_nat)
  then show ?thesis
    unfolding enc b_def[symmetric] unicode_from_utf8_def using b len k(3) cont by simp
qed

lemma utf8_seq_len_inv:
  assumes "utf8_seq_len b = Some k"
  obtains d where "k \<in> {1, 2, 3, 4, 5}" "d < 2 ^ (if k = 5 then 1 else 6 - k)"
    "b = of_nat (utf8_lead k + d)"
proof -
  define n where "n = unat b"
  have n: "n < 256" using unsigned_less[of b] by (simp add: n_def)
  have b: "b = of_nat n" by (simp add: n_def)
  have "utf8_seq_len (of_nat n) = Some k" using assms b by simp
  then have k: "k \<in> {1, 2, 3, 4, 5} \<and> utf8_lead k \<le> n \<and>
      n - utf8_lead k < 2 ^ (if k = 5 then 1 else 6 - k)"
    unfolding utf8_seq_len_of_nat[OF n] by (auto split: if_splits)
  then have "b = of_nat (utf8_lead k + (n - utf8_lead k))"
    using b by (simp only: le_add_diff_inverse)
  then show thesis using that k by blast
qed

lemma utf8_len_unique:
  assumes "k \<in> {1, 2, 3, 4, 5}" "n div 64 ^ k < 2 ^ (if k = 5 then 1 else 6 - k)"
    "utf8_min_code ! (k - 1) \<le> int n"
  shows "utf8_len n = k \<and> n < 2 ^ 31"
proof -
  have n: "n < 2 ^ (if k = 5 then 1 else 6 - k) * 64 ^ k"
    using assms(2) by (simp add: div_less_iff_less_mult)
  consider "k = 1" | "k = 2" | "k = 3" | "k = 4" | "k = 5" using assms(1) by blast
  then show ?thesis using n assms(3) by cases (simp_all add: utf8_len_def utf8_min_code_def)
qed

lemma utf8_encode_decode:
  assumes "unicode_from_utf8 p max_len = Some (c, Some r)"
  shows "0 \<le> c \<and> c < 2 ^ 31 \<and> p = unicode_to_utf8 (word_of_int c) @ r"
proof -
  obtain b p1 where p: "p = b # p1"
    using assms by (cases p) (auto simp: unicode_from_utf8_def)
  have enc: "unicode_to_utf8 (word_of_int c) =
      (if utf8_len (nat c) = 0 then [of_nat (nat c)]
       else of_nat (utf8_lead (utf8_len (nat c)) + nat c div 64 ^ utf8_len (nat c)) #
            utf8_tail (utf8_len (nat c)) (nat c))"
    if "0 \<le> c" "nat c < 2 ^ 31"
  proof -
    have "word_of_int c = (of_nat (nat c) :: u32)" using that by simp
    moreover have "unat (of_nat (nat c) :: u32) = nat c" by (rule unat_of_nat_small) (use that in simp)
    ultimately have u: "unat (word_of_int c :: u32) = nat c" by (simp only:)
    show ?thesis using unicode_to_utf8_eq[of "word_of_int c"] that(2) unfolding u Let_def by blast
  qed
  show ?thesis
  proof (cases "b < 0x80")
    case True
    then have c: "c = uint b" "r = p1" using assms by (auto simp: p unicode_from_utf8_def)
    have "uint b < 0x80" using True by (simp add: word_less_def)
    then have c0: "0 \<le> c" "c < 0x80" using c by simp_all
    then have lt: "nat c < 0x80" "c < 2 ^ 31" "0 \<le> c" by simp_all
    then have "unicode_to_utf8 (word_of_int c) = [of_nat (nat c)]" using enc by (simp add: utf8_len_def)
    moreover have "of_nat (nat c) = b" using c by simp
    ultimately show ?thesis using lt c by (simp add: p)
  next
    case False
    then obtain k where k: "utf8_seq_len b = Some k"
      using assms by (auto simp: p unicode_from_utf8_def split: option.splits)
    obtain d where kd: "k \<in> {1, 2, 3, 4, 5}" "d < 2 ^ (if k = 5 then 1 else 6 - k)"
      and b: "b = of_nat (utf8_lead k + d)" using utf8_seq_len_inv[OF k] .
    have m: "uint b AND utf8_first_code_mask ! (k - 1) = int d"
      using utf8_lead_facts(3)[OF kd] by (simp only: b)
    have cont: "utf8_cont k (int d) p1 = Some (Some (c, r))" and "utf8_min_code ! (k - 1) \<le> c"
      using assms False by (auto simp: p unicode_from_utf8_def k m[unfolded One_nat_def] split: option.splits if_splits)
    from utf8_cont_inv[OF cont(1)] have v: "0 \<le> c" "c div 64 ^ k = int d" "p1 = utf8_tail k (nat c) @ r"
      by auto
    have nd: "nat c div 64 ^ k = d" using v by (metis nat_div_distrib nat_int nat_numeral nat_power_eq zero_le_numeral)
    then have "utf8_len (nat c) = k" "nat c < 2 ^ 31"
      using utf8_len_unique[of k "nat c"] kd \<open>utf8_min_code ! (k - 1) \<le> c\<close> v(1) by (simp_all only: nat_0_le)
    then show ?thesis using enc v nd kd(1) by (auto simp: p b simp del: of_nat_add utf8_lead.simps)
  qed
qed

text \<open>The bytes consumed never exceed the limit given by the caller, and no byte past it is read.\<close>

lemma utf8_cont_defined: "k \<le> length p \<Longrightarrow> utf8_cont k c p \<noteq> None"
  by (induction k c p rule: utf8_cont.induct) auto

lemma utf8_no_overread:
  assumes "1 \<le> max_len" "max_len \<le> int (length p)"
  shows "unicode_from_utf8 p max_len \<noteq> None"
proof -
  obtain b p1 where p: "p = b # p1" using assms by (cases p) auto
  have D: "\<exists>y. utf8_cont l c p1 = Some y" if "\<not> int l > max_len - 1" for l c
    using utf8_cont_defined[of l p1 c] that assms p by simp
  show ?thesis
  proof (cases "utf8_seq_len b")
    case None
    then show ?thesis by (simp add: p unicode_from_utf8_def)
  next
    case (Some l)
    show ?thesis
      using D[of l "uint b AND utf8_first_code_mask ! (l - 1)"]
      by (auto simp: p unicode_from_utf8_def Some split: option.splits)
  qed
qed

section \<open>Properties\<close>

text \<open>
  C18. Decoding what \<^verbatim>\<open>unicode_to_utf8\<close> encoded returns the code point and a pointer just behind it,
  for every code point below 2^31 and any bytes that follow, when the length limit covers the
  encoding.
\<close>

theorem utf8_roundtrip:
  assumes "unat c < 2 ^ 31" "int (length (unicode_to_utf8 c)) \<le> max_len"
  shows "unicode_from_utf8 (unicode_to_utf8 c @ r) max_len = Some (uint c, Some r)"
  using assms by (rule utf8_decode_encode)

theorem utf8_roundtrip_witness:
  "unicode_from_utf8 (unicode_to_utf8 0x20AC @ [0x41]) 6 = Some (uint (0x20AC :: u32), Some [0x41])"
  by (rule utf8_roundtrip) (simp_all add: unicode_to_utf8_def)

text \<open>
  A sequence is accepted only when it is the encoding of the returned code point: overlong
  forms, stray continuation bytes and truncated sequences are refused, and no two sequences
  decode to the same code point.
\<close>

theorem utf8_only_canonical:
  assumes "unicode_from_utf8 p max_len = Some (c, Some r)"
  shows "0 \<le> c \<and> c < 2 ^ 31 \<and> p = unicode_to_utf8 (word_of_int c) @ r"
  using assms by (rule utf8_encode_decode)

theorem utf8_only_canonical_witness:
  "0 \<le> (0xE9 :: int) \<and> (0xE9 :: int) < 2 ^ 31 \<and> [0xC3, 0xA9, 0x41] = unicode_to_utf8 (word_of_int 0xE9) @ [0x41]"
proof (rule utf8_only_canonical)
  show "unicode_from_utf8 [0xC3, 0xA9, 0x41] 3 = Some (0xE9, Some [0x41])" by code_simp
qed

text \<open>
  C19. The decoder never reads a byte beyond the limit it is given: whenever the buffer holds the
  \<open>max_len\<close> bytes announced, at least one, no access leaves the buffer.
\<close>

theorem utf8_stays_in_buffer:
  assumes "1 \<le> max_len" "max_len \<le> int (length p)"
  shows "unicode_from_utf8 p max_len \<noteq> None"
  using assms by (rule utf8_no_overread)

theorem utf8_stays_in_buffer_witness: "unicode_from_utf8 [0xF0, 0x9F] 2 \<noteq> None"
  by (rule utf8_stays_in_buffer) simp_all

end
