(* ===== verification/Dyn_Buf.thy ===== *)
theory Dyn_Buf
  imports Cutils_Bits
begin

text \<open>
  The dynamic buffers of \<^verbatim>\<open>cutils.c\<close>. The memory a buffer points to is an array of
  \<^verbatim>\<open>allocated_size\<close> bytes (no array for \<^verbatim>\<open>NULL\<close>); the reallocation callback is a parameter
  from the old array and the new size to the new array, \<^const>\<open>None\<close> for \<^verbatim>\<open>NULL\<close>. Sizes are
  \<^verbatim>\<open>size_t\<close>: every sum and product is reduced modulo \<open>2 ^ 64\<close> as in C. An operation is
  \<^const>\<open>None\<close> when it would access memory outside the array, otherwise its result code and
  the new state of the buffer.
\<close>

section \<open>Buffers\<close>

type_synonym realloc_func = "u8 list option \<Rightarrow> nat \<Rightarrow> u8 list option"

record dyn_buf =
  buf :: "u8 list option"
  size :: nat
  allocated_size :: nat
  error :: bool

definition szt :: "nat \<Rightarrow> nat" where
  "szt n = n mod 2 ^ 64"

definition bytes_of :: "u8 list option \<Rightarrow> u8 list" where
  "bytes_of p = (case p of None \<Rightarrow> [] | Some b \<Rightarrow> b)"

definition dbuf_init2 :: "dyn_buf" where
  "dbuf_init2 = \<lparr>buf = None, size = 0, allocated_size = 0, error = False\<rparr>"

definition dbuf_init :: "dyn_buf" where
  "dbuf_init = dbuf_init2"

text \<open>
  The default callback is \<^verbatim>\<open>realloc\<close>: it keeps the common prefix, may fail when memory is
  short (here above a limit) and returns \<^verbatim>\<open>NULL\<close> after freeing the block for size 0.
\<close>

definition dbuf_default_realloc :: "nat \<Rightarrow> u8 list option \<Rightarrow> nat \<Rightarrow> u8 list option" where
  "dbuf_default_realloc limit p n =
     (if n = 0 \<or> limit < n then None
      else Some (take n (bytes_of p) @ replicate (n - length (bytes_of p)) 0))"

definition dbuf_realloc :: "realloc_func \<Rightarrow> dyn_buf \<Rightarrow> nat \<Rightarrow> int \<times> dyn_buf" where
  "dbuf_realloc realloc s new_size =
     (if new_size > allocated_size s then
        (if error s then (-1, s)
         else
           let sz = szt (allocated_size s * 3) div 2;
               new_size = (if sz > new_size then sz else new_size)
           in case realloc (buf s) new_size of
                None \<Rightarrow> (-1, s\<lparr>error := True\<rparr>)
              | Some new_buf \<Rightarrow> (0, s\<lparr>buf := Some new_buf, allocated_size := new_size\<rparr>))
      else (0, s))"

definition store :: "dyn_buf \<Rightarrow> nat \<Rightarrow> u8 list \<Rightarrow> dyn_buf option" where
  "store s off data =
     map_option (\<lambda>b. s\<lparr>buf := (if buf s = None then None else Some b)\<rparr>)
       (memcpy_at (bytes_of (buf s)) off data)"

definition dbuf_write :: "realloc_func \<Rightarrow> dyn_buf \<Rightarrow> nat \<Rightarrow> u8 list \<Rightarrow> (int \<times> dyn_buf) option" where
  "dbuf_write realloc s offset data =
     (let e = szt (offset + length data); (r, s) = dbuf_realloc realloc s e in
      if r \<noteq> 0 then Some (-1, s)
      else do {
        s \<leftarrow> store s offset data;
        Some (0, if e > size s then s\<lparr>size := e\<rparr> else s)
      })"

definition dbuf_put :: "realloc_func \<Rightarrow> dyn_buf \<Rightarrow> u8 list \<Rightarrow> (int \<times> dyn_buf) option" where
  "dbuf_put realloc s data =
     (let e = szt (size s + length data);
          (r, s) = (if e > allocated_size s then dbuf_realloc realloc s e else (0, s)) in
      if r \<noteq> 0 then Some (-1, s)
      else do {
        s \<leftarrow> store s (size s) data;
        Some (0, s\<lparr>size := szt (size s + length data)\<rparr>)
      })"

definition dbuf_put_self :: "realloc_func \<Rightarrow> dyn_buf \<Rightarrow> nat \<Rightarrow> nat \<Rightarrow> (int \<times> dyn_buf) option" where
  "dbuf_put_self realloc s offset len =
     (let e = szt (size s + len);
          (r, s) = (if e > allocated_size s then dbuf_realloc realloc s e else (0, s)) in
      if r \<noteq> 0 then Some (-1, s)
      else if offset + len > size s then None
      else do {
        s \<leftarrow> store s (size s) (take len (drop offset (bytes_of (buf s))));
        Some (0, s\<lparr>size := szt (size s + len)\<rparr>)
      })"

definition dbuf_putc :: "realloc_func \<Rightarrow> dyn_buf \<Rightarrow> u8 \<Rightarrow> (int \<times> dyn_buf) option" where
  "dbuf_putc realloc s c = dbuf_put realloc s [c]"

definition dbuf_putstr :: "realloc_func \<Rightarrow> dyn_buf \<Rightarrow> u8 list \<Rightarrow> (int \<times> dyn_buf) option" where
  "dbuf_putstr realloc s str = dbuf_put realloc s (takeWhile (\<lambda>c. c \<noteq> 0) str)"

definition dbuf_put_u16 :: "realloc_func \<Rightarrow> dyn_buf \<Rightarrow> u16 \<Rightarrow> (int \<times> dyn_buf) option" where
  "dbuf_put_u16 realloc s val = dbuf_put realloc s (le_bytes 2 val)"

definition dbuf_put_u32 :: "realloc_func \<Rightarrow> dyn_buf \<Rightarrow> u32 \<Rightarrow> (int \<times> dyn_buf) option" where
  "dbuf_put_u32 realloc s val = dbuf_put realloc s (le_bytes 4 val)"

definition dbuf_put_u64 :: "realloc_func \<Rightarrow> dyn_buf \<Rightarrow> u64 \<Rightarrow> (int \<times> dyn_buf) option" where
  "dbuf_put_u64 realloc s val = dbuf_put realloc s (le_bytes 8 val)"

text \<open>
  \<^verbatim>\<open>dbuf_printf\<close> with \<open>out\<close> the text the format produces: \<^verbatim>\<open>vsnprintf\<close> stores at most
  its size argument less one bytes and a final 0.
\<close>

definition dbuf_printf :: "realloc_func \<Rightarrow> dyn_buf \<Rightarrow> u8 list \<Rightarrow> (int \<times> dyn_buf) option" where
  "dbuf_printf realloc s out =
     (if length out < 128 then dbuf_put realloc s out
      else
        let (r, s) = dbuf_realloc realloc s (szt (size s + length out + 1)) in
        if r \<noteq> 0 then Some (-1, s)
        else do {
          s \<leftarrow> store s (size s) (take (allocated_size s - size s - 1) out @ [0]);
          Some (0, s\<lparr>size := szt (size s + length out)\<rparr>)
        })"

definition dbuf_free :: "dyn_buf \<Rightarrow> dyn_buf" where
  "dbuf_free s = dbuf_init2"

definition dbuf_error :: "dyn_buf \<Rightarrow> bool" where
  "dbuf_error s = error s"

definition dbuf_set_error :: "dyn_buf \<Rightarrow> dyn_buf" where
  "dbuf_set_error s = s\<lparr>error := True\<rparr>"

section \<open>Well-formed buffers\<close>

text \<open>What \<^verbatim>\<open>realloc\<close> documents: the new block has the size asked for and keeps the common prefix.\<close>

definition realloc_ok :: "realloc_func \<Rightarrow> bool" where
  "realloc_ok realloc \<longleftrightarrow>
     (\<forall>p n b. realloc p n = Some b \<longrightarrow>
        length b = n \<and> take (length (bytes_of p)) b = take n (bytes_of p))"

definition dbuf_wf :: "dyn_buf \<Rightarrow> bool" where
  "dbuf_wf s \<longleftrightarrow> allocated_size s = length (bytes_of (buf s)) \<and> size s \<le> allocated_size s \<and>
     allocated_size s < 2 ^ 64"

definition dbuf_data :: "dyn_buf \<Rightarrow> u8 list" where
  "dbuf_data s = take (size s) (bytes_of (buf s))"

lemma bytes_of_simps [simp]: "bytes_of None = []" "bytes_of (Some b) = b"
  by (simp_all add: bytes_of_def)

lemma szt_small [simp]: "n < 2 ^ 64 \<Longrightarrow> szt n = n"
  by (simp add: szt_def)

lemma default_realloc_ok: "realloc_ok (dbuf_default_realloc limit)"
  by (auto simp: realloc_ok_def dbuf_default_realloc_def min_def split: if_splits)

lemma dbuf_init_wf: "dbuf_wf dbuf_init" "dbuf_data dbuf_init = []" "\<not> error dbuf_init"
  by (simp_all add: dbuf_init_def dbuf_init2_def dbuf_wf_def dbuf_data_def)

text \<open>Growing: the contents survive, and failure is recorded in the error flag.\<close>

text \<open>The callback refuses some request for memory.\<close>

definition realloc_fails :: "realloc_func \<Rightarrow> bool" where
  "realloc_fails realloc \<longleftrightarrow> (\<exists>p n. 0 < n \<and> realloc p n = None)"

lemma realloc_failsI: "0 < n \<Longrightarrow> realloc p n = None \<Longrightarrow> realloc_fails realloc"
  by (auto simp: realloc_fails_def)

lemma dbuf_realloc_cases:
  assumes r: "realloc_ok realloc" and wf: "dbuf_wf s" and n: "n < 2 ^ 64"
    and eq: "dbuf_realloc realloc s n = (ret, s')"
  shows "(ret = 0 \<and> dbuf_wf s' \<and> dbuf_data s' = dbuf_data s \<and> n \<le> allocated_size s' \<and>
            size s' = size s \<and> error s' = error s) \<or>
         (ret = -1 \<and> dbuf_wf s' \<and> dbuf_data s' = dbuf_data s \<and> size s' = size s \<and> error s' \<and> (error s \<or> realloc_fails realloc))"
proof (cases "n > allocated_size s \<and> \<not> error s")
  case False
  then show ?thesis using eq wf by (auto simp: dbuf_realloc_def split: if_splits)
next
  case True
  define sz where "sz = szt (allocated_size s * 3) div 2"
  define m where "m = (if sz > n then sz else n)"
  have "sz < 2 ^ 64" by (simp add: sz_def szt_def div_less_dividend less_mult_imp_div_less)
  then have m: "n \<le> m" "m < 2 ^ 64" using n by (auto simp: m_def)
  have e: "dbuf_realloc realloc s n = (case realloc (buf s) m of None \<Rightarrow> (-1, s\<lparr>error := True\<rparr>)
      | Some b \<Rightarrow> (0, s\<lparr>buf := Some b, allocated_size := m\<rparr>))"
    unfolding m_def sz_def dbuf_realloc_def Let_def using True by simp
  show ?thesis
  proof (cases "realloc (buf s) m")
    case None
    then show ?thesis using e eq wf True m realloc_failsI[of m realloc "buf s"] by (auto simp: dbuf_wf_def dbuf_data_def)
  next
    case (Some b)
    then have b: "length b = m" "take (length (bytes_of (buf s))) b = take m (bytes_of (buf s))"
      using r by (auto simp: realloc_ok_def)
    have sm: "size s \<le> m" "length (bytes_of (buf s)) \<le> m" using wf True m by (auto simp: dbuf_wf_def)
    then have "take (length (bytes_of (buf s))) b = bytes_of (buf s)" using b by simp
    then have "take (size s) b = take (size s) (bytes_of (buf s))"
      using wf by (metis dbuf_wf_def min.absorb1 take_take)
    then show ?thesis using Some e eq wf b sm m by (auto simp: dbuf_wf_def dbuf_data_def)
  qed
qed

lemma store_at_end:
  assumes "dbuf_wf s" "size s + length d \<le> allocated_size s"
  obtains s' where "store s (size s) d = Some s'" "dbuf_wf (s'\<lparr>size := size s + length d\<rparr>)"
    "dbuf_data (s'\<lparr>size := size s + length d\<rparr>) = dbuf_data s @ d" "error s' = error s"
    "size s' = size s"
proof -
  define b where "b = bytes_of (buf s)"
  have len: "size s + length d \<le> length b" using assms by (simp add: dbuf_wf_def b_def)
  define b' where "b' = take (size s) b @ d @ drop (size s + length d) b"
  have m: "memcpy_at b (size s) d = Some b'" using len by (simp add: memcpy_at_def b'_def)
  have lb: "length b' = length b" using len by (simp add: b'_def)
  define s' where "s' = s\<lparr>buf := (if buf s = None then None else Some b')\<rparr>"
  have "store s (size s) d = Some s'" using m by (simp add: store_def b_def s'_def)
  moreover have bo: "bytes_of (buf s') = b'"
    using lb by (cases "buf s") (auto simp: s'_def b_def)
  moreover have "take (size s + length d) b' = take (size s) b @ d" using len by (simp add: b'_def)
  ultimately show thesis using that[of s'] assms len lb
    by (simp add: dbuf_wf_def dbuf_data_def s'_def b_def)
qed

text \<open>The contract of every append: it never leaves the array, and either appends or records the error.\<close>

lemma dbuf_put_contract:
  assumes r: "realloc_ok realloc" and wf: "dbuf_wf s" and n: "size s + length d < 2 ^ 64"
  shows "\<exists>ret s'. dbuf_put realloc s d = Some (ret, s') \<and> dbuf_wf s' \<and>
    (ret = 0 \<and> dbuf_data s' = dbuf_data s @ d \<and> error s' = error s \<and> size s' = size s + length d \<or>
     ret = -1 \<and> dbuf_data s' = dbuf_data s \<and> error s' \<and> size s' = size s \<and> (error s \<or> realloc_fails realloc))"
proof -
  let ?e = "size s + length d"
  obtain ret s1 where s1: "(if ?e > allocated_size s then dbuf_realloc realloc s ?e else (0, s)) = (ret, s1)"
    by (meson surj_pair)
  have c: "(ret = 0 \<and> dbuf_wf s1 \<and> dbuf_data s1 = dbuf_data s \<and> ?e \<le> allocated_size s1 \<and>
            size s1 = size s \<and> error s1 = error s) \<or>
         (ret = -1 \<and> dbuf_wf s1 \<and> dbuf_data s1 = dbuf_data s \<and> size s1 = size s \<and> error s1 \<and> (error s \<or> realloc_fails realloc))"
    using dbuf_realloc_cases[OF r wf n] s1 wf by (auto split: if_splits)
  then show ?thesis
  proof
    assume a: "ret = 0 \<and> dbuf_wf s1 \<and> dbuf_data s1 = dbuf_data s \<and> ?e \<le> allocated_size s1 \<and>
            size s1 = size s \<and> error s1 = error s"
    then obtain s2 where s2: "store s1 (size s1) d = Some s2" "dbuf_wf (s2\<lparr>size := size s1 + length d\<rparr>)"
      "dbuf_data (s2\<lparr>size := size s1 + length d\<rparr>) = dbuf_data s1 @ d" "error s2 = error s1" "size s2 = size s1"
      using store_at_end[of s1 d] by metis
    have "dbuf_put realloc s d = Some (0, s2\<lparr>size := size s1 + length d\<rparr>)"
      using s1 s2 a n by (simp add: dbuf_put_def)
    then show ?thesis using s2 a by auto
  next
    assume "ret = -1 \<and> dbuf_wf s1 \<and> dbuf_data s1 = dbuf_data s \<and> size s1 = size s \<and> error s1 \<and> (error s \<or> realloc_fails realloc)"
    then show ?thesis using s1 n by (auto simp: dbuf_put_def)
  qed
qed

lemma dbuf_put_self_eq:
  assumes "realloc_ok realloc" "dbuf_wf s" "size s + len < 2 ^ 64" "offset + len \<le> size s"
  shows "dbuf_put_self realloc s offset len = dbuf_put realloc s (take len (drop offset (dbuf_data s)))"
proof -
  let ?e = "size s + len" and ?d = "take len (drop offset (dbuf_data s))"
  have l: "length ?d = len" using assms by (simp add: dbuf_data_def dbuf_wf_def)
  obtain ret s1 where s1: "(if ?e > allocated_size s then dbuf_realloc realloc s ?e else (0, s)) = (ret, s1)"
    by (meson surj_pair)
  have c: "ret = 0 \<and> dbuf_wf s1 \<and> dbuf_data s1 = dbuf_data s \<and> size s1 = size s \<or> ret = -1 \<and> size s1 = size s"
    using dbuf_realloc_cases[OF assms(1,2,3)] s1 assms(2) by (auto split: if_splits)
  have "take len (drop offset (bytes_of (buf s1))) = ?d" if "ret = 0"
  proof -
    have "dbuf_data s1 = dbuf_data s" "size s1 = size s" using c that by auto
    then have "?d = take len (drop offset (take (size s) (bytes_of (buf s1))))"
      by (simp add: dbuf_data_def)
    then show ?thesis by (simp only: take_drop_take[OF assms(4)])
  qed
  then show ?thesis using s1 c l assms(3,4) by (auto simp: dbuf_put_self_def dbuf_put_def)
qed

section \<open>Append-only buffers\<close>

text \<open>
  The way the sources use a buffer: call a sequence of appends without looking at the
  results and test \<^verbatim>\<open>dbuf_error\<close> once at the end. The interface is the contract of one append
  (its law says that it appends or reports, and that a reported error stays); the clients'
  lemma is that the final test is enough.
\<close>

locale append_buffer =
  fixes put :: "'b \<Rightarrow> 'e list \<Rightarrow> 'b option"
    and data :: "'b \<Rightarrow> 'e list"
    and err :: "'b \<Rightarrow> bool"
    and inv :: "'b \<Rightarrow> bool"
    and room :: "'b \<Rightarrow> nat"
  assumes put_law: "inv b \<Longrightarrow> length d \<le> room b \<Longrightarrow>
      \<exists>b'. put b d = Some b' \<and> inv b' \<and> room b \<le> room b' + length d \<and>
        (data b' = data b @ d \<and> err b' = err b \<or> err b')"
begin

fun puts :: "'b \<Rightarrow> 'e list list \<Rightarrow> 'b option" where
  "puts b [] = Some b"
| "puts b (d # ds) = Option.bind (put b d) (\<lambda>b'. puts b' ds)"

lemma puts_law:
  "inv b \<Longrightarrow> length (concat ds) \<le> room b \<Longrightarrow>
   \<exists>b'. puts b ds = Some b' \<and> inv b' \<and> (data b' = data b @ concat ds \<and> err b' = err b \<or> err b')"
proof (induction ds arbitrary: b)
  case Nil
  then show ?case by simp
next
  case (Cons d ds)
  then obtain b1 where b1: "put b d = Some b1" "inv b1" "room b \<le> room b1 + length d"
    "data b1 = data b @ d \<and> err b1 = err b \<or> err b1"
    using put_law[of b d] by auto
  have "length (concat ds) \<le> room b1" using b1(3) Cons.prems(2) by simp
  then obtain b2 where "puts b1 ds = Some b2" "inv b2"
    "data b2 = data b1 @ concat ds \<and> err b2 = err b1 \<or> err b2"
    using Cons.IH[OF b1(2)] by blast
  then show ?case using b1 by auto
qed

lemma final_test_suffices:
  assumes "inv b" "length (concat ds) \<le> room b" "puts b ds = Some b'" "\<not> err b'"
  shows "data b' = data b @ concat ds"
  using puts_law[OF assms(1,2)] assms(3,4) by auto

end

text \<open>The dynamic buffer provides that contract; the room left is what \<^verbatim>\<open>size_t\<close> can still count.\<close>

locale dbuf_env =
  fixes realloc :: realloc_func
  assumes realloc_ok: "realloc_ok realloc"

sublocale dbuf_env \<subseteq> app: append_buffer
  "\<lambda>s d. map_option snd (dbuf_put realloc s d)" dbuf_data error dbuf_wf "\<lambda>s. 2 ^ 64 - 1 - size s"
proof
  fix b :: dyn_buf and d :: "u8 list"
  assume b: "dbuf_wf b" "length d \<le> 2 ^ 64 - 1 - size b"
  have "size b < 2 ^ 64" using b(1) by (simp add: dbuf_wf_def)
  then have "size b + length d < 2 ^ 64" using b(2) by linarith
  from dbuf_put_contract[OF realloc_ok b(1) this]
  show "\<exists>b'. map_option snd (dbuf_put realloc b d) = Some b' \<and> dbuf_wf b' \<and>
      2 ^ 64 - 1 - size b \<le> 2 ^ 64 - 1 - size b' + length d \<and>
      (dbuf_data b' = dbuf_data b @ d \<and> error b' = error b \<or> error b')"
    by fastforce
qed

interpretation std_dbuf: dbuf_env "dbuf_default_realloc limit" for limit
  by unfold_locales (rule default_realloc_ok)

section \<open>Properties\<close>

fun dbuf_puts :: "realloc_func \<Rightarrow> dyn_buf \<Rightarrow> u8 list list \<Rightarrow> dyn_buf option" where
  "dbuf_puts realloc s [] = Some s"
| "dbuf_puts realloc s (d # ds) = do { (_, s) \<leftarrow> dbuf_put realloc s d; dbuf_puts realloc s ds }"

context dbuf_env
begin

lemma puts_eq: "app.puts s ds = dbuf_puts realloc s ds"
  by (induction ds arbitrary: s) (auto split: Option.bind_splits)

lemma puts_final:
  assumes "dbuf_wf s" "size s + length (concat ds) < 2 ^ 64"
  shows "\<exists>s'. dbuf_puts realloc s ds = Some s' \<and> dbuf_wf s' \<and>
    (\<not> dbuf_error s' \<longrightarrow> dbuf_data s' = dbuf_data s @ concat ds)"
  using app.puts_law[of s ds] assms by (fastforce simp: puts_eq dbuf_error_def)

end

text \<open>
  C20. With a reallocation callback that behaves as documented, \<^verbatim>\<open>dbuf_put\<close> on a well-formed
  buffer never writes outside the allocated array, keeps the buffer well formed, and either
  returns 0 with exactly the given bytes appended or returns -1 with the contents unchanged and
  the error flag set, the latter only after an earlier error or when the callback refuses a request.
\<close>

theorem dbuf_put_safe:
  assumes "realloc_ok realloc" "dbuf_wf s" "size s + length d < 2 ^ 64"
  shows "\<exists>ret s'. dbuf_put realloc s d = Some (ret, s') \<and> dbuf_wf s' \<and>
    (ret = 0 \<and> dbuf_data s' = dbuf_data s @ d \<and> error s' = error s \<or>
     ret = -1 \<and> dbuf_data s' = dbuf_data s \<and> error s' \<and> (error s \<or> realloc_fails realloc))"
  using dbuf_put_contract[OF assms] by blast

theorem dbuf_put_safe_witness:
  "\<exists>ret s'. dbuf_put (dbuf_default_realloc 100) dbuf_init [1, 2, 3] = Some (ret, s') \<and> dbuf_wf s' \<and>
    (ret = 0 \<and> dbuf_data s' = dbuf_data dbuf_init @ [1, 2, 3] \<and> error s' = error dbuf_init \<or>
     ret = -1 \<and> dbuf_data s' = dbuf_data dbuf_init \<and> error s' \<and> (error dbuf_init \<or> realloc_fails (dbuf_default_realloc 100)))"
  by (rule dbuf_put_safe[OF default_realloc_ok dbuf_init_wf(1)])
     (simp add: dbuf_init_def dbuf_init2_def)

text \<open>
  C21. A sequence of appends whose results are ignored never leaves the array, and when the
  error flag is clear at the end the buffer holds all the appended bytes in order: testing
  \<^verbatim>\<open>dbuf_error\<close> once at the end is enough.
\<close>

theorem dbuf_final_error_test:
  assumes "realloc_ok realloc" "dbuf_wf s" "size s + length (concat ds) < 2 ^ 64"
  shows "\<exists>s'. dbuf_puts realloc s ds = Some s' \<and> dbuf_wf s' \<and>
    (\<not> dbuf_error s' \<longrightarrow> dbuf_data s' = dbuf_data s @ concat ds)"
  by (rule dbuf_env.puts_final[OF dbuf_env.intro[OF assms(1)] assms(2,3)])

theorem dbuf_final_error_test_witness:
  "\<exists>s'. dbuf_puts (dbuf_default_realloc 4) dbuf_init [[1, 2], [3, 4, 5], [6]] = Some s' \<and> dbuf_wf s' \<and>
    (\<not> dbuf_error s' \<longrightarrow> dbuf_data s' = dbuf_data dbuf_init @ concat [[1, 2], [3, 4, 5], [6]])"
  by (rule dbuf_final_error_test[OF default_realloc_ok dbuf_init_wf(1)])
     (simp add: dbuf_init_def dbuf_init2_def)

end
