(* ===== verification/Cutils_Str.thy ===== *)
theory Cutils_Str
  imports Qjs_Prelude "HOL-Library.Sublist"
begin

text \<open>
  The C string helpers of \<^verbatim>\<open>cutils.c\<close>. A string is the list of the bytes of its array from the
  pointer on; its text is what comes before the first 0 (\<open>cstr\<close>), and reading or writing past
  the end of an array is \<^const>\<open>None\<close>.
\<close>

section \<open>C strings\<close>

fun cstr :: "u8 list \<Rightarrow> u8 list option" where
  "cstr [] = None"
| "cstr (c # s) = (if c = 0 then Some [] else map_option (\<lambda>t. c # t) (cstr s))"

definition strlen :: "u8 list \<Rightarrow> nat option" where
  "strlen s = map_option length (cstr s)"

section \<open>The helpers\<close>

text \<open>The loop of \<^verbatim>\<open>pstrcpy\<close> with \<open>q\<close> the index of the write pointer and \<open>e\<close> that of \<^verbatim>\<open>buf + buf_size - 1\<close>.\<close>

fun pstrcpy_loop :: "u8 list \<Rightarrow> nat \<Rightarrow> nat \<Rightarrow> u8 list \<Rightarrow> u8 list option" where
  "pstrcpy_loop buf q e [] = None"
| "pstrcpy_loop buf q e (c # str) =
     (if c = 0 \<or> q \<ge> e then wr buf q 0
      else do { buf \<leftarrow> wr buf q c; pstrcpy_loop buf (q + 1) e str })"

definition pstrcpy_at :: "u8 list \<Rightarrow> nat \<Rightarrow> int \<Rightarrow> u8 list \<Rightarrow> u8 list option" where
  "pstrcpy_at buf off buf_size str =
     (if buf_size \<le> 0 then Some buf else pstrcpy_loop buf off (off + nat (buf_size - 1)) str)"

definition pstrcpy :: "u8 list \<Rightarrow> int \<Rightarrow> u8 list \<Rightarrow> u8 list option" where
  "pstrcpy buf buf_size str = pstrcpy_at buf 0 buf_size str"

definition pstrcat :: "u8 list \<Rightarrow> int \<Rightarrow> u8 list \<Rightarrow> u8 list option" where
  "pstrcat buf buf_size s = do {
     len \<leftarrow> strlen buf;
     if int len < buf_size then pstrcpy_at buf len (buf_size - int len) s else Some buf
   }"

text \<open>\<^verbatim>\<open>strstart\<close> returns 1 with the rest of the string (stored through \<^verbatim>\<open>ptr\<close>) or 0.\<close>

fun strstart :: "u8 list \<Rightarrow> u8 list \<Rightarrow> (nat \<times> u8 list option) option" where
  "strstart p [] = None"
| "strstart p (c # q) =
     (if c = 0 then Some (1, Some p)
      else case p of [] \<Rightarrow> None
        | d # p' \<Rightarrow> if d \<noteq> c then Some (0, None) else strstart p' q)"

definition has_suffix :: "u8 list \<Rightarrow> u8 list \<Rightarrow> bool option" where
  "has_suffix str sfx = do {
     len \<leftarrow> strlen str;
     slen \<leftarrow> strlen sfx;
     Some (len \<ge> slen \<and> take slen (drop (len - slen) str) = take slen sfx)
   }"

section \<open>Texts\<close>

lemma cstr_Some: "cstr s = Some t \<longleftrightarrow> 0 \<notin> set t \<and> (\<exists>r. s = t @ 0 # r)"
proof (induction s arbitrary: t)
  case (Cons c s)
  then show ?case by (cases t) auto
qed simp

lemma cstr_append [simp]: "0 \<notin> set t \<Longrightarrow> cstr (t @ 0 # r) = Some t"
  by (auto simp: cstr_Some)

lemma strlen_append [simp]: "0 \<notin> set t \<Longrightarrow> strlen (t @ 0 # r) = Some (length t)"
  by (simp add: strlen_def)

lemma pstrcpy_loop_eq:
  assumes "0 \<notin> set t" "q + min (length t) (e - q) < length buf" "q \<le> e"
  shows "pstrcpy_loop buf q e (t @ 0 # r) =
    Some (take q buf @ take (e - q) t @ 0 # drop (q + min (length t) (e - q) + 1) buf)"
  using assms
proof (induction t arbitrary: buf q)
  case Nil
  then show ?case by (simp add: wr_def upd_conv_take_nth_drop)
next
  case (Cons c t)
  show ?case
  proof (cases "q = e")
    case True
    then show ?thesis using Cons.prems by (simp add: wr_def upd_conv_take_nth_drop)
  next
    case False
    then have qe: "q < e" "e - q = Suc (e - Suc q)" using Cons.prems by auto
    have q: "q < length buf" using Cons.prems by simp
    let ?buf = "buf[q := c]"
    have "pstrcpy_loop ?buf (Suc q) e (t @ 0 # r) =
      Some (take (Suc q) ?buf @ take (e - Suc q) t @ 0 # drop (Suc q + min (length t) (e - Suc q) + 1) ?buf)"
      using Cons.prems qe by (intro Cons.IH) auto
    moreover have "take (Suc q) ?buf = take q buf @ [c]" using q by (simp add: take_Suc_conv_app_nth)
    ultimately show ?thesis using Cons.prems qe q by (simp add: wr_def)
  qed
qed

section \<open>Properties\<close>

text \<open>
  \<^verbatim>\<open>pstrcpy\<close> into a buffer of at least \<^verbatim>\<open>buf_size\<close> bytes stays inside it, always
  terminates the copy, and stores the longest prefix of the source text that fits.
\<close>

theorem pstrcpy_truncates:
  assumes "0 < n" "n \<le> int (length buf)" "cstr str = Some t"
  shows "\<exists>b. pstrcpy buf n str = Some b \<and> length b = length buf \<and> cstr b = Some (take (nat (n - 1)) t) \<and>
    drop (nat n) b = drop (nat n) buf"
proof -
  obtain r where str: "str = t @ 0 # r" and t: "0 \<notin> set t" using assms(3) by (auto simp: cstr_Some)
  let ?e = "nat (n - 1)"
  have e: "Suc ?e \<le> length buf" "nat n = Suc ?e" using assms by linarith+
  let ?b = "take ?e t @ 0 # drop (min (length t) ?e + 1) buf"
  have "pstrcpy buf n str = Some ?b"
    using pstrcpy_loop_eq[of t 0 ?e buf r] t e assms(1) by (simp add: pstrcpy_def pstrcpy_at_def str)
  moreover have "cstr ?b = Some (take ?e t)" by (rule cstr_append) (use t in \<open>auto dest: in_set_takeD\<close>)
  moreover have "length ?b = length buf" using e by simp
  moreover have "drop (nat n) ?b = drop (nat n) buf" using e by (auto simp: min_def Suc_diff_le)
  ultimately show ?thesis by blast
qed

theorem pstrcpy_truncates_witness:
  "\<exists>b. pstrcpy [9, 9, 9, 9, 9] 3 [65, 66, 67, 0] = Some b \<and> length b = length ([9, 9, 9, 9, 9] :: u8 list) \<and>
    cstr b = Some (take (nat (3 - 1)) [65, 66, 67]) \<and> drop (nat 3) b = drop (nat 3) [9, 9, 9, 9, 9]"
  by (rule pstrcpy_truncates) simp_all

text \<open>
  \<^verbatim>\<open>pstrcat\<close> appends to the text already in the buffer, truncated to the buffer size.
\<close>

theorem pstrcat_truncates:
  assumes "cstr buf = Some u" "int (length u) < n" "n \<le> int (length buf)" "cstr s = Some t"
  shows "\<exists>b. pstrcat buf n s = Some b \<and> length b = length buf \<and> cstr b = Some (take (nat (n - 1)) (u @ t))"
proof -
  obtain r where s: "s = t @ 0 # r" and t: "0 \<notin> set t" using assms(4) by (auto simp: cstr_Some)
  obtain r' where buf: "buf = u @ 0 # r'" and u: "0 \<notin> set u" using assms(1) by (auto simp: cstr_Some)
  let ?q = "length u" and ?e = "nat (n - 1)"
  have e: "Suc ?e \<le> length buf" "?q \<le> ?e" "?q + nat (n - int ?q - 1) = ?e" using assms by linarith+
  let ?b = "take ?q buf @ take (?e - ?q) t @ 0 # drop (?q + min (length t) (?e - ?q) + 1) buf"
  have "pstrcat buf n s = Some ?b"
    using pstrcpy_loop_eq[of t ?q ?e buf r] t e u assms(1,2)
    by (simp add: pstrcat_def pstrcpy_at_def s strlen_def)
  moreover have "?b = take ?e (u @ t) @ 0 # drop (?q + min (length t) (?e - ?q) + 1) buf"
    using e by (simp add: buf)
  moreover have "cstr (take ?e (u @ t) @ 0 # x) = Some (take ?e (u @ t))" for x
    by (rule cstr_append) (use t u in \<open>auto dest: in_set_takeD\<close>)
  moreover have "length ?b = length buf" using e by simp
  ultimately show ?thesis by metis
qed

theorem pstrcat_truncates_witness:
  "\<exists>b. pstrcat [65, 0, 9, 9] 4 [66, 67, 68, 0] = Some b \<and> length b = length ([65, 0, 9, 9] :: u8 list) \<and>
    cstr b = Some (take (nat (4 - 1)) ([65] @ [66, 67, 68]))"
  by (rule pstrcat_truncates) simp_all

text \<open>
  On terminated strings \<^verbatim>\<open>strstart\<close> reads no byte past either terminator, succeeds exactly
  when the second text is a prefix of the first and then points just after it; \<^verbatim>\<open>has_suffix\<close>
  decides whether the second text is a suffix.
\<close>

theorem prefix_suffix_tests:
  assumes "cstr p = Some s" "cstr q = Some t"
  shows "(if prefix t s then strstart p q = Some (1, Some (drop (length t) p)) else strstart p q = Some (0, None)) \<and>
    has_suffix p q = Some (suffix t s)"
proof -
  obtain r where q: "q = t @ 0 # r" and t: "0 \<notin> set t" using assms(2) by (auto simp: cstr_Some)
  obtain r' where p: "p = s @ 0 # r'" and s: "0 \<notin> set s" using assms(1) by (auto simp: cstr_Some)
  have "if prefix t s then strstart (s @ 0 # r') (t @ 0 # r) = Some (1, Some (drop (length t) (s @ 0 # r')))
     else strstart (s @ 0 # r') (t @ 0 # r) = Some (0, None)"
    using t s
  proof (induction t arbitrary: s)
    case (Cons c t)
    show ?case
    proof (cases s)
      case Nil
      then show ?thesis using Cons.prems by auto
    next
      case (Cons d s')
      then show ?thesis using Cons.IH[of s'] Cons.prems by auto
    qed
  qed simp
  moreover have "suffix t s \<longleftrightarrow> length t \<le> length s \<and> drop (length s - length t) s = t"
    by (auto simp: suffix_def intro: exI[of _ "take (length s - length t) s"])
      (metis append_take_drop_id)
  then have "has_suffix p q = Some (suffix t s)"
    using s t by (auto simp: has_suffix_def p q)
  ultimately show ?thesis by (simp add: p q)
qed

theorem prefix_suffix_tests_witness:
  "strstart [65, 66, 0] [65, 0] = Some (1, Some [66, 0]) \<and> has_suffix [65, 66, 0] [66, 0] = Some True"
  using prefix_suffix_tests[of "[65, 66, 0]" "[65, 66]" "[65, 0]" "[65]"]
    prefix_suffix_tests[of "[65, 66, 0]" "[65, 66]" "[66, 0]" "[66]"]
  by (simp add: suffix_def)

end
