(* ===== verification/Exchange.thy ===== *)
theory Exchange
  imports Qjs_Prelude
begin

text \<open>
  The element exchanges of \<^verbatim>\<open>cutils.c\<close> that \<^verbatim>\<open>rqsort\<close> works with, at the level of bytes. The array is
  a list of bytes whose first byte has the address \<open>base\<close>, pointers into it are offsets. A
  value of a wide integer type is the list of its bytes; an access that is not aligned to its width
  or not inside the array is \<^const>\<open>None\<close>.
\<close>

section \<open>The routines\<close>

type_synonym mem = "u8 list"
type_synonym exchange_f = "nat \<Rightarrow> nat \<Rightarrow> nat \<Rightarrow> nat \<Rightarrow> mem \<Rightarrow> mem option"

definition ld :: "nat \<Rightarrow> nat \<Rightarrow> nat \<Rightarrow> mem \<Rightarrow> u8 list option" where
  "ld w base a m = (if (base + a) mod w = 0 \<and> a + w \<le> length m then Some (slice a w m) else None)"

definition st :: "nat \<Rightarrow> nat \<Rightarrow> nat \<Rightarrow> u8 list \<Rightarrow> mem \<Rightarrow> mem option" where
  "st w base a v m = (if (base + a) mod w = 0 \<and> a + w \<le> length m then Some (splice a v m) else None)"

definition exchange_one :: "nat \<Rightarrow> nat \<Rightarrow> nat \<Rightarrow> nat \<Rightarrow> mem \<Rightarrow> mem option" where
  "exchange_one w base a b m = do {
     t \<leftarrow> ld w base a m;
     v \<leftarrow> ld w base b m;
     m \<leftarrow> st w base a v m;
     st w base b t m }"

text \<open>The loop over units of \<open>w\<close> bytes, each exchanged by \<open>ex\<close>.\<close>

fun exchange_loop :: "(nat \<Rightarrow> nat \<Rightarrow> mem \<Rightarrow> mem option) \<Rightarrow> nat \<Rightarrow> nat \<Rightarrow> nat \<Rightarrow> nat \<Rightarrow> mem \<Rightarrow> mem option" where
  "exchange_loop ex w 0 a b m = Some m"
| "exchange_loop ex w (Suc n) a b m = do {
     m \<leftarrow> ex a b m;
     exchange_loop ex w n (a + w) (b + w) m }"

definition exchange_bytes :: exchange_f where
  "exchange_bytes base a b sz m = exchange_loop (exchange_one 1 base) 1 sz a b m"

definition exchange_one_byte :: exchange_f where
  "exchange_one_byte base a b sz m = exchange_one 1 base a b m"

definition exchange_int16s :: exchange_f where
  "exchange_int16s base a b sz m = exchange_loop (exchange_one 2 base) 2 (sz div 2) a b m"

definition exchange_one_int16 :: exchange_f where
  "exchange_one_int16 base a b sz m = exchange_one 2 base a b m"

definition exchange_int32s :: exchange_f where
  "exchange_int32s base a b sz m = exchange_loop (exchange_one 4 base) 4 (sz div 4) a b m"

definition exchange_one_int32 :: exchange_f where
  "exchange_one_int32 base a b sz m = exchange_one 4 base a b m"

definition exchange_int64s :: exchange_f where
  "exchange_int64s base a b sz m = exchange_loop (exchange_one 8 base) 8 (sz div 8) a b m"

definition exchange_one_int64 :: exchange_f where
  "exchange_one_int64 base a b sz m = exchange_one 8 base a b m"

definition exchange_one_int128 :: exchange_f where
  "exchange_one_int128 base a b sz m = do {
     t \<leftarrow> ld 8 base a m;
     u \<leftarrow> ld 8 base (a + 8) m;
     v \<leftarrow> ld 8 base b m;
     m \<leftarrow> st 8 base a v m;
     v \<leftarrow> ld 8 base (b + 8) m;
     m \<leftarrow> st 8 base (a + 8) v m;
     m \<leftarrow> st 8 base b t m;
     st 8 base (b + 8) u m }"

definition exchange_int128s :: exchange_f where
  "exchange_int128s base a b sz m = exchange_loop (\<lambda>a b. exchange_one_int128 base a b sz) 16 (sz div 16) a b m"

definition exchange_func :: "nat \<Rightarrow> nat \<Rightarrow> exchange_f" where
  "exchange_func base sz =
     (let k = (base OR sz) AND 15 in
      if k = 0 then (if sz = 16 then exchange_one_int128 else exchange_int128s)
      else if k = 8 then (if sz = 8 then exchange_one_int64 else exchange_int64s)
      else if k = 4 \<or> k = 12 then (if sz = 4 then exchange_one_int32 else exchange_int32s)
      else if k = 2 \<or> k = 6 \<or> k = 10 \<or> k = 14 then
        (if sz = 2 then exchange_one_int16 else exchange_int16s)
      else (if sz = 1 then exchange_one_byte else exchange_bytes))"

section \<open>Exchanged blocks\<close>

text \<open>The bytes of \<open>r\<close> are those of \<open>m\<close> with the blocks of \<open>n\<close> bytes at \<open>a\<close> and \<open>b\<close> exchanged.\<close>

definition exchanged :: "nat \<Rightarrow> nat \<Rightarrow> nat \<Rightarrow> mem \<Rightarrow> mem \<Rightarrow> bool" where
  "exchanged a b n m r \<longleftrightarrow> length r = length m \<and>
     (\<forall>k < length m. r ! k = (if a \<le> k \<and> k < a + n then m ! (b + (k - a))
        else if b \<le> k \<and> k < b + n then m ! (a + (k - b)) else m ! k))"

definition blocks_ok :: "nat \<Rightarrow> nat \<Rightarrow> nat \<Rightarrow> mem \<Rightarrow> bool" where
  "blocks_ok a b n m \<longleftrightarrow> a + n \<le> length m \<and> b + n \<le> length m \<and> (a + n \<le> b \<or> b + n \<le> a \<or> a = b)"

lemma exchanged_0 [simp]: "exchanged a b 0 m m"
  by (auto simp: exchanged_def)

lemma exchanged_compose:
  assumes m1: "exchanged a b w m m1" and r: "exchanged (a + w) (b + w) n m1 r"
    and ok: "blocks_ok a b (w + n) m"
  shows "exchanged a b (w + n) m r"
proof -
  have L: "length m1 = length m" "length r = length m" using m1 r by (auto simp: exchanged_def)
  have one: "m1 ! k = (if a \<le> k \<and> k < a + w then m ! (b + (k - a))
        else if b \<le> k \<and> k < b + w then m ! (a + (k - b)) else m ! k)" if "k < length m" for k
    using m1 that by (simp add: exchanged_def)
  have two: "r ! k = (if a + w \<le> k \<and> k < a + w + n then m1 ! (b + w + (k - (a + w)))
        else if b + w \<le> k \<and> k < b + w + n then m1 ! (a + w + (k - (b + w))) else m1 ! k)"
    if "k < length m" for k using r that L by (simp add: exchanged_def)
  have "r ! k = (if a \<le> k \<and> k < a + (w + n) then m ! (b + (k - a))
        else if b \<le> k \<and> k < b + (w + n) then m ! (a + (k - b)) else m ! k)" if k: "k < length m" for k
  proof -
    consider (A2) "a + w \<le> k" "k < a + w + n" | (B2) "\<not> (a + w \<le> k \<and> k < a + w + n)" "b + w \<le> k" "k < b + w + n"
      | (rest) "\<not> (a + w \<le> k \<and> k < a + w + n)" "\<not> (b + w \<le> k \<and> k < b + w + n)" by blast
    then show ?thesis
    proof cases
      case A2
      then have "b + w + (k - (a + w)) = b + (k - a)" by simp
      then show ?thesis using A2 two[OF k] one[of "b + (k - a)"] ok by (auto simp: blocks_ok_def)
    next
      case B2
      then have "a + w + (k - (b + w)) = a + (k - b)" by simp
      then show ?thesis using B2 two[OF k] one[of "a + (k - b)"] ok by (auto simp: blocks_ok_def)
    next
      case rest
      then show ?thesis using two[OF k] one[OF k] by auto
    qed
  qed
  then show ?thesis using L by (simp add: exchanged_def)
qed

lemma exchange_one_exchanged:
  assumes "blocks_ok a b w m" "(base + a) mod w = 0" "(base + b) mod w = 0"
  shows "\<exists>r. exchange_one w base a b m = Some r \<and> exchanged a b w m r"
  using assms by (auto simp: exchange_one_def ld_def st_def blocks_ok_def exchanged_def nth_splice)

lemma exchange_loop_exchanged:
  assumes ex: "\<And>a b m. blocks_ok a b w m \<Longrightarrow> al a \<Longrightarrow> al b \<Longrightarrow> \<exists>r. ex a b m = Some r \<and> exchanged a b w m r"
    and al: "\<And>a. al a \<Longrightarrow> al (a + w)"
  shows "blocks_ok a b (n * w) m \<Longrightarrow> al a \<Longrightarrow> al b \<Longrightarrow>
   \<exists>r. exchange_loop ex w n a b m = Some r \<and> exchanged a b (n * w) m r"
proof (induction n arbitrary: a b m)
  case (Suc n)
  have ok: "blocks_ok a b w m" using Suc.prems(1) by (auto simp: blocks_ok_def)
  obtain m1 where m1: "ex a b m = Some m1" "exchanged a b w m m1"
    using ex[OF ok Suc.prems(2,3)] by blast
  have L: "length m1 = length m" using m1(2) by (simp add: exchanged_def)
  have "blocks_ok (a + w) (b + w) (n * w) m1" using Suc.prems(1) L by (auto simp: blocks_ok_def)
  from Suc.IH[OF this al[OF Suc.prems(2)] al[OF Suc.prems(3)]]
  obtain r where r: "exchange_loop ex w n (a + w) (b + w) m1 = Some r"
      "exchanged (a + w) (b + w) (n * w) m1 r" by blast
  then have "exchanged a b (Suc n * w) m r"
    using exchanged_compose[OF m1(2) r(2)] Suc.prems(1) by simp
  then show ?case using m1(1) r(1) by simp
qed simp

lemma exchange_one_int128_exchanged:
  assumes "blocks_ok a b 16 m" "(base + a) mod 8 = 0" "(base + b) mod 8 = 0"
  shows "\<exists>r. exchange_one_int128 base a b sz m = Some r \<and> exchanged a b 16 m r"
proof -
  have al: "(base + (a + 8)) mod 8 = 0" "(base + (b + 8)) mod 8 = 0"
    using assms(2,3) by (simp_all flip: add.assoc)
  have len: "a + 16 \<le> length m" "b + 16 \<le> length m" using assms(1) by (auto simp: blocks_ok_def)
  define m1 where "m1 = splice a (slice b 8 m) m"
  define m2 where "m2 = splice (a + 8) (slice (b + 8) 8 m1) m1"
  define m3 where "m3 = splice b (slice a 8 m) m2"
  define m4 where "m4 = splice (b + 8) (slice (a + 8) 8 m) m3"
  have L: "length m1 = length m" "length m2 = length m" "length m3 = length m" "length m4 = length m"
    using len by (simp_all add: m1_def m2_def m3_def m4_def)
  have eq: "exchange_one_int128 base a b sz m = Some m4"
    using assms(2,3) al len L
    by (simp add: exchange_one_int128_def ld_def st_def m1_def[symmetric] m2_def[symmetric]
        m3_def[symmetric] m4_def[symmetric])
  have n1: "m1 ! k = (if a \<le> k \<and> k < a + 8 then m ! (b + (k - a)) else m ! k)" if "k < length m" for k
    using that len by (auto simp: m1_def nth_splice)
  have n2: "m2 ! k = (if a + 8 \<le> k \<and> k < a + 16 then m1 ! (b + (k - a)) else m1 ! k)" if "k < length m" for k
    using that len L by (auto simp: m2_def nth_splice)
  have n3: "m3 ! k = (if b \<le> k \<and> k < b + 8 then m ! (a + (k - b)) else m2 ! k)" if "k < length m" for k
    using that len L by (auto simp: m3_def nth_splice)
  have n4: "m4 ! k = (if b + 8 \<le> k \<and> k < b + 16 then m ! (a + (k - b)) else m3 ! k)" if "k < length m" for k
    using that len L by (auto simp: m4_def nth_splice)
  have "m4 ! k = (if a \<le> k \<and> k < a + 16 then m ! (b + (k - a))
      else if b \<le> k \<and> k < b + 16 then m ! (a + (k - b)) else m ! k)" if k: "k < length m" for k
  proof (cases "b \<le> k \<and> k < b + 16")
    case True
    then show ?thesis using n4[OF k] n3[OF k] assms(1) by (auto simp: blocks_ok_def)
  next
    case False
    then show ?thesis
      using n4[OF k] n3[OF k] n2[OF k] n1[OF k] n1[of "b + (k - a)"] assms(1)
      by (auto simp: blocks_ok_def)
  qed
  then show ?thesis using eq L by (simp add: exchanged_def)
qed

section \<open>The choice of a routine\<close>

lemma or_mod_pow2: "((x :: nat) OR y) mod 2 ^ k = 0 \<longleftrightarrow> x mod 2 ^ k = 0 \<and> y mod 2 ^ k = 0"
proof -
  have "a OR b = 0 \<longleftrightarrow> a = 0 \<and> b = 0" for a b :: nat by (auto simp: bit_eq_iff bit_or_iff)
  then show ?thesis by (simp flip: take_bit_eq_mod)
qed

lemma or_mod_units:
  "((x :: nat) OR y) mod 2 = 0 \<longleftrightarrow> x mod 2 = 0 \<and> y mod 2 = 0"
  "(x OR y) mod 4 = 0 \<longleftrightarrow> x mod 4 = 0 \<and> y mod 4 = 0"
  "(x OR y) mod 8 = 0 \<longleftrightarrow> x mod 8 = 0 \<and> y mod 8 = 0"
  "(x OR y) mod 16 = 0 \<longleftrightarrow> x mod 16 = 0 \<and> y mod 16 = 0"
  using or_mod_pow2[of x y 1] or_mod_pow2[of x y 2] or_mod_pow2[of x y 3] or_mod_pow2[of x y 4] by simp_all

lemma and_15: "(x :: nat) AND 15 = x mod 16"
  using take_bit_eq_mask[of 4 x] by (simp add: take_bit_eq_mod mask_eq_exp_minus_1)

text \<open>
  The units of the loops: every one of them exchanges blocks whose length is a multiple of its
  unit, at offsets where the unit is aligned.
\<close>

lemma units_exchanged:
  assumes "blocks_ok a b sz m"
  shows "(base + a) mod 16 = 0 \<Longrightarrow> (base + b) mod 16 = 0 \<Longrightarrow> sz mod 16 = 0 \<Longrightarrow>
      \<exists>r. exchange_int128s base a b sz m = Some r \<and> exchanged a b sz m r"
    "(base + a) mod 8 = 0 \<Longrightarrow> (base + b) mod 8 = 0 \<Longrightarrow> sz mod 8 = 0 \<Longrightarrow>
      \<exists>r. exchange_int64s base a b sz m = Some r \<and> exchanged a b sz m r"
    "(base + a) mod 4 = 0 \<Longrightarrow> (base + b) mod 4 = 0 \<Longrightarrow> sz mod 4 = 0 \<Longrightarrow>
      \<exists>r. exchange_int32s base a b sz m = Some r \<and> exchanged a b sz m r"
    "(base + a) mod 2 = 0 \<Longrightarrow> (base + b) mod 2 = 0 \<Longrightarrow> sz mod 2 = 0 \<Longrightarrow>
      \<exists>r. exchange_int16s base a b sz m = Some r \<and> exchanged a b sz m r"
    "\<exists>r. exchange_bytes base a b sz m = Some r \<and> exchanged a b sz m r"
proof -
  have mult: "sz div w * w = sz" if "sz mod w = 0" for w :: nat using that by (simp add: mod_0_imp_dvd)
  have step: "(base + a') mod w = 0 \<Longrightarrow> (base + (a' + w)) mod w = 0" for a' w
    by (simp flip: add.assoc)
  have loop: "\<exists>r. exchange_loop (exchange_one w base) w (sz div w) a b m = Some r \<and> exchanged a b sz m r"
    if "(base + a) mod w = 0" "(base + b) mod w = 0" "sz mod w = 0" for w
    using exchange_loop_exchanged[of w "\<lambda>a. (base + a) mod w = 0" "exchange_one w base" a b "sz div w" m]
      exchange_one_exchanged step that assms by (simp add: mult)
  show "(base + a) mod 8 = 0 \<Longrightarrow> (base + b) mod 8 = 0 \<Longrightarrow> sz mod 8 = 0 \<Longrightarrow>
      \<exists>r. exchange_int64s base a b sz m = Some r \<and> exchanged a b sz m r"
    "(base + a) mod 4 = 0 \<Longrightarrow> (base + b) mod 4 = 0 \<Longrightarrow> sz mod 4 = 0 \<Longrightarrow>
      \<exists>r. exchange_int32s base a b sz m = Some r \<and> exchanged a b sz m r"
    "(base + a) mod 2 = 0 \<Longrightarrow> (base + b) mod 2 = 0 \<Longrightarrow> sz mod 2 = 0 \<Longrightarrow>
      \<exists>r. exchange_int16s base a b sz m = Some r \<and> exchanged a b sz m r"
    unfolding exchange_int64s_def exchange_int32s_def exchange_int16s_def by (fact loop)+
  show "\<exists>r. exchange_bytes base a b sz m = Some r \<and> exchanged a b sz m r"
    using loop[of 1] by (simp add: exchange_bytes_def)
  assume al: "(base + a) mod 16 = 0" "(base + b) mod 16 = 0" "sz mod 16 = 0"
  have al8: "(base + a') mod 16 = 0 \<Longrightarrow> (base + a') mod 8 = 0" for a' by presburger
  show "\<exists>r. exchange_int128s base a b sz m = Some r \<and> exchanged a b sz m r"
    unfolding exchange_int128s_def
    using exchange_loop_exchanged[of 16 "\<lambda>a. (base + a) mod 16 = 0"
        "\<lambda>a b. exchange_one_int128 base a b sz" a b "sz div 16" m]
      exchange_one_int128_exchanged al8 step[of _ 16] al assms by (simp add: mult)
qed

text \<open>The routine selected for an address and a size exchanges blocks at multiples of the size.\<close>

lemma exchange_func_exchanged:
  assumes ok: "blocks_ok (i * sz) (j * sz) n m" and n: "n mod sz = 0"
    and one: "n = sz' \<or> sz' \<notin> {1, 2, 4, 8, 16}"
    and sz': "\<And>w. w \<in> {2, 4, 8, 16} \<Longrightarrow> sz' mod w = 0 \<longleftrightarrow> sz mod w = 0"
  shows "\<exists>r. exchange_func base sz' base (i * sz) (j * sz) n m = Some r \<and> exchanged (i * sz) (j * sz) n m r"
proof -
  define k where "k = (base OR sz') mod 16"
  have al: "(base + i * sz) mod w = 0 \<and> (base + j * sz) mod w = 0 \<and> n mod w = 0"
    if "base mod w = 0" "sz mod w = 0" for w
  proof -
    have "w dvd base" "w dvd sz" "sz dvd n" using that n by auto
    then show ?thesis by (meson dvd_add dvd_mult dvd_trans mod_0_imp_dvd dvd_imp_mod_0)
  qed
  have k16: "k = 0 \<longleftrightarrow> base mod 16 = 0 \<and> sz mod 16 = 0"
    using sz'[of 16] by (simp add: k_def or_mod_units)
  have k8: "k mod 8 = 0 \<longleftrightarrow> base mod 8 = 0 \<and> sz mod 8 = 0"
    using sz'[of 8] by (simp add: k_def mod_mod_cancel or_mod_units)
  have k4: "k mod 4 = 0 \<longleftrightarrow> base mod 4 = 0 \<and> sz mod 4 = 0"
    using sz'[of 4] by (simp add: k_def mod_mod_cancel or_mod_units)
  have k2: "k mod 2 = 0 \<longleftrightarrow> base mod 2 = 0 \<and> sz mod 2 = 0"
    using sz'[of 2] by (simp add: k_def mod_mod_cancel or_mod_units)
  note un = units_exchanged[OF ok, of base] and o = exchange_one_exchanged[of "i * sz" "j * sz" _ m base]
  consider "k = 0" | "k = 8" | "k = 4 \<or> k = 12" | "k = 2 \<or> k = 6 \<or> k = 10 \<or> k = 14"
    | "k \<notin> {0, 8, 4, 12, 2, 6, 10, 14}" by blast
  then show ?thesis
  proof cases
    case 1
    then have *: "base mod 16 = 0" "sz mod 16 = 0" "base mod 8 = 0" "sz mod 8 = 0" using k16 k8 by auto
    show ?thesis using 1 al[OF *(1,2)] al[OF *(3,4)] un(1) one ok
        exchange_one_int128_exchanged[of "i * sz" "j * sz" m base n]
      by (auto simp: exchange_func_def and_15 k_def[symmetric])
  next
    case 2
    then have *: "base mod 8 = 0" "sz mod 8 = 0" using k8 by auto
    show ?thesis using 2 al[OF *] un(2) one ok o[of 8]
      by (auto simp: exchange_func_def and_15 k_def[symmetric] exchange_one_int64_def)
  next
    case 3
    then have *: "base mod 4 = 0" "sz mod 4 = 0" using k4 by auto
    show ?thesis using 3 al[OF *] un(3) one ok o[of 4]
      by (auto simp: exchange_func_def and_15 k_def[symmetric] exchange_one_int32_def)
  next
    case 4
    then have *: "base mod 2 = 0" "sz mod 2 = 0" using k2 by auto
    show ?thesis using 4 al[OF *] un(4) one ok o[of 2]
      by (auto simp: exchange_func_def and_15 k_def[symmetric] exchange_one_int16_def)
  next
    case 5
    then show ?thesis using un(5) one ok o[of 1]
      by (auto simp: exchange_func_def and_15 k_def[symmetric] exchange_one_byte_def)
  qed
qed

section \<open>Elements\<close>

text \<open>The bytes of an array of elements of \<open>sz\<close> bytes each.\<close>

lemma length_concat_uniform: "\<forall>x\<in>set els. length x = sz \<Longrightarrow> length (concat els) = length els * sz"
  by (induction els) auto

lemma nth_concat_uniform:
  "\<forall>x\<in>set els. length x = sz \<Longrightarrow> k < length els * sz \<Longrightarrow> concat els ! k = els ! (k div sz) ! (k mod sz)"
proof (induction els arbitrary: k)
  case (Cons e els)
  show ?case
  proof (cases "k < sz")
    case True
    then show ?thesis using Cons.prems by (simp add: nth_append)
  next
    case False
    have "0 < sz" using Cons.prems(2) by (cases sz) auto
    then have "k div sz = Suc ((k - sz) div sz)" "k mod sz = (k - sz) mod sz"
      using False by (auto simp: le_div_geq le_mod_geq)
    then show ?thesis using False Cons.IH[of "k - sz"] Cons.prems by (simp add: nth_append)
  qed
qed simp

lemma in_element:
  assumes "0 < sz"
  shows "i * sz \<le> k \<and> k < i * sz + sz \<longleftrightarrow> k div sz = (i::nat)"
proof
  assume "i * sz \<le> k \<and> k < i * sz + sz"
  then show "k div sz = i" by (intro div_nat_eqI) (auto simp: mult.commute)
next
  assume "k div sz = i"
  then have "k = i * sz + k mod sz" by (metis div_mult_mod_eq)
  then show "i * sz \<le> k \<and> k < i * sz + sz" using mod_less_divisor[OF assms, of k] by linarith
qed

lemma exchanged_elements:
  assumes len: "\<forall>x\<in>set els. length x = sz" and sz: "0 < sz" and ij: "i < length els" "j < length els"
    and ex: "exchanged (i * sz) (j * sz) sz (concat els) r"
  shows "r = concat (swap_at i j els)"
proof (rule nth_equalityI)
  let ?ys = "swap_at i j els"
  have set: "set ?ys = set els" using ij by (intro mset_eq_setD mset_swap_at)
  have leny: "\<forall>x\<in>set ?ys. length x = sz" using len set by blast
  note L = length_concat_uniform[OF len] length_concat_uniform[OF leny]
  show lr: "length r = length (concat ?ys)" using ex L by (simp add: exchanged_def)
  fix k assume "k < length r"
  then have k: "k < length els * sz" using lr L by simp
  then have q: "k div sz < length els" by (simp add: less_mult_imp_div_less)
  have el: "concat els ! (p * sz + (k - q * sz)) = els ! p ! (k mod sz)"
    if "p < length els" "k div sz = q" for p q
  proof -
    have e: "k - q * sz = k mod sz" using that(2) by (simp add: minus_div_mult_eq_mod[symmetric])
    have "p * sz + k mod sz < Suc p * sz" using sz by simp
    also have "\<dots> \<le> length els * sz" using that(1) by (intro mult_le_mono1) simp
    finally show ?thesis using sz nth_concat_uniform[OF len, of "p * sz + k mod sz"] by (simp add: e)
  qed
  have "r ! k = (if k div sz = i then concat els ! (j * sz + (k - i * sz))
      else if k div sz = j then concat els ! (i * sz + (k - j * sz)) else concat els ! k)"
    using ex k L(1) unfolding exchanged_def in_element[OF sz] by simp
  also have "\<dots> = els ! (if k div sz = i then j else if k div sz = j then i else k div sz) ! (k mod sz)"
    using el ij nth_concat_uniform[OF len k] by simp
  also have "\<dots> = ?ys ! (k div sz) ! (k mod sz)" using q ij by (simp add: nth_swap_at)
  also have "\<dots> = concat ?ys ! k" using nth_concat_uniform[OF leny, of k] k by simp
  finally show "r ! k = concat ?ys ! k" .
qed

lemma blocks_ok_elements:
  assumes "i < length els" "j < length els" "\<forall>x\<in>set els. length x = sz"
  shows "blocks_ok (i * sz) (j * sz) sz (concat els)"
proof -
  have le: "p * sz + sz \<le> q * sz" if "p < q" for p q using mult_le_mono1[of "Suc p" q sz] that by simp
  have "i * sz + sz \<le> j * sz \<or> j * sz + sz \<le> i * sz \<or> i = j" using le[of i j] le[of j i] by linarith
  then show ?thesis using le[OF assms(1)] le[OF assms(2)] length_concat_uniform[OF assms(3)]
    by (auto simp: blocks_ok_def)
qed

section \<open>Properties\<close>

text \<open>
  C14. The routine that \<^verbatim>\<open>exchange_func\<close> picks from the address of an array and the size of its
  elements makes only aligned accesses inside the array and exchanges any two of its elements;
  on the list of the elements it is \<^const>\<open>swap_at\<close>.
\<close>

theorem exchange_func_swaps:
  assumes "0 < sz" "\<forall>x\<in>set els. length x = sz" "i < length els" "j < length els"
  shows "exchange_func base sz base (i * sz) (j * sz) sz (concat els) = Some (concat (swap_at i j els))"
proof -
  have "\<exists>r. exchange_func base sz base (i * sz) (j * sz) sz (concat els) = Some r \<and>
      exchanged (i * sz) (j * sz) sz (concat els) r"
    by (rule exchange_func_exchanged) (use blocks_ok_elements assms in auto)
  then show ?thesis using exchanged_elements[OF assms(2,1,3,4)] by blast
qed

theorem exchange_func_swaps_witness:
  "exchange_func 4096 2 4096 (0 * 2) (2 * 2) 2 (concat [[1, 2], [3, 4], [5, 6]])
   = Some (concat (swap_at 0 2 [[1, 2], [3, 4], [5, 6]]))"
  by (rule exchange_func_swaps) auto

text \<open>
  C15. The routine picked for the block swaps of \<^verbatim>\<open>rqsort\<close>, whose size argument is \<^verbatim>\<open>size | 128\<close>, makes
  only aligned accesses inside the array and exchanges two disjoint blocks of several elements.
\<close>

theorem swap_block_exchanges:
  assumes "blocks_ok (i * sz) (j * sz) (n * sz) m"
  shows "\<exists>r. exchange_func base (sz OR 128) base (i * sz) (j * sz) (n * sz) m = Some r \<and>
             exchanged (i * sz) (j * sz) (n * sz) m r"
proof (rule exchange_func_exchanged[OF assms])
  have "bit (128::nat) 7" by (simp add: bit_iff_odd)
  then have "bit (sz OR 128) 7" by (simp add: bit_or_iff)
  moreover have "\<not> bit x 7" if "x \<in> {1, 2, 4, 8, 16}" for x :: nat using that by (auto simp: bit_iff_odd)
  ultimately show "n * sz = sz OR 128 \<or> sz OR 128 \<notin> {1, 2, 4, 8, 16}" by metis
  show "(sz OR 128) mod w = 0 \<longleftrightarrow> sz mod w = 0" if "w \<in> {2, 4, 8, 16}" for w
  proof -
    have "w = 2 \<or> w = 4 \<or> w = 8 \<or> w = 16" using that by simp
    moreover have "(128::nat) mod 2 = 0" "(128::nat) mod 4 = 0" "(128::nat) mod 8 = 0" "(128::nat) mod 16 = 0"
      by simp_all
    ultimately show ?thesis using or_mod_units[of sz 128] by metis
  qed
qed simp

theorem swap_block_exchanges_witness:
  "\<exists>r. exchange_func 4096 (2 OR 128) 4096 (0 * 2) (3 * 2) (2 * 2) [1, 2, 3, 4, 5, 6, 7, 8, 9, 10] = Some r \<and>
       exchanged (0 * 2) (3 * 2) (2 * 2) [1, 2, 3, 4, 5, 6, 7, 8, 9, 10] r"
  by (rule swap_block_exchanges) (simp add: blocks_ok_def)

end
