(* ===== verification/Heapsort.thy ===== *)
theory Heapsort
  imports Qjs_Prelude
begin

text \<open>
  The two simple sorts of \<^verbatim>\<open>cutils.c\<close>: \<^verbatim>\<open>heapsortx\<close>, to which \<^verbatim>\<open>rqsort\<close> falls back when its
  recursion gets too deep, and the insertion sort it uses on fragments of at most six elements.
  The array is the list of its elements, so an offset that is a multiple of the element size is
  an index. The comparison callback is a parameter; what the sorts need of it is the interface
  \<open>cmp_order\<close>.
\<close>

section \<open>The routines\<close>

type_synonym 'a cmp_f = "'a \<Rightarrow> 'a \<Rightarrow> int"

text \<open>The loop that sinks the element at \<open>r\<close> in the heap of the first \<open>n\<close> elements.\<close>

function sift :: "'a cmp_f \<Rightarrow> nat \<Rightarrow> nat \<Rightarrow> 'a list \<Rightarrow> 'a list" where
  "sift cmp n r xs =
     (let c = r * 2 + 1 in
      if c < n then
        (let c = (if c < n - 1 \<and> cmp (xs ! c) (xs ! (c + 1)) \<le> 0 then c + 1 else c) in
         if cmp (xs ! r) (xs ! c) > 0 then xs
         else sift cmp n c (swap_at r c xs))
      else xs)"
  by pat_completeness auto
termination
  by (relation "measure (\<lambda>(cmp, n, r, xs). n - r)") (auto split: if_splits)

declare sift.simps [simp del]

text \<open>The two loops of \<^verbatim>\<open>heapsortx\<close>: building the heap, then extracting the maximum.\<close>

fun heap_build :: "'a cmp_f \<Rightarrow> nat \<Rightarrow> nat \<Rightarrow> 'a list \<Rightarrow> 'a list" where
  "heap_build cmp n 0 xs = xs"
| "heap_build cmp n (Suc i) xs = heap_build cmp n i (sift cmp n i xs)"

fun heap_extract :: "'a cmp_f \<Rightarrow> nat \<Rightarrow> 'a list \<Rightarrow> 'a list" where
  "heap_extract cmp 0 xs = xs"
| "heap_extract cmp (Suc i) xs = heap_extract cmp i (sift cmp (Suc i) 0 (swap_at 0 (Suc i) xs))"

definition heapsortx :: "'a cmp_f \<Rightarrow> 'a list \<Rightarrow> 'a list" where
  "heapsortx cmp xs =
     (let nmemb = length xs in
      if nmemb > 1 then heap_extract cmp (nmemb - 1) (heap_build cmp nmemb (nmemb div 2) xs) else xs)"

text \<open>The insertion sort of small fragments.\<close>

fun insert_down :: "'a cmp_f \<Rightarrow> nat \<Rightarrow> 'a list \<Rightarrow> 'a list" where
  "insert_down cmp 0 xs = xs"
| "insert_down cmp (Suc j) xs =
     (if cmp (xs ! j) (xs ! Suc j) > 0 then insert_down cmp j (swap_at (Suc j) j xs) else xs)"

fun insertion_from :: "'a cmp_f \<Rightarrow> nat \<Rightarrow> nat \<Rightarrow> 'a list \<Rightarrow> 'a list" where
  "insertion_from cmp i 0 xs = xs"
| "insertion_from cmp i (Suc k) xs = insertion_from cmp (Suc i) k (insert_down cmp i xs)"

definition insertion_sort :: "'a cmp_f \<Rightarrow> 'a list \<Rightarrow> 'a list" where
  "insertion_sort cmp xs = insertion_from cmp 1 (length xs - 1) xs"

section \<open>The contract of a comparison\<close>

definition cmp_ok :: "'a cmp_f \<Rightarrow> bool" where
  "cmp_ok cmp \<longleftrightarrow> (\<forall>a b. cmp a b < 0 \<longleftrightarrow> 0 < cmp b a) \<and>
     (\<forall>a b c. cmp a b \<le> 0 \<longrightarrow> cmp b c \<le> 0 \<longrightarrow> cmp a c \<le> 0)"

abbreviation sorted_cmp :: "'a cmp_f \<Rightarrow> 'a list \<Rightarrow> bool" where
  "sorted_cmp cmp \<equiv> sorted_wrt (\<lambda>a b. cmp a b \<le> 0)"

section \<open>Permutations\<close>

lemma length_sift [simp]: "length (sift cmp n r xs) = length xs"
proof (induction cmp n r xs rule: sift.induct)
  case (1 cmp n r xs)
  then show ?case by (subst sift.simps) (simp add: Let_def)
qed

lemma drop_swap_at: "i < n \<Longrightarrow> j < n \<Longrightarrow> drop n (swap_at i j xs) = drop n xs"
  by (simp add: swap_at_def)

lemma mset_take_swap_at:
  assumes "i < n" "j < n" "n \<le> length xs"
  shows "mset (take n (swap_at i j xs)) = mset (take n xs)"
proof -
  have "take n (swap_at i j xs) = swap_at i j (take n xs)"
    using assms by (simp add: swap_at_def take_update_swap)
  then show ?thesis using assms by simp
qed

lemma drop_sift: "drop n (sift cmp n r xs) = drop n xs"
proof (induction cmp n r xs rule: sift.induct)
  case (1 cmp n r xs)
  then show ?case by (subst sift.simps) (auto simp: Let_def drop_swap_at)
qed

lemma mset_sift: "n \<le> length xs \<Longrightarrow> mset (sift cmp n r xs) = mset xs"
proof (induction cmp n r xs rule: sift.induct)
  case (1 cmp n r xs)
  then show ?case by (subst sift.simps) (auto simp: Let_def)
qed

lemma mset_take_sift:
  assumes "n \<le> length xs"
  shows "mset (take n (sift cmp n r xs)) = mset (take n xs)"
proof -
  have "mset (take n (sift cmp n r xs)) + mset (drop n xs) = mset (take n xs) + mset (drop n xs)"
    using mset_sift[OF assms, of cmp r] drop_sift[of n cmp r xs]
    by (metis append_take_drop_id mset_append)
  then show ?thesis by simp
qed

lemma length_heap_build [simp]: "length (heap_build cmp n i xs) = length xs"
  by (induction i arbitrary: xs) simp_all

lemma mset_heap_build: "n \<le> length xs \<Longrightarrow> mset (heap_build cmp n i xs) = mset xs"
  by (induction i arbitrary: xs) (simp_all add: mset_sift)

lemma length_heap_extract [simp]: "length (heap_extract cmp i xs) = length xs"
  by (induction i arbitrary: xs) simp_all

lemma mset_heap_extract: "i < length xs \<Longrightarrow> mset (heap_extract cmp i xs) = mset xs"
proof (induction i arbitrary: xs)
  case (Suc i)
  then have "0 < length xs" by linarith
  then have "mset (swap_at 0 (Suc i) xs) = mset xs" using Suc.prems by (intro mset_swap_at)
  then show ?case using Suc by (simp add: mset_sift)
qed simp

lemma mset_heapsortx: "mset (heapsortx cmp xs) = mset xs"
  by (simp add: heapsortx_def Let_def mset_heap_extract mset_heap_build)

lemma length_heapsortx [simp]: "length (heapsortx cmp xs) = length xs"
  by (simp add: heapsortx_def Let_def)

lemma length_insert_down [simp]: "length (insert_down cmp j xs) = length xs"
  by (induction j arbitrary: xs) simp_all

lemma mset_insert_down: "j < length xs \<Longrightarrow> mset (insert_down cmp j xs) = mset xs"
  by (induction j arbitrary: xs) simp_all

lemma length_insertion_from [simp]: "length (insertion_from cmp i k xs) = length xs"
  by (induction k arbitrary: i xs) simp_all

lemma mset_insertion_from: "i + k \<le> length xs \<Longrightarrow> mset (insertion_from cmp i k xs) = mset xs"
  by (induction k arbitrary: i xs) (simp_all add: mset_insert_down)

lemma mset_insertion_sort: "mset (insertion_sort cmp xs) = mset xs"
  by (cases xs) (simp_all add: insertion_sort_def mset_insertion_from)

lemma length_insertion_sort [simp]: "length (insertion_sort cmp xs) = length xs"
  by (simp add: insertion_sort_def)

section \<open>Sorted results\<close>

locale cmp_order =
  fixes cmp :: "'a cmp_f"
  assumes cmp_flip: "cmp a b < 0 \<longleftrightarrow> 0 < cmp b a"
    and cmp_trans: "cmp a b \<le> 0 \<Longrightarrow> cmp b c \<le> 0 \<Longrightarrow> cmp a c \<le> 0"
begin

lemma cmp_self: "cmp a a = 0"
  using cmp_flip[of a a] by linarith

lemma cmp_total: "0 < cmp a b \<Longrightarrow> cmp b a \<le> 0"
  using cmp_flip[of b a] by linarith

lemma cmp_total': "\<not> 0 < cmp a b \<Longrightarrow> cmp a b \<le> 0"
  by simp

text \<open>
  Inserting downwards: the elements up to \<open>m\<close> are sorted but for the one at \<open>j\<close>, which is not
  above those behind it.
\<close>

definition ins_inv :: "nat \<Rightarrow> nat \<Rightarrow> 'a list \<Rightarrow> bool" where
  "ins_inv j m xs \<longleftrightarrow>
     (\<forall>a b. a < b \<and> b \<le> m \<and> a \<noteq> j \<and> b \<noteq> j \<longrightarrow> cmp (xs ! a) (xs ! b) \<le> 0) \<and>
     (\<forall>b. j < b \<and> b \<le> m \<longrightarrow> cmp (xs ! j) (xs ! b) \<le> 0)"

lemma ins_inv_step:
  assumes "ins_inv (Suc j) m xs" "Suc j \<le> m" "m < length xs" "0 < cmp (xs ! j) (xs ! Suc j)"
  shows "ins_inv j m (swap_at (Suc j) j xs)"
  using assms cmp_total[OF assms(4)] unfolding ins_inv_def
  by (auto simp: nth_swap_at)

lemma ins_inv_done:
  assumes "ins_inv (Suc j) m xs" "Suc j \<le> m" "\<not> 0 < cmp (xs ! j) (xs ! Suc j)"
  shows "ins_inv 0 m xs"
proof -
  have top: "cmp (xs ! a) (xs ! Suc j) \<le> 0" if "a \<le> j" for a
  proof (cases "a = j")
    case False
    then have "cmp (xs ! a) (xs ! j) \<le> 0" using assms(1,2) that by (auto simp: ins_inv_def)
    then show ?thesis by (rule cmp_trans) (use assms(3) in simp)
  qed (use assms(3) in simp)
  have "cmp (xs ! a) (xs ! b) \<le> 0" if "a < b" "b \<le> m" for a b
    using assms(1) that top[of a] by (cases "a = Suc j"; cases "b = Suc j") (auto simp: ins_inv_def)
  then show ?thesis by (auto simp: ins_inv_def)
qed

lemma insert_down_inv:
  "ins_inv j m xs \<Longrightarrow> j \<le> m \<Longrightarrow> m < length xs \<Longrightarrow> ins_inv 0 m (insert_down cmp j xs)"
proof (induction j arbitrary: xs)
  case (Suc j)
  show ?case
  proof (cases "0 < cmp (xs ! j) (xs ! Suc j)")
    case True
    have "ins_inv j m (swap_at (Suc j) j xs)" using Suc.prems True by (intro ins_inv_step)
    then show ?thesis using Suc.IH[of "swap_at (Suc j) j xs"] Suc.prems True by simp
  next
    case False
    then show ?thesis using ins_inv_done[OF Suc.prems(1,2)] by simp
  qed
qed simp

lemma ins_inv_0: "ins_inv 0 m xs \<longleftrightarrow> (\<forall>a b. a < b \<and> b \<le> m \<longrightarrow> cmp (xs ! a) (xs ! b) \<le> 0)"
proof
  assume h: "ins_inv 0 m xs"
  have "cmp (xs ! a) (xs ! b) \<le> 0" if "a < b" "b \<le> m" for a b
    using h that by (cases a) (auto simp: ins_inv_def)
  then show "\<forall>a b. a < b \<and> b \<le> m \<longrightarrow> cmp (xs ! a) (xs ! b) \<le> 0" by blast
qed (auto simp: ins_inv_def)

lemma ins_inv_extend: "ins_inv 0 m xs \<Longrightarrow> ins_inv (Suc m) (Suc m) xs"
  unfolding ins_inv_0 by (auto simp: ins_inv_def)

lemma insertion_from_inv:
  "ins_inv 0 m xs \<Longrightarrow> Suc m + k = length xs \<Longrightarrow>
   ins_inv 0 (length xs - 1) (insertion_from cmp (Suc m) k xs)"
proof (induction k arbitrary: m xs)
  case 0
  then have "length xs - 1 = m" by simp
  then show ?case using 0 by simp
next
  case (Suc k)
  have "ins_inv 0 (Suc m) (insert_down cmp (Suc m) xs)"
    by (rule insert_down_inv) (use Suc.prems in \<open>auto intro: ins_inv_extend simp del: insert_down.simps\<close>)
  then show ?case using Suc.IH[of "Suc m" "insert_down cmp (Suc m) xs"] Suc.prems(2)
    by (simp del: insert_down.simps)
qed

lemma insertion_sort_sorted: "sorted_cmp cmp (insertion_sort cmp xs)"
proof (cases xs)
  case Nil
  then show ?thesis by (simp add: insertion_sort_def)
next
  case (Cons y ys)
  have "ins_inv 0 0 xs" by (simp add: ins_inv_0)
  then have "ins_inv 0 (length xs - 1) (insertion_sort cmp xs)"
    using insertion_from_inv[of 0 xs "length xs - 1"] Cons by (simp add: insertion_sort_def)
  then show ?thesis unfolding ins_inv_0 sorted_wrt_iff_nth_less by (auto simp: Cons)
qed

text \<open>
  Heaps in an array: \<open>heap_on lo n\<close> orders every element below \<open>n\<close> under its parent, for the
  parents from \<open>lo\<close> on; \<open>heap_but lo n r\<close> leaves out the parent \<open>r\<close>, whose children are still
  under the parent of \<open>r\<close>.
\<close>

definition heap_on :: "nat \<Rightarrow> nat \<Rightarrow> 'a list \<Rightarrow> bool" where
  "heap_on lo n xs \<longleftrightarrow>
     (\<forall>c. 0 < c \<and> c < n \<and> lo \<le> (c - 1) div 2 \<longrightarrow> cmp (xs ! c) (xs ! ((c - 1) div 2)) \<le> 0)"

definition heap_but :: "nat \<Rightarrow> nat \<Rightarrow> nat \<Rightarrow> 'a list \<Rightarrow> bool" where
  "heap_but lo n r xs \<longleftrightarrow>
     (\<forall>c. 0 < c \<and> c < n \<and> lo \<le> (c - 1) div 2 \<and> (c - 1) div 2 \<noteq> r \<longrightarrow>
        cmp (xs ! c) (xs ! ((c - 1) div 2)) \<le> 0) \<and>
     (\<forall>c. 0 < c \<and> c < n \<and> (c - 1) div 2 = r \<and> 0 < r \<and> lo \<le> (r - 1) div 2 \<longrightarrow>
        cmp (xs ! c) (xs ! ((r - 1) div 2)) \<le> 0)"

lemma child_cases:
  assumes "(d - 1) div 2 = r" "0 < (d::nat)"
  obtains "d = r * 2 + 1" | "d = r * 2 + 2"
  using assms by linarith

lemma heap_but_swap:
  assumes h: "heap_but lo n r xs" and n: "n \<le> length xs"
    and c: "(c - 1) div 2 = r" "0 < c" "c < n"
    and up: "cmp (xs ! r) (xs ! c) \<le> 0"
    and big: "\<And>d. 0 < d \<Longrightarrow> d < n \<Longrightarrow> (d - 1) div 2 = r \<Longrightarrow> cmp (xs ! d) (xs ! c) \<le> 0"
  shows "heap_but lo n c (swap_at r c xs)"
proof -
  have rc: "r < c" using c by linarith
  have nth: "swap_at r c xs ! k = (if k = r then xs ! c else if k = c then xs ! r else xs ! k)" for k
    using rc c n by (auto simp: swap_at_def nth_list_update)
  have par: "(k - 1) div 2 < k" if "0 < k" for k :: nat using that by linarith
  have "cmp (swap_at r c xs ! d) (swap_at r c xs ! ((d - 1) div 2)) \<le> 0"
    if d: "0 < d" "d < n" "lo \<le> (d - 1) div 2" "(d - 1) div 2 \<noteq> c" for d
  proof (cases "(d - 1) div 2 = r")
    case True
    then show ?thesis using big[of d] up d rc unfolding nth by auto
  next
    case False
    then show ?thesis using h d c par[of d] rc unfolding nth heap_but_def by auto
  qed
  moreover have "cmp (swap_at r c xs ! d) (swap_at r c xs ! ((c - 1) div 2)) \<le> 0"
    if d: "0 < d" "d < n" "(d - 1) div 2 = c" "lo \<le> (c - 1) div 2" for d
    using h d c par[of d] rc unfolding nth heap_but_def by auto
  ultimately show ?thesis unfolding heap_but_def by blast
qed

lemma heap_but_done:
  assumes "heap_but lo n r xs"
    and "\<And>d. 0 < d \<Longrightarrow> d < n \<Longrightarrow> (d - 1) div 2 = r \<Longrightarrow> cmp (xs ! d) (xs ! r) \<le> 0"
  shows "heap_on lo n xs"
  using assms unfolding heap_but_def heap_on_def by metis

lemma sift_heap: "heap_but lo n r xs \<Longrightarrow> n \<le> length xs \<Longrightarrow> heap_on lo n (sift cmp n r xs)"
proof (induction "n - r" arbitrary: r xs rule: less_induct)
  case (less r xs)
  show ?case
  proof (cases "r * 2 + 1 < n")
    case False
    have "heap_on lo n xs"
      by (rule heap_but_done[OF less.prems(1)]) (use False in linarith)
    then show ?thesis using False by (subst sift.simps) simp
  next
    case True
    define c where "c = (if r * 2 + 1 < n - 1 \<and> cmp (xs ! (r * 2 + 1)) (xs ! (r * 2 + 1 + 1)) \<le> 0
                         then r * 2 + 1 + 1 else r * 2 + 1)"
    have step: "sift cmp n r xs = (if 0 < cmp (xs ! r) (xs ! c) then xs else sift cmp n c (swap_at r c xs))"
      by (subst sift.simps) (simp only: Let_def c_def[symmetric] True if_True)
    have c: "(c - 1) div 2 = r" "0 < c" "c < n" using True by (auto simp: c_def)
    have big: "cmp (xs ! d) (xs ! c) \<le> 0" if "0 < d" "d < n" "(d - 1) div 2 = r" for d
      using that(3,1) by (cases rule: child_cases)
        (use that cmp_total[of "xs ! (r * 2 + 1)" "xs ! (r * 2 + 2)"] in
          \<open>auto simp: c_def cmp_self split: if_splits\<close>)
    show ?thesis
    proof (cases "0 < cmp (xs ! r) (xs ! c)")
      case stop: True
      have "heap_on lo n xs"
        by (rule heap_but_done[OF less.prems(1)]) (use big cmp_total[OF stop] cmp_trans in blast)
      then show ?thesis using step stop by simp
    next
      case False
      have "heap_but lo n c (swap_at r c xs)"
        by (rule heap_but_swap[OF less.prems c]) (use big False in auto)
      then have "heap_on lo n (sift cmp n c (swap_at r c xs))"
        using less.prems(2) c by (intro less.hyps) auto
      then show ?thesis using step False by simp
    qed
  qed
qed

lemma heap_but_of_heap_on: "heap_on (Suc r) n xs \<Longrightarrow> heap_but r n r xs"
proof -
  assume h: "heap_on (Suc r) n xs"
  have "\<not> r \<le> (r - 1) div 2" if "0 < r" using that by linarith
  then show ?thesis using h unfolding heap_but_def heap_on_def by (metis Suc_leI le_neq_implies_less)
qed

lemma heap_build_heap: "heap_on i n xs \<Longrightarrow> n \<le> length xs \<Longrightarrow> heap_on 0 n (heap_build cmp n i xs)"
proof (induction i arbitrary: xs)
  case (Suc i)
  have "heap_on i n (sift cmp n i xs)"
    by (intro sift_heap heap_but_of_heap_on Suc.prems)
  then show ?case using Suc.IH[of "sift cmp n i xs"] Suc.prems(2) by simp
qed simp

lemma heap_on_max: "heap_on 0 n xs \<Longrightarrow> c < n \<Longrightarrow> cmp (xs ! c) (xs ! 0) \<le> 0"
proof (induction c rule: less_induct)
  case (less c)
  show ?case
  proof (cases "c = 0")
    case False
    then have "cmp (xs ! c) (xs ! ((c - 1) div 2)) \<le> 0"
      using less.prems unfolding heap_on_def by auto
    moreover have "cmp (xs ! ((c - 1) div 2)) (xs ! 0) \<le> 0"
      using False less.prems by (intro less.IH) auto
    ultimately show ?thesis by (rule cmp_trans)
  qed (simp add: cmp_self)
qed

definition extract_inv :: "nat \<Rightarrow> 'a list \<Rightarrow> bool" where
  "extract_inv i xs \<longleftrightarrow> heap_on 0 i xs \<and> sorted_cmp cmp (drop i xs) \<and>
     (\<forall>x\<in>set (take i xs). \<forall>y\<in>set (drop i xs). cmp x y \<le> 0)"

lemma extract_inv_step:
  assumes inv: "extract_inv (Suc (Suc i)) xs" and i: "Suc i < length xs"
  shows "extract_inv (Suc i) (sift cmp (Suc i) 0 (swap_at 0 (Suc i) xs))"
proof -
  let ?ys = "swap_at 0 (Suc i) xs" and ?zs = "sift cmp (Suc i) 0 (swap_at 0 (Suc i) xs)"
  have h: "heap_on 0 (Suc (Suc i)) xs"
    and srt: "sorted_cmp cmp (drop (Suc (Suc i)) xs)"
    and below: "\<And>x y. x \<in> set (take (Suc (Suc i)) xs) \<Longrightarrow> y \<in> set (drop (Suc (Suc i)) xs) \<Longrightarrow> cmp x y \<le> 0"
    using inv by (auto simp: extract_inv_def)
  have top: "cmp x (xs ! 0) \<le> 0" if "x \<in> set (take (Suc (Suc i)) xs)" for x
    using that heap_on_max[OF h] by (auto simp: in_set_conv_nth)
  have "0 < length xs" using i by linarith
  then have "?ys ! Suc i = xs ! 0" using i by (simp add: nth_swap_at)
  moreover have "drop (Suc (Suc i)) ?ys = drop (Suc (Suc i)) xs" by (simp add: drop_swap_at)
  ultimately have dys: "drop (Suc i) ?ys = xs ! 0 # drop (Suc (Suc i)) xs"
    using i by (subst Cons_nth_drop_Suc[symmetric]) simp_all
  have dzs: "drop (Suc i) ?zs = xs ! 0 # drop (Suc (Suc i)) xs" by (simp add: drop_sift dys)
  have "mset (take (Suc i) ?zs) = mset (take (Suc i) ?ys)" using i by (simp add: mset_take_sift)
  then have "set (take (Suc i) ?zs) = set (take (Suc i) ?ys)" by (rule mset_eq_setD)
  also have "\<dots> \<subseteq> set (take (Suc (Suc i)) ?ys)" by (rule set_take_subset_set_take) simp
  also have "set (take (Suc (Suc i)) ?ys) = set (take (Suc (Suc i)) xs)"
    using i by (intro mset_eq_setD mset_take_swap_at) auto
  finally have tk: "set (take (Suc i) ?zs) \<subseteq> set (take (Suc (Suc i)) xs)" .
  have "heap_but 0 (Suc i) 0 ?ys"
    using h unfolding heap_but_def heap_on_def by auto
  then have "heap_on 0 (Suc i) ?zs" using i by (intro sift_heap) auto
  moreover have "xs ! 0 \<in> set (take (Suc (Suc i)) xs)"
    using i by (cases xs) auto
  ultimately show ?thesis
    unfolding extract_inv_def dzs using tk top below srt by auto
qed

lemma heap_extract_sorted:
  "extract_inv (Suc i) xs \<Longrightarrow> i < length xs \<Longrightarrow> sorted_cmp cmp (heap_extract cmp i xs)"
proof (induction i arbitrary: xs)
  case 0
  then show ?case by (cases xs) (auto simp: extract_inv_def)
next
  case (Suc i)
  then show ?case using extract_inv_step[of i xs] by simp
qed

lemma heapsortx_sorted: "sorted_cmp cmp (heapsortx cmp xs)"
proof (cases "length xs > 1")
  case True
  let ?ys = "heap_build cmp (length xs) (length xs div 2) xs"
  have "heap_on (length xs div 2) (length xs) xs"
    unfolding heap_on_def by auto
  then have "heap_on 0 (length xs) ?ys" by (rule heap_build_heap) simp
  then have "extract_inv (length xs) ?ys" by (simp add: extract_inv_def)
  then have "extract_inv (Suc (length xs - 1)) ?ys" using True by (simp only: Suc_diff_1)
  then have "sorted_cmp cmp (heap_extract cmp (length xs - 1) ?ys)"
    using True by (intro heap_extract_sorted) auto
  then show ?thesis using True by (simp add: heapsortx_def Let_def)
next
  case False
  then show ?thesis by (cases xs) (auto simp: heapsortx_def)
qed

lemmas simple_sorts = heapsortx_sorted insertion_sort_sorted

end

lemma cmp_order_iff: "cmp_order cmp \<longleftrightarrow> cmp_ok cmp"
  unfolding cmp_order_def cmp_ok_def by blast

end
