(* ===== verification/Rqsort.thy ===== *)
theory Rqsort
  imports Heapsort
begin

text \<open>
  The sorting routine of \<^verbatim>\<open>cutils.c\<close>: \<^verbatim>\<open>heapsortx\<close>, \<^verbatim>\<open>med3\<close> and \<^verbatim>\<open>rqsort\<close>. The array is the list
  of its elements, so an offset that is a multiple of the element size is an index; a pointer
  into the array is an index too. The comparison callback is a parameter. The local stack of
  50 entries is explicit: pushing onto a full stack is \<^const>\<open>None\<close>.
\<close>

section \<open>The routines\<close>

definition med3 :: "'a cmp_f \<Rightarrow> 'a list \<Rightarrow> nat \<Rightarrow> nat \<Rightarrow> nat \<Rightarrow> nat" where
  "med3 cmp xs a b c =
     (if cmp (xs ! a) (xs ! b) < 0 then
        (if cmp (xs ! b) (xs ! c) < 0 then b else (if cmp (xs ! a) (xs ! c) < 0 then c else a))
      else
        (if cmp (xs ! b) (xs ! c) > 0 then b else (if cmp (xs ! a) (xs ! c) < 0 then a else c)))"

text \<open>
  The partition of a segment whose pivot is at index 0. The scan from the left moves \<open>i\<close> up
  to the first element greater than the pivot and collects the elements equal to the pivot in
  front; the scan from the right moves \<open>j\<close> down and collects them at the back.
\<close>

function scan_left :: "'a cmp_f \<Rightarrow> nat \<Rightarrow> nat \<Rightarrow> nat \<Rightarrow> 'a list \<Rightarrow> nat \<times> nat \<times> 'a list" where
  "scan_left cmp j i lt xs =
     (if i < j \<and> cmp (xs ! 0) (xs ! i) \<ge> 0 then
        (if cmp (xs ! 0) (xs ! i) = 0 then scan_left cmp j (i + 1) (lt + 1) (swap_at lt i xs)
         else scan_left cmp j (i + 1) lt xs)
      else (i, lt, xs))"
  by pat_completeness auto
termination
  by (relation "measure (\<lambda>(cmp, j, i, lt, xs). j - i)") auto

fun scan_right :: "'a cmp_f \<Rightarrow> nat \<Rightarrow> nat \<Rightarrow> nat \<Rightarrow> 'a list \<Rightarrow> nat \<times> nat \<times> 'a list" where
  "scan_right cmp i 0 gt xs = (0, gt, xs)"
| "scan_right cmp i (Suc j) gt xs =
     (if i < j \<and> cmp (xs ! 0) (xs ! j) \<le> 0 then
        (if cmp (xs ! 0) (xs ! j) = 0 then scan_right cmp i j (gt - 1) (swap_at (gt - 1) j xs)
         else scan_right cmp i j gt xs)
      else (j, gt, xs))"

declare scan_left.simps [simp del]

lemma scan_left_mono: "scan_left cmp j i lt xs = (i', lt', xs') \<Longrightarrow> i \<le> i' \<and> (i \<le> j \<longrightarrow> i' \<le> j)"
proof (induction cmp j i lt xs rule: scan_left.induct)
  case (1 cmp j i lt xs)
  show ?case
    using "1.prems" "1.IH"
    by (subst (asm) scan_left.simps) (fastforce split: if_splits)
qed

lemma scan_right_mono: "scan_right cmp i j gt xs = (j', gt', xs') \<Longrightarrow> j' \<le> j - 1"
proof (induction cmp i j gt xs rule: scan_right.induct)
  case (2 cmp i j gt xs)
  then show ?case by (fastforce split: if_splits)
qed simp

function partition_loop ::
  "'a cmp_f \<Rightarrow> nat \<Rightarrow> nat \<Rightarrow> nat \<Rightarrow> nat \<Rightarrow> 'a list \<Rightarrow> nat \<times> nat \<times> nat \<times> 'a list" where
  "partition_loop cmp i lt j gt xs =
     (case scan_left cmp j i lt xs of (i1, lt1, xs1) \<Rightarrow>
      case scan_right cmp i1 j gt xs1 of (j1, gt1, xs2) \<Rightarrow>
        if i1 \<ge> j1 then (i1, lt1, gt1, xs2)
        else partition_loop cmp (i1 + 1) lt1 j1 gt1 (swap_at i1 j1 xs2))"
  by pat_completeness auto
termination
  by (relation "measure (\<lambda>(cmp, i, lt, j, gt, xs). j - i)")
     (auto dest!: scan_left_mono[OF sym] scan_right_mono[OF sym])

declare partition_loop.simps [simp del]

text \<open>\<^verbatim>\<open>swap_block\<close>: exchanging the \<open>n\<close> elements at \<open>a\<close> with those at \<open>b\<close>, from left to right.\<close>

fun swap_block :: "nat \<Rightarrow> nat \<Rightarrow> nat \<Rightarrow> 'a list \<Rightarrow> 'a list" where
  "swap_block a b 0 xs = xs"
| "swap_block a b (Suc n) xs = swap_block (a + 1) (b + 1) n (swap_at a b xs)"

text \<open>One round of the inner loop on a segment \<open>xs\<close>: the new segment and the bounds of its middle part.\<close>

definition partition_segment :: "'a cmp_f \<Rightarrow> 'a list \<Rightarrow> 'a list \<times> nat \<times> nat" where
  "partition_segment cmp xs =
     (let nmemb = length xs;
          m4 = nmemb div 4;
          m = med3 cmp xs m4 (2 * m4) (3 * m4);
          xs = swap_at 0 m xs;
          (i, lt, gt, xs) = partition_loop cmp 1 1 nmemb nmemb xs;
          span = lt;
          span2 = i - lt;
          lt' = i - lt;
          span = (if span > span2 then span2 else span);
          xs = swap_block 0 (i - span) span xs;
          span = nmemb - gt;
          span2 = gt - i;
          gt' = nmemb - (gt - i);
          span = (if span > span2 then span2 else span);
          xs = swap_block i (nmemb - span) span xs
      in (xs, lt', gt'))"

section \<open>The partition\<close>

text \<open>
  The invariant the comments of \<^verbatim>\<open>rqsort\<close> describe: behind the pivot at index 0, the part up to
  \<open>lt\<close> is equal to the pivot, the part up to \<open>i\<close> is smaller, the part from \<open>j\<close> to \<open>gt\<close> is
  greater and the rest is equal again.
\<close>

definition parts :: "'a cmp_f \<Rightarrow> 'a \<Rightarrow> nat \<Rightarrow> nat \<Rightarrow> nat \<Rightarrow> nat \<Rightarrow> 'a list \<Rightarrow> bool" where
  "parts cmp p i lt j gt xs \<longleftrightarrow>
     1 \<le> lt \<and> lt \<le> i \<and> i \<le> j \<and> j \<le> gt \<and> gt \<le> length xs \<and> xs ! 0 = p \<and>
     (\<forall>k. 1 \<le> k \<and> k < lt \<longrightarrow> cmp p (xs ! k) = 0) \<and>
     (\<forall>k. lt \<le> k \<and> k < i \<longrightarrow> cmp p (xs ! k) > 0) \<and>
     (\<forall>k. j \<le> k \<and> k < gt \<longrightarrow> cmp p (xs ! k) < 0) \<and>
     (\<forall>k. gt \<le> k \<and> k < length xs \<longrightarrow> cmp p (xs ! k) = 0)"

lemma parts_bounds:
  "parts cmp p i lt j gt xs \<Longrightarrow>
   1 \<le> lt \<and> lt \<le> i \<and> i \<le> j \<and> j \<le> gt \<and> gt \<le> length xs \<and> xs ! 0 = p"
  by (simp add: parts_def)

lemma parts_left_eq:
  assumes "parts cmp p i lt j gt xs" "i < j" "cmp p (xs ! i) = 0"
  shows "parts cmp p (i + 1) (lt + 1) j gt (swap_at lt i xs)"
  using assms unfolding parts_def
  by (auto simp: nth_swap_at not_less_eq less_Suc_eq)

lemma parts_left_less:
  assumes "parts cmp p i lt j gt xs" "i < j" "cmp p (xs ! i) > 0"
  shows "parts cmp p (i + 1) lt j gt xs"
  using assms unfolding parts_def by (auto simp: less_Suc_eq)

lemma scan_left_parts:
  "parts cmp p i lt j gt xs \<Longrightarrow> scan_left cmp j i lt xs = (i', lt', xs') \<Longrightarrow>
   parts cmp p i' lt' j gt xs' \<and> mset xs' = mset xs \<and> (i' < j \<longrightarrow> cmp p (xs' ! i') < 0)"
proof (induction cmp j i lt xs rule: scan_left.induct)
  case (1 cmp j i lt xs)
  have p: "xs ! 0 = p" "lt < length xs \<or> \<not> i < j" "i < length xs \<or> \<not> i < j"
    using "1.prems"(1) by (auto simp: parts_def)
  consider (eq) "i < j" "cmp p (xs ! i) = 0" | (less) "i < j" "cmp p (xs ! i) > 0"
    | (stop) "\<not> (i < j \<and> cmp p (xs ! i) \<ge> 0)" by linarith
  then show ?case
  proof cases
    case eq
    then have "scan_left cmp j (i + 1) (lt + 1) (swap_at lt i xs) = (i', lt', xs')"
      using "1.prems"(2) p(1) by (subst (asm) scan_left.simps) simp
    with eq "1.IH"(1) parts_left_eq[OF "1.prems"(1) eq] p show ?thesis by simp
  next
    case less
    then have "scan_left cmp j (i + 1) lt xs = (i', lt', xs')"
      using "1.prems"(2) p(1) by (subst (asm) scan_left.simps) simp
    with less "1.IH"(2) parts_left_less[OF "1.prems"(1) less] p show ?thesis by simp
  next
    case stop
    then show ?thesis using "1.prems" p(1) by (subst (asm) scan_left.simps) auto
  qed
qed

lemma parts_right_eq:
  assumes "parts cmp p i lt (Suc j) gt xs" "i < j" "cmp p (xs ! j) = 0"
  shows "parts cmp p i lt j (gt - 1) (swap_at (gt - 1) j xs)" "swap_at (gt - 1) j xs ! i = xs ! i"
  using assms unfolding parts_def by (auto simp: nth_swap_at)

lemma parts_right_greater:
  assumes "parts cmp p i lt (Suc j) gt xs" "i < j" "cmp p (xs ! j) < 0"
  shows "parts cmp p i lt j gt xs"
  using assms unfolding parts_def by (auto simp: le_Suc_case[of j])

lemma scan_right_parts:
  "parts cmp p i lt j gt xs \<Longrightarrow> i < j \<Longrightarrow> scan_right cmp i j gt xs = (j', gt', xs') \<Longrightarrow>
   parts cmp p i lt (Suc j') gt' xs' \<and> i \<le> j' \<and> xs' ! i = xs ! i \<and> mset xs' = mset xs \<and>
   (i < j' \<longrightarrow> cmp p (xs' ! j') > 0)"
proof (induction cmp i j gt xs rule: scan_right.induct)
  case (2 cmp i j gt xs)
  have p: "xs ! 0 = p" "gt - 1 < length xs" "j < length xs" using "2.prems"(1) by (auto simp: parts_def)
  consider (eq) "i < j" "cmp p (xs ! j) = 0" | (greater) "i < j" "cmp p (xs ! j) < 0"
    | (stop) "\<not> (i < j \<and> cmp p (xs ! j) \<le> 0)" by linarith
  then show ?case
  proof cases
    case eq
    then have "scan_right cmp i j (gt - 1) (swap_at (gt - 1) j xs) = (j', gt', xs')"
      using "2.prems"(3) p(1) by simp
    with eq "2.IH"(1) parts_right_eq[OF "2.prems"(1) eq] p show ?thesis by simp
  next
    case greater
    then have "scan_right cmp i j gt xs = (j', gt', xs')" using "2.prems"(3) p(1) by simp
    with greater "2.IH"(2) parts_right_greater[OF "2.prems"(1) greater] p show ?thesis by simp
  next
    case stop
    then show ?thesis using "2.prems" p(1) by auto
  qed
qed simp

lemma parts_swap:
  assumes "parts cmp p i lt (Suc j) gt xs" "i < j" "cmp p (xs ! i) < 0" "cmp p (xs ! j) > 0"
  shows "parts cmp p (i + 1) lt j gt (swap_at i j xs)"
  using assms unfolding parts_def by (auto simp: nth_swap_at le_Suc_case[of j] less_Suc_eq)

lemma parts_close:
  assumes "parts cmp p i lt (Suc i) gt xs" "cmp p (xs ! i) < 0"
  shows "parts cmp p i lt i gt xs"
  using assms unfolding parts_def by (auto simp: le_Suc_case[of i])

lemma partition_loop_parts:
  "parts cmp p i lt j gt xs \<Longrightarrow> partition_loop cmp i lt j gt xs = (i', lt', gt', xs') \<Longrightarrow>
   parts cmp p i' lt' i' gt' xs' \<and> mset xs' = mset xs"
proof (induction cmp i lt j gt xs rule: partition_loop.induct)
  case (1 cmp i lt j gt xs)
  obtain i1 lt1 xs1 where s1: "scan_left cmp j i lt xs = (i1, lt1, xs1)" by (metis prod_cases3)
  obtain j1 gt1 xs2 where s2: "scan_right cmp i1 j gt xs1 = (j1, gt1, xs2)" by (metis prod_cases3)
  note l = scan_left_parts[OF "1.prems"(1) s1]
  have eq: "(if i1 \<ge> j1 then (i1, lt1, gt1, xs2)
      else partition_loop cmp (i1 + 1) lt1 j1 gt1 (swap_at i1 j1 xs2)) = (i', lt', gt', xs')"
    using "1.prems"(2) s1 s2 by (subst (asm) partition_loop.simps) simp
  show ?case
  proof (cases "i1 < j")
    case True
    note r = scan_right_parts[OF conjunct1[OF l] True s2]
    have i1: "cmp p (xs2 ! i1) < 0" using l r True by simp
    show ?thesis
    proof (cases "i1 < j1")
      case True
      then have "parts cmp p (i1 + 1) lt1 j1 gt1 (swap_at i1 j1 xs2)"
        using parts_swap[of cmp p i1 lt1 j1 gt1 xs2] r i1 by simp
      moreover have "mset (swap_at i1 j1 xs2) = mset xs"
        using r l parts_bounds[OF conjunct1[OF r]] True by simp
      ultimately show ?thesis
        using "1.IH"[OF s1[symmetric] refl s2[symmetric] refl] True eq by auto
    next
      case False
      then have "j1 = i1" using r by simp
      then show ?thesis using parts_close[of cmp p i1 lt1 gt1 xs2] r i1 l eq False by auto
    qed
  next
    case False
    then have "i1 = j" using parts_bounds[OF conjunct1[OF l]] by simp
    moreover have "scan_right cmp j j gt xs1 = (j - 1, gt, xs1)"
      using parts_bounds[OF conjunct1[OF l]] by (cases j) auto
    ultimately show ?thesis using s2 l eq by auto
  qed
qed

text \<open>Exchanging two disjoint blocks.\<close>

lemma length_swap_block [simp]: "length (swap_block a b n xs) = length xs"
  by (induction a b n xs rule: swap_block.induct) simp_all

lemma mset_swap_block:
  "a + n \<le> length xs \<Longrightarrow> b + n \<le> length xs \<Longrightarrow> mset (swap_block a b n xs) = mset xs"
  by (induction a b n xs rule: swap_block.induct) simp_all

lemma nth_swap_block:
  assumes "a + n \<le> b" "b + n \<le> length xs" "k < length xs"
  shows "swap_block a b n xs ! k =
    (if a \<le> k \<and> k < a + n then xs ! (b + (k - a))
     else if b \<le> k \<and> k < b + n then xs ! (a + (k - b)) else xs ! k)"
  using assms
proof (induction a b n xs rule: swap_block.induct)
  case (2 a b n xs)
  have IH: "swap_block (a + 1) (b + 1) n (swap_at a b xs) ! k =
    (if a + 1 \<le> k \<and> k < a + 1 + n then swap_at a b xs ! (b + 1 + (k - (a + 1)))
     else if b + 1 \<le> k \<and> k < b + 1 + n then swap_at a b xs ! (a + 1 + (k - (b + 1)))
     else swap_at a b xs ! k)"
    using "2.prems" by (intro "2.IH") auto
  consider "k = a" | "a < k" "k \<le> a + n" | "k = b" | "b < k" "k \<le> b + n"
    | "k < a \<or> a + n < k \<and> k < b \<or> b + n < k" by linarith
  then show ?case
    using IH "2.prems" by cases (auto simp: nth_swap_at Suc_diff_Suc)
qed auto

text \<open>
  Moving the equal elements from the ends to the middle: exchanging the shorter of the two
  neighbouring blocks with the far end of the other is enough.
\<close>

lemma rotate_front:
  assumes "lt \<le> i" "i \<le> length xs" "span = min lt (i - lt)"
    and "\<And>k. k < lt \<Longrightarrow> P (xs ! k)" "\<And>k. lt \<le> k \<Longrightarrow> k < i \<Longrightarrow> R (xs ! k)"
  defines "ys \<equiv> swap_block 0 (i - span) span xs"
  shows "k < i - lt \<Longrightarrow> R (ys ! k)" "i - lt \<le> k \<Longrightarrow> k < i \<Longrightarrow> P (ys ! k)"
    "i \<le> k \<Longrightarrow> k < length xs \<Longrightarrow> ys ! k = xs ! k"
proof -
  have nth: "ys ! k = (if k < span then xs ! (i - span + k)
      else if i - span \<le> k \<and> k < i then xs ! (k - (i - span)) else xs ! k)" if "k < length xs" for k
    using nth_swap_block[of 0 span "i - span" xs k] assms(1,2,3) that by (simp add: ys_def)
  show "k < i - lt \<Longrightarrow> R (ys ! k)" using assms nth by (simp add: min_def split: if_splits)
  show "i - lt \<le> k \<Longrightarrow> k < i \<Longrightarrow> P (ys ! k)" using assms nth by (simp add: min_def split: if_splits)
  show "i \<le> k \<Longrightarrow> k < length xs \<Longrightarrow> ys ! k = xs ! k" using assms(1,2,3) nth by (simp add: min_def)
qed

lemma rotate_back:
  assumes "i \<le> gt" "gt \<le> length xs" "span = min (length xs - gt) (gt - i)"
    and "\<And>k. gt \<le> k \<Longrightarrow> k < length xs \<Longrightarrow> P (xs ! k)" "\<And>k. i \<le> k \<Longrightarrow> k < gt \<Longrightarrow> R (xs ! k)"
  defines "ys \<equiv> swap_block i (length xs - span) span xs"
  shows "length xs - (gt - i) \<le> k \<Longrightarrow> k < length xs \<Longrightarrow> R (ys ! k)"
    "i \<le> k \<Longrightarrow> k < length xs - (gt - i) \<Longrightarrow> P (ys ! k)"
    "k < i \<Longrightarrow> ys ! k = xs ! k"
proof -
  have nth: "ys ! k = (if i \<le> k \<and> k < i + span then xs ! (length xs - span + (k - i))
      else if length xs - span \<le> k \<and> k < length xs then xs ! (i + (k - (length xs - span))) else xs ! k)"
    if "k < length xs" for k
  proof -
    have a: "i + span \<le> length xs - span" "length xs - span + span = length xs"
      using assms(1,2,3) by (auto simp: min_def)
    show ?thesis
      using nth_swap_block[OF a(1), of xs k] that unfolding ys_def a(2) by blast
  qed
  show "length xs - (gt - i) \<le> k \<Longrightarrow> k < length xs \<Longrightarrow> R (ys ! k)"
    using assms nth by (auto simp: min_def split: if_splits)
  show "i \<le> k \<Longrightarrow> k < length xs - (gt - i) \<Longrightarrow> P (ys ! k)"
    using assms nth by (auto simp: min_def split: if_splits)
  show "k < i \<Longrightarrow> ys ! k = xs ! k"
    using assms(1,2,3) nth by (auto simp: min_def split: if_splits)
qed

lemma med3_cases: "med3 cmp xs a b c \<in> {a, b, c}"
  by (simp add: med3_def)

text \<open>The two block exchanges at the end of a round turn the four parts into three.\<close>

definition gather :: "nat \<Rightarrow> nat \<Rightarrow> nat \<Rightarrow> 'a list \<Rightarrow> 'a list" where
  "gather i lt gt xs =
     (let s1 = min lt (i - lt); s2 = min (length xs - gt) (gt - i) in
      swap_block i (length xs - s2) s2 (swap_block 0 (i - s1) s1 xs))"

definition split3 :: "'a cmp_f \<Rightarrow> 'a \<Rightarrow> nat \<Rightarrow> nat \<Rightarrow> 'a list \<Rightarrow> bool" where
  "split3 cmp p lt gt ys \<longleftrightarrow>
     (\<forall>k < lt. cmp p (ys ! k) > 0) \<and>
     (\<forall>k. lt \<le> k \<and> k < gt \<longrightarrow> cmp p (ys ! k) = 0 \<or> ys ! k = p) \<and>
     (\<forall>k. gt \<le> k \<and> k < length ys \<longrightarrow> cmp p (ys ! k) < 0)"

lemma mset_gather:
  assumes "lt \<le> i" "i \<le> gt" "gt \<le> length xs"
  shows "mset (gather i lt gt xs) = mset xs"
  using assms by (simp add: gather_def Let_def mset_swap_block)

lemma gather_split3:
  assumes P: "parts cmp p i lt i gt xs"
  shows "split3 cmp p (i - lt) (length xs - (gt - i)) (gather i lt gt xs)"
proof -
  note b = parts_bounds[OF P]
  define s1 where "s1 = min lt (i - lt)"
  define xs2 where "xs2 = swap_block 0 (i - s1) s1 xs"
  have L2: "length xs2 = length xs" by (simp add: xs2_def)
  define s2 where "s2 = min (length xs2 - gt) (gt - i)"
  define xs3 where "xs3 = swap_block i (length xs2 - s2) s2 xs2"
  have g: "gather i lt gt xs = xs3" by (simp add: gather_def Let_def xs3_def s2_def L2 xs2_def s1_def)
  have c1: "cmp p (xs ! k) = 0 \<or> xs ! k = p" if "k < lt" for k
    using P that by (cases k) (auto simp: parts_def)
  have c2: "\<And>k. lt \<le> k \<Longrightarrow> k < i \<Longrightarrow> cmp p (xs ! k) > 0" using P by (simp add: parts_def)
  have il: "i \<le> length xs" "i \<le> gt" "lt \<le> i" "gt \<le> length xs2" using b L2 by auto
  note f = rotate_front[where P = "\<lambda>x. cmp p x = 0 \<or> x = p" and R = "\<lambda>x. cmp p x > 0",
      OF il(3,1) s1_def c1 c2, folded xs2_def]
  have d3: "\<And>k. i \<le> k \<Longrightarrow> k < gt \<Longrightarrow> cmp p (xs2 ! k) < 0"
    using P f(3) il by (simp add: parts_def)
  have d4: "\<And>k. gt \<le> k \<Longrightarrow> k < length xs2 \<Longrightarrow> cmp p (xs2 ! k) = 0 \<or> xs2 ! k = p"
    using P f(3) il L2 by (simp add: parts_def)
  note h = rotate_back[where P = "\<lambda>x. cmp p x = 0 \<or> x = p" and R = "\<lambda>x. cmp p x < 0",
      OF il(2,4) s2_def d4 d3, folded xs3_def]
  have "cmp p (xs3 ! k) = 0 \<or> xs3 ! k = p" if "i - lt \<le> k" "k < length xs - (gt - i)" for k
  proof (cases "k < i")
    case True
    have "cmp p (xs2 ! k) = 0 \<or> xs2 ! k = p" by (rule f(2)) (use that(1) True in auto)
    moreover have "xs3 ! k = xs2 ! k" by (rule h(3)) (use True in auto)
    ultimately show ?thesis by simp
  next
    case False
    then show ?thesis by (intro h(2)) (use that(2) L2 in auto)
  qed
  moreover have "cmp p (xs3 ! k) > 0" if "k < i - lt" for k using f(1)[of k] h(3)[of k] that by simp
  moreover have "cmp p (xs3 ! k) < 0" if "length xs - (gt - i) \<le> k" "k < length xs" for k
    using h(1)[of k] L2 that by simp
  ultimately show ?thesis using L2 by (simp add: split3_def g xs3_def)
qed

lemma partition_segment_spec:
  assumes n: "6 < length xs" and eq: "partition_segment cmp xs = (ys, lt, gt)"
  shows "lt < gt" "gt \<le> length xs" "mset ys = mset xs" "\<exists>p. p \<in> set xs \<and> split3 cmp p lt gt ys"
proof -
  define N where "N = length xs"
  define m where "m = med3 cmp xs (N div 4) (2 * (N div 4)) (3 * (N div 4))"
  define xs0 where "xs0 = swap_at 0 m xs"
  have m: "m < N" using med3_cases[of cmp xs "N div 4" "2 * (N div 4)" "3 * (N div 4)"] n
    by (auto simp: m_def N_def)
  have ne: "xs \<noteq> []" using n by auto
  have xs0: "mset xs0 = mset xs" "length xs0 = N" using m ne by (simp_all add: xs0_def N_def)
  obtain i lt1 gt1 xs1 where loop: "partition_loop cmp 1 1 N N xs0 = (i, lt1, gt1, xs1)"
    by (metis prod_cases4)
  define p where "p = xs0 ! 0"
  have "parts cmp p 1 1 N N xs0" using n xs0 by (auto simp: parts_def p_def N_def)
  from partition_loop_parts[OF this loop]
  have P: "parts cmp p i lt1 i gt1 xs1" and M: "mset xs1 = mset xs" using xs0 by auto
  have L: "length xs1 = N" using M N_def by (metis size_mset)
  have b: "1 \<le> lt1" "lt1 \<le> i" "i \<le> gt1" "gt1 \<le> N" using parts_bounds[OF P] L by auto
  have res: "ys = gather i lt1 gt1 xs1" "lt = i - lt1" "gt = N - (gt1 - i)"
    using eq loop L by (auto simp: partition_segment_def gather_def Let_def N_def m_def xs0_def min_def
        split: if_splits)
  show "lt < gt" "gt \<le> length xs" using b res n by (auto simp: N_def)
  show "mset ys = mset xs" using mset_gather[of lt1 i gt1 xs1] b L M res by simp
  have "p \<in> set xs" using xs0 ne by (metis length_greater_0_conv nth_mem p_def N_def mset_eq_setD)
  then show "\<exists>p. p \<in> set xs \<and> split3 cmp p lt gt ys" using gather_split3[OF P] L res by auto
qed

lemma partition_bounds:
  "6 < length xs \<Longrightarrow> partition_segment cmp xs = (ys, lt, gt) \<Longrightarrow> lt < gt \<and> gt \<le> length xs"
  using partition_segment_spec(1,2) by blast

section \<open>The main loop\<close>

text \<open>
  A frame is a pending segment: its base, its count and the depth at which it was cut. The head
  of the list is the segment held in the local variables, the tail is the content of the
  array \<^verbatim>\<open>stack\<close> of 50 entries. A segment outside the array and a push onto a full stack are
  \<^const>\<open>None\<close>.
\<close>

type_synonym frame = "nat \<times> nat \<times> nat"

abbreviation frame_depth :: "frame \<Rightarrow> nat" where
  "frame_depth f \<equiv> snd (snd f)"

function rqsort_loop :: "'a cmp_f \<Rightarrow> frame list \<Rightarrow> 'a list \<Rightarrow> 'a list option" where
  "rqsort_loop cmp [] xs = Some xs"
| "rqsort_loop cmp ((ptr, nmemb, depth) # stack) xs =
     (if length xs < ptr + nmemb then None
      else if nmemb > 6 then
        (if depth + 1 > 50 then
           rqsort_loop cmp stack (splice ptr (heapsortx cmp (slice ptr nmemb xs)) xs)
         else
           (case partition_segment cmp (slice ptr nmemb xs) of (ys, lt, gt) \<Rightarrow>
              if length stack \<ge> 50 then None
              else if lt > nmemb - gt then
                rqsort_loop cmp ((ptr + gt, nmemb - gt, depth + 1) # (ptr, lt, depth + 1) # stack)
                  (splice ptr ys xs)
              else
                rqsort_loop cmp ((ptr, lt, depth + 1) # (ptr + gt, nmemb - gt, depth + 1) # stack)
                  (splice ptr ys xs)))
      else rqsort_loop cmp stack (splice ptr (insertion_sort cmp (slice ptr nmemb xs)) xs))"
  by pat_completeness auto
termination
  by (relation "measure (\<lambda>(cmp, fs, xs). \<Sum>(p, n, d)\<leftarrow>fs. 2 * n + 1)")
     (auto dest!: partition_bounds[rotated, OF sym])

definition rqsort :: "'a cmp_f \<Rightarrow> 'a list \<Rightarrow> 'a list option" where
  "rqsort cmp xs = (if length xs < 2 then Some xs else rqsort_loop cmp [(0, length xs, 0)] xs)"

declare rqsort_loop.simps(2) [simp del]

text \<open>The depths on the stack decrease strictly from its top, so at most 50 entries are in use.\<close>

fun depths_ok :: "frame list \<Rightarrow> bool" where
  "depths_ok [] \<longleftrightarrow> True"
| "depths_ok (f # stack) \<longleftrightarrow> frame_depth f \<le> 50 \<and> sorted_wrt (>) (map frame_depth stack) \<and>
     (\<forall>g\<in>set stack. 1 \<le> frame_depth g \<and> frame_depth g \<le> frame_depth f)"

lemma strict_sorted_imp_distinct_gt: "sorted_wrt (>) (xs :: nat list) \<Longrightarrow> distinct xs"
  by (induction xs) auto

lemma depths_ok_tl: "depths_ok (f # stack) \<Longrightarrow> depths_ok stack"
  by (cases stack) (auto simp: less_imp_le)

lemma depths_ok_push:
  assumes "depths_ok ((p, n, d) # stack)" "d + 1 \<le> 50"
  shows "depths_ok ((p1, n1, d + 1) # (p2, n2, d + 1) # stack)" "length stack < 50"
proof -
  show "depths_ok ((p1, n1, d + 1) # (p2, n2, d + 1) # stack)"
    using assms by (fastforce simp: le_imp_less_Suc)
  have "distinct (map frame_depth stack)"
    using assms(1) by (auto intro: strict_sorted_imp_distinct_gt)
  then have "length stack = card (frame_depth ` set stack)"
    by (metis distinct_card length_map set_map)
  also have "\<dots> \<le> card {1..d}" using assms(1) by (intro card_mono) auto
  finally show "length stack < 50" using assms(2) by simp
qed

definition frames_in :: "frame list \<Rightarrow> nat \<Rightarrow> bool" where
  "frames_in fs len \<longleftrightarrow> (\<forall>(p, n, d)\<in>set fs. p + n \<le> len)"

lemma frames_in_simps [simp]:
  "frames_in [] len"
  "frames_in ((p, n, d) # fs) len \<longleftrightarrow> p + n \<le> len \<and> frames_in fs len"
  by (auto simp: frames_in_def)

lemma partition_segment_length:
  "6 < length xs \<Longrightarrow> partition_segment cmp xs = (ys, lt, gt) \<Longrightarrow> length ys = length xs"
  using partition_segment_spec(3) mset_eq_length by blast

text \<open>
  What the loop keeps: the frames lie in the array and apart from each other, and two elements
  that are not in one frame are in order.
\<close>

definition within :: "frame \<Rightarrow> nat \<Rightarrow> bool" where
  "within f i \<longleftrightarrow> fst f \<le> i \<and> i < fst f + fst (snd f)"

definition apart :: "frame list \<Rightarrow> bool" where
  "apart fs \<longleftrightarrow> sorted_wrt (\<lambda>f g. \<forall>i. \<not> (within f i \<and> within g i)) fs"

definition ordered_but :: "'a cmp_f \<Rightarrow> frame list \<Rightarrow> 'a list \<Rightarrow> bool" where
  "ordered_but cmp fs xs \<longleftrightarrow>
     (\<forall>i j. i < j \<and> j < length xs \<longrightarrow>
        cmp (xs ! i) (xs ! j) \<le> 0 \<or> (\<exists>f\<in>set fs. within f i \<and> within f j))"

lemma ordered_but_splice:
  assumes ord: "ordered_but cmp ((p, n, d) # stack) xs" and ap: "apart ((p, n, d) # stack)"
    and len: "p + n \<le> length xs" and ys: "mset ys = mset (slice p n xs)"
    and loc: "\<And>a b. a < b \<Longrightarrow> b < n \<Longrightarrow>
       cmp (ys ! a) (ys ! b) \<le> 0 \<or> (\<exists>f\<in>set new. within f (p + a) \<and> within f (p + b))"
  shows "ordered_but cmp (new @ stack) (splice p ys xs)"
proof -
  let ?zs = "splice p ys xs" and ?in = "\<lambda>i. p \<le> i \<and> i < p + n"
  have L: "length ys = n" using mset_eq_length[OF ys] len by simp
  have nth: "?zs ! k = (if ?in k then ys ! (k - p) else xs ! k)" if "k < length xs" for k
    using nth_splice[of p ys xs k] that len L by simp
  have src: "\<exists>k. ?in k \<and> ?zs ! i = xs ! k" if "?in i" for i
  proof -
    have "ys ! (i - p) \<in> set (slice p n xs)" using that L mset_eq_setD[OF ys] by (metis less_diff_conv2 nth_mem add.commute)
    then obtain k where "k < n" "ys ! (i - p) = xs ! (p + k)" using len by (auto simp: in_set_conv_nth)
    then show ?thesis using nth[of i] that len by (intro exI[of _ "p + k"]) auto
  qed
  have sep: "\<not> within f i" if "f \<in> set stack" "?in i" for f i
    using ap that by (auto simp: apart_def within_def)
  have out: "cmp (xs ! i) (xs ! j) \<le> 0 \<or> (\<exists>f\<in>set stack. within f i \<and> within f j)"
    if "i < j" "j < length xs" "\<not> (?in i \<and> ?in j)" for i j
    using ord that by (auto simp: ordered_but_def within_def)
  have "cmp (?zs ! i) (?zs ! j) \<le> 0 \<or> (\<exists>f\<in>set (new @ stack). within f i \<and> within f j)"
    if ij: "i < j" "j < length xs" for i j
  proof (cases "?in i"; cases "?in j")
    assume a: "?in i" "?in j"
    then have "i - p < j - p" "j - p < n" using ij by auto
    from loc[OF this] show ?thesis using a nth[of i] nth[of j] ij by auto
  next
    assume a: "?in i" "\<not> ?in j"
    then obtain k where k: "?in k" "?zs ! i = xs ! k" using src by blast
    then show ?thesis using out[of k j] sep[of _ k] a ij nth[of j] by fastforce
  next
    assume a: "\<not> ?in i" "?in j"
    then obtain k where k: "?in k" "?zs ! j = xs ! k" using src by blast
    then show ?thesis using out[of i k] sep[of _ k] a ij len nth[of i] by fastforce
  next
    assume "\<not> ?in i" "\<not> ?in j"
    then show ?thesis using out[of i j] nth ij by auto
  qed
  then show ?thesis using len L by (simp add: ordered_but_def)
qed

definition loop_inv :: "'a cmp_f \<Rightarrow> frame list \<Rightarrow> 'a list \<Rightarrow> bool" where
  "loop_inv cmp fs xs \<longleftrightarrow> depths_ok fs \<and> frames_in fs (length xs) \<and>
     (cmp_ok cmp \<longrightarrow> apart fs \<and> ordered_but cmp fs xs)"

lemma leaf_inv:
  assumes inv: "loop_inv cmp ((p, n, d) # stack) xs" and ys: "mset ys = mset (slice p n xs)"
    and srt: "cmp_ok cmp \<Longrightarrow> sorted_cmp cmp ys"
  shows "loop_inv cmp stack (splice p ys xs)" "mset (splice p ys xs) = mset xs"
proof -
  have len: "p + n \<le> length xs" using inv by (simp add: loop_inv_def)
  then show M: "mset (splice p ys xs) = mset xs" using ys by (intro mset_splice)
  have L: "length ys = n" using mset_eq_length[OF ys] len by simp
  have "ordered_but cmp ([] @ stack) (splice p ys xs)" if c: "cmp_ok cmp"
    by (rule ordered_but_splice[OF _ _ len ys])
       (use inv c L sorted_wrt_nth_less[OF srt[OF c]] in \<open>auto simp: loop_inv_def\<close>)
  then show "loop_inv cmp stack (splice p ys xs)"
    using inv mset_eq_length[OF M] depths_ok_tl[of "(p, n, d)" stack]
    by (auto simp: loop_inv_def apart_def simp del: depths_ok.simps)
qed

lemma split3_order:
  assumes c: "cmp_ok cmp" and s: "split3 cmp q lt gt ys" and k: "a < b" "b < length ys"
  shows "cmp (ys ! a) (ys ! b) \<le> 0 \<or> b < lt \<or> gt \<le> a"
proof (rule ccontr)
  assume n: "\<not> ?thesis"
  then have ab: "lt \<le> b" "a < gt" by auto
  have flip: "cmp x y < 0 \<longleftrightarrow> 0 < cmp y x" for x y using c by (simp add: cmp_ok_def)
  have le: "0 \<le> cmp q x \<Longrightarrow> cmp x q \<le> 0" for x using flip[of q x] by linarith
  have refl: "cmp q q = 0" using flip[of q q] by linarith
  have "0 \<le> cmp q (ys ! a)" using s ab(2) refl unfolding split3_def by (metis less_imp_le not_less order_refl)
  then have "cmp (ys ! a) q \<le> 0" by (rule le)
  moreover have "cmp q (ys ! b) \<le> 0"
    using s ab(1) k refl unfolding split3_def by (metis less_imp_le not_less order_refl)
  ultimately show False using n c unfolding cmp_ok_def by blast
qed

lemma apart_cut:
  assumes "apart ((p, n, d) # stack)" "lt < gt" "gt \<le> n"
  shows "apart ((p, lt, d1) # (p + gt, n - gt, d2) # stack)" "apart ((p + gt, n - gt, d1) # (p, lt, d2) # stack)"
  using assms unfolding apart_def by (fastforce simp: within_def)+

lemma cut_inv:
  assumes inv: "loop_inv cmp ((p, n, d) # stack) xs" and d: "d + 1 \<le> 50" and n: "6 < n"
    and part: "partition_segment cmp (slice p n xs) = (ys, lt, gt)"
  shows "loop_inv cmp ((p + gt, n - gt, d + 1) # (p, lt, d + 1) # stack) (splice p ys xs)"
    "loop_inv cmp ((p, lt, d + 1) # (p + gt, n - gt, d + 1) # stack) (splice p ys xs)"
    "mset (splice p ys xs) = mset xs" "length stack < 50"
proof -
  have len: "p + n \<le> length xs" and dep: "depths_ok ((p, n, d) # stack)" using inv by (auto simp: loop_inv_def)
  then have s: "6 < length (slice p n xs)" using n by simp
  note b = partition_bounds[OF s part] and ys = partition_segment_spec(3)[OF s part]
  obtain q where q: "split3 cmp q lt gt ys" using partition_segment_spec(4)[OF s part] by blast
  have L: "length ys = n" using mset_eq_length[OF ys] len by simp
  show M: "mset (splice p ys xs) = mset xs" using ys len by (rule mset_splice)
  show "length stack < 50" using depths_ok_push(2)[OF dep d] .
  let ?new = "[(p + gt, n - gt, d + 1), (p, lt, d + 1)]"
  have ord: "ordered_but cmp (?new @ stack) (splice p ys xs)" if c: "cmp_ok cmp"
  proof (rule ordered_but_splice[OF _ _ len ys])
    fix a e assume "a < e" "e < n"
    then show "cmp (ys ! a) (ys ! e) \<le> 0 \<or> (\<exists>f\<in>set ?new. within f (p + a) \<and> within f (p + e))"
      using split3_order[OF c q, of a e] L b len by (auto simp: within_def)
  qed (use inv c in \<open>auto simp: loop_inv_def\<close>)
  have ord2: "ordered_but cmp (f # g # stack) zs \<Longrightarrow> ordered_but cmp (g # f # stack) zs" for f g zs
    unfolding ordered_but_def by (simp add: disj_ac)
  note push = depths_ok_push(1)[OF dep d] and len' = mset_eq_length[OF M]
  have fr: "frames_in stack (length xs)" using inv by (simp add: loop_inv_def)
  have ap: "cmp_ok cmp \<Longrightarrow> apart ((p, n, d) # stack)" using inv by (simp add: loop_inv_def)
  show "loop_inv cmp ((p + gt, n - gt, d + 1) # (p, lt, d + 1) # stack) (splice p ys xs)"
    unfolding loop_inv_def using push len' fr len b ord apart_cut(2)[OF ap] by auto
  show "loop_inv cmp ((p, lt, d + 1) # (p + gt, n - gt, d + 1) # stack) (splice p ys xs)"
    unfolding loop_inv_def using push len' fr len b ord2 ord apart_cut(1)[OF ap] by auto
qed

lemma rqsort_loop_result:
  "loop_inv cmp fs xs \<Longrightarrow>
   \<exists>ys. rqsort_loop cmp fs xs = Some ys \<and> mset ys = mset xs \<and> (cmp_ok cmp \<longrightarrow> sorted_cmp cmp ys)"
proof (induction cmp fs xs rule: rqsort_loop.induct)
  case (1 cmp xs)
  then show ?case by (auto simp: loop_inv_def ordered_but_def sorted_wrt_iff_nth_less)
next
  case (2 cmp p n d stack xs)
  have len: "p + n \<le> length xs" using "2.prems" by (simp add: loop_inv_def)
  let ?s = "slice p n xs"
  consider (heap) "n > 6" "d + 1 > 50" | (cut) "n > 6" "d + 1 \<le> 50" | (ins) "\<not> n > 6" by linarith
  then show ?case
  proof cases
    case heap
    note leaf = leaf_inv[OF "2.prems" mset_heapsortx[of cmp]]
    show ?thesis using heap len leaf "2.IH"(1) cmp_order.heapsortx_sorted[unfolded cmp_order_iff, of cmp ?s]
      by (simp add: rqsort_loop.simps(2))
  next
    case ins
    note leaf = leaf_inv[OF "2.prems" mset_insertion_sort[of cmp]]
    show ?thesis using ins len leaf "2.IH"(4) cmp_order.insertion_sort_sorted[unfolded cmp_order_iff, of cmp ?s]
      by (simp add: rqsort_loop.simps(2))
  next
    case cut
    obtain ys lt gt where part: "partition_segment cmp ?s = (ys, lt, gt)" by (metis prod_cases3)
    note c = cut_inv[OF "2.prems" cut(2,1) part]
    show ?thesis
      using cut len c part "2.IH"(2,3)[OF _ _ _ part[symmetric] refl]
      by (cases "lt > n - gt") (simp_all add: rqsort_loop.simps(2))
  qed
qed

lemma rqsort_result:
  "\<exists>ys. rqsort cmp xs = Some ys \<and> mset ys = mset xs \<and> (cmp_ok cmp \<longrightarrow> sorted_cmp cmp ys)"
proof (cases "length xs < 2")
  case True
  then have "sorted_cmp cmp xs" by (cases xs rule: remdups_adj.cases) auto
  then show ?thesis using True by (simp add: rqsort_def)
next
  case False
  have "loop_inv cmp [(0, length xs, 0)] xs"
    by (simp add: loop_inv_def apart_def ordered_but_def within_def)
  then show ?thesis using False rqsort_loop_result by (simp add: rqsort_def)
qed

section \<open>Properties\<close>


text \<open>
  C8. With a consistent comparison, \<^verbatim>\<open>rqsort\<close> returns the elements in order.
\<close>

theorem rqsort_sorts:
  assumes "cmp_ok cmp"
  shows "\<exists>ys. rqsort cmp xs = Some ys \<and> mset ys = mset xs \<and> sorted_cmp cmp ys"
  using rqsort_result[of cmp xs] assms by blast

theorem rqsort_sorts_witness:
  "\<exists>ys. rqsort (\<lambda>a b. a - b :: int) [5, 3, 9, -1, 3, 7, 0, 2] = Some ys \<and>
        mset ys = mset [5, 3, 9, -1, 3, 7, 0, 2] \<and> sorted_cmp (\<lambda>a b. a - b) ys"
proof -
  have "cmp_ok (\<lambda>a b. a - b :: int)" by (auto simp: cmp_ok_def)
  then show ?thesis by (rule rqsort_sorts)
qed

end
