(* ===== verification/Ta_Sort.thy ===== *)
theory Ta_Sort
  imports Rqsort
begin

text \<open>
  The comparison functions of \<^verbatim>\<open>TypedArray.prototype.sort\<close> in \<^verbatim>\<open>quickjs.c\<close>, on the values the
  array holds: integers of each width, and doubles as their IEEE 754 bit patterns. Each of them is
  an instance of the interface of the sorting routine.
\<close>

section \<open>Doubles as bit patterns\<close>

definition isnan :: "u64 \<Rightarrow> bool" where
  "isnan x \<longleftrightarrow> take_bit 63 x > 0x7FF0000000000000"

definition signbit :: "u64 \<Rightarrow> bool" where
  "signbit x \<longleftrightarrow> bit x 63"

text \<open>
  The numbers that are not NaN are ordered as the signed magnitudes of their patterns; both zeros
  have the magnitude 0.
\<close>

definition dbl_key :: "u64 \<Rightarrow> int" where
  "dbl_key x = (if signbit x then - uint (take_bit 63 x) else uint (take_bit 63 x))"

definition dbl_lt :: "u64 \<Rightarrow> u64 \<Rightarrow> bool" where
  "dbl_lt x y \<longleftrightarrow> \<not> isnan x \<and> \<not> isnan y \<and> dbl_key x < dbl_key y"

definition dbl_is_zero :: "u64 \<Rightarrow> bool" where
  "dbl_is_zero x \<longleftrightarrow> take_bit 63 x = 0"

section \<open>The comparison functions\<close>

definition js_cmp_doubles :: "u64 \<Rightarrow> u64 \<Rightarrow> int" where
  "js_cmp_doubles x y =
     (if isnan x then (if isnan y then 0 else 1)
      else if isnan y then - 1
      else if dbl_lt x y then - 1
      else if dbl_lt y x then 1
      else if \<not> dbl_is_zero x then 0
      else if signbit x then (if signbit y then 0 else - 1)
      else (if signbit y then 1 else 0))"

definition js_TA_cmp_int8 :: "u8 \<Rightarrow> u8 \<Rightarrow> int" where
  "js_TA_cmp_int8 a b = sint a - sint b"

definition js_TA_cmp_uint8 :: "u8 \<Rightarrow> u8 \<Rightarrow> int" where
  "js_TA_cmp_uint8 a b = uint a - uint b"

definition js_TA_cmp_int16 :: "u16 \<Rightarrow> u16 \<Rightarrow> int" where
  "js_TA_cmp_int16 a b = sint a - sint b"

definition js_TA_cmp_uint16 :: "u16 \<Rightarrow> u16 \<Rightarrow> int" where
  "js_TA_cmp_uint16 a b = uint a - uint b"

definition js_TA_cmp_int32 :: "u32 \<Rightarrow> u32 \<Rightarrow> int" where
  "js_TA_cmp_int32 x y = of_bool (sint y < sint x) - of_bool (sint y > sint x)"

definition js_TA_cmp_uint32 :: "u32 \<Rightarrow> u32 \<Rightarrow> int" where
  "js_TA_cmp_uint32 x y = of_bool (y < x) - of_bool (y > x)"

definition js_TA_cmp_int64 :: "u64 \<Rightarrow> u64 \<Rightarrow> int" where
  "js_TA_cmp_int64 x y = of_bool (sint y < sint x) - of_bool (sint y > sint x)"

definition js_TA_cmp_uint64 :: "u64 \<Rightarrow> u64 \<Rightarrow> int" where
  "js_TA_cmp_uint64 x y = of_bool (y < x) - of_bool (y > x)"

definition js_TA_cmp_float64 :: "u64 \<Rightarrow> u64 \<Rightarrow> int" where
  "js_TA_cmp_float64 a b = js_cmp_doubles a b"

section \<open>They are consistent\<close>

text \<open>The place of a double in the order of the sort: by value, -0 before +0, NaN last.\<close>

definition dbl_rank :: "u64 \<Rightarrow> int" where
  "dbl_rank x = (if isnan x then 2 ^ 63 else if signbit x then - 1 - uint (take_bit 63 x)
                 else uint (take_bit 63 x))"

lemma take_bit_63_bounds: "0 \<le> uint (take_bit 63 (x :: u64))" "uint (take_bit 63 (x :: u64)) < 2 ^ 63"
  using take_bit_int_less_exp[of 63 "uint x"] by (simp_all add: unsigned_take_bit_eq)

lemma js_cmp_doubles_rank: "js_cmp_doubles x y = sgn (dbl_rank x - dbl_rank y)"
proof -
  define a b where "a = uint (take_bit 63 x)" and "b = uint (take_bit 63 y)"
  have ab: "0 \<le> a" "a < 2 ^ 63" "0 \<le> b" "b < 2 ^ 63"
    unfolding a_def b_def by (fact take_bit_63_bounds)+
  have z: "dbl_is_zero x \<longleftrightarrow> a = 0" by (simp add: dbl_is_zero_def uint_0_iff a_def)
  show ?thesis
    using ab unfolding js_cmp_doubles_def dbl_rank_def dbl_lt_def dbl_key_def z a_def[symmetric] b_def[symmetric]
    by (auto simp: sgn_if)
qed

interpretation ta_int8: cmp_order js_TA_cmp_int8
  by unfold_locales (auto simp: js_TA_cmp_int8_def)

interpretation ta_uint8: cmp_order js_TA_cmp_uint8
  by unfold_locales (auto simp: js_TA_cmp_uint8_def)

interpretation ta_int16: cmp_order js_TA_cmp_int16
  by unfold_locales (auto simp: js_TA_cmp_int16_def)

interpretation ta_uint16: cmp_order js_TA_cmp_uint16
  by unfold_locales (auto simp: js_TA_cmp_uint16_def)

interpretation ta_int32: cmp_order js_TA_cmp_int32
  by unfold_locales (auto simp: js_TA_cmp_int32_def of_bool_def split: if_splits)

interpretation ta_uint32: cmp_order js_TA_cmp_uint32
  by unfold_locales (auto simp: js_TA_cmp_uint32_def of_bool_def split: if_splits)

interpretation ta_int64: cmp_order js_TA_cmp_int64
  by unfold_locales (auto simp: js_TA_cmp_int64_def of_bool_def split: if_splits)

interpretation ta_uint64: cmp_order js_TA_cmp_uint64
  by unfold_locales (auto simp: js_TA_cmp_uint64_def of_bool_def split: if_splits)

interpretation ta_float64: cmp_order js_TA_cmp_float64
  by unfold_locales (auto simp: js_TA_cmp_float64_def js_cmp_doubles_rank sgn_if split: if_splits)

text \<open>
  Sorting by a comparison whose sign is that of the difference of two keys sorts by the key.
\<close>

lemma rqsort_by_key:
  assumes "cmp_order cmp" "\<And>a b. cmp a b \<le> 0 \<longleftrightarrow> (key a :: int) \<le> key b"
  shows "\<exists>ys. rqsort cmp xs = Some ys \<and> mset ys = mset xs \<and> sorted (map key ys)"
  using rqsort_result[of cmp xs] assms
  by (auto simp: cmp_order_iff sorted_wrt_map)

lemmas ta_cmp_defs = js_TA_cmp_int8_def js_TA_cmp_uint8_def js_TA_cmp_int16_def
  js_TA_cmp_uint16_def js_TA_cmp_int32_def js_TA_cmp_uint32_def js_TA_cmp_int64_def
  js_TA_cmp_uint64_def js_TA_cmp_float64_def js_cmp_doubles_rank

section \<open>Properties\<close>

text \<open>
  C10. Sorting a typed array of doubles without a comparison function returns a permutation of it
  in ascending order, in which -0 comes before +0 and every NaN comes last.
\<close>

theorem typed_array_sort_doubles:
  "\<exists>ys. rqsort js_TA_cmp_float64 xs = Some ys \<and> mset ys = mset xs \<and> sorted (map dbl_rank ys)"
  by (rule rqsort_by_key[OF ta_float64.cmp_order_axioms]) (auto simp: ta_cmp_defs sgn_if)

text \<open>
  C11. Sorting a typed array of integers without a comparison function returns a permutation of
  it in ascending order of the signed or unsigned values, for each element width.
\<close>

theorem typed_array_sort_ints:
  "(\<exists>ys. rqsort js_TA_cmp_int8 as = Some ys \<and> mset ys = mset as \<and> sorted (map sint ys)) \<and>
   (\<exists>ys. rqsort js_TA_cmp_uint8 as = Some ys \<and> mset ys = mset as \<and> sorted (map uint ys)) \<and>
   (\<exists>ys. rqsort js_TA_cmp_int16 bs = Some ys \<and> mset ys = mset bs \<and> sorted (map sint ys)) \<and>
   (\<exists>ys. rqsort js_TA_cmp_uint16 bs = Some ys \<and> mset ys = mset bs \<and> sorted (map uint ys)) \<and>
   (\<exists>ys. rqsort js_TA_cmp_int32 cs = Some ys \<and> mset ys = mset cs \<and> sorted (map sint ys)) \<and>
   (\<exists>ys. rqsort js_TA_cmp_uint32 cs = Some ys \<and> mset ys = mset cs \<and> sorted (map uint ys)) \<and>
   (\<exists>ys. rqsort js_TA_cmp_int64 ds = Some ys \<and> mset ys = mset ds \<and> sorted (map sint ys)) \<and>
   (\<exists>ys. rqsort js_TA_cmp_uint64 ds = Some ys \<and> mset ys = mset ds \<and> sorted (map uint ys))"
  by (intro conjI rqsort_by_key ta_int8.cmp_order_axioms ta_uint8.cmp_order_axioms
      ta_int16.cmp_order_axioms ta_uint16.cmp_order_axioms ta_int32.cmp_order_axioms
      ta_uint32.cmp_order_axioms ta_int64.cmp_order_axioms ta_uint64.cmp_order_axioms)
     (auto simp: ta_cmp_defs of_bool_def word_less_def)

end
