(* ===== verification/Char_Range.thy ===== *)
theory Char_Range
  imports Qjs_Prelude
begin

text \<open>
  The sets of code points of \<^verbatim>\<open>libunicode.c\<close>: a \<^verbatim>\<open>CharRange\<close> is a growing array of points, of which
  each even one opens and each odd one closes an interval. The array is a list of \<open>cr_size\<close>
  cells; the allocator is a parameter that may fail; an access out of the array and a signed
  overflow of the \<^verbatim>\<open>int\<close> size computation are \<^const>\<open>None\<close>.
\<close>

section \<open>The structure and its growth\<close>

record char_range =
  cr_len :: nat
  cr_size :: nat
  points :: "u32 list"

type_synonym cr_realloc_func = "u32 list \<Rightarrow> nat \<Rightarrow> u32 list option"

definition cr_init :: char_range where
  "cr_init = \<lparr>cr_len = 0, cr_size = 0, points = []\<rparr>"

definition cr_realloc :: "cr_realloc_func \<Rightarrow> char_range \<Rightarrow> nat \<Rightarrow> (int \<times> char_range) option" where
  "cr_realloc ra cr sz =
     (if sz > cr_size cr then
        (if cr_size cr * 3 \<ge> 2 ^ 31 then None
         else
           (let new_size = max sz (cr_size cr * 3 div 2) in
            case ra (points cr) new_size of
              None \<Rightarrow> Some (- 1, cr)
            | Some new_buf \<Rightarrow> Some (0, cr\<lparr>points := new_buf, cr_size := new_size\<rparr>)))
      else Some (0, cr))"

definition cr_copy :: "cr_realloc_func \<Rightarrow> char_range \<Rightarrow> char_range \<Rightarrow> (int \<times> char_range) option" where
  "cr_copy ra cr cr1 = do {
     (r, cr) \<leftarrow> cr_realloc ra cr (cr_len cr1);
     if r \<noteq> 0 then Some (- 1, cr)
     else do {
       pts \<leftarrow> memcpy_at (points cr) 0 (take (cr_len cr1) (points cr1));
       Some (0, cr\<lparr>points := pts, cr_len := cr_len cr1\<rparr>) } }"

definition cr_add_point :: "cr_realloc_func \<Rightarrow> char_range \<Rightarrow> u32 \<Rightarrow> (int \<times> char_range) option" where
  "cr_add_point ra cr v = do {
     (r, cr) \<leftarrow> (if cr_len cr \<ge> cr_size cr then cr_realloc ra cr (cr_len cr + 1) else Some (0, cr));
     if r \<noteq> 0 then Some (- 1, cr)
     else do {
       pts \<leftarrow> wr (points cr) (cr_len cr) v;
       Some (0, cr\<lparr>points := pts, cr_len := cr_len cr + 1\<rparr>) } }"

definition cr_add_interval :: "cr_realloc_func \<Rightarrow> char_range \<Rightarrow> u32 \<Rightarrow> u32 \<Rightarrow> (int \<times> char_range) option" where
  "cr_add_interval ra cr c1 c2 = do {
     (r, cr) \<leftarrow> (if cr_len cr + 2 > cr_size cr then cr_realloc ra cr (cr_len cr + 2) else Some (0, cr));
     if r \<noteq> 0 then Some (- 1, cr)
     else do {
       pts \<leftarrow> wr (points cr) (cr_len cr) c1;
       pts \<leftarrow> wr pts (cr_len cr + 1) c2;
       Some (0, cr\<lparr>points := pts, cr_len := cr_len cr + 2\<rparr>) } }"

section \<open>Merging intervals in place\<close>

function cr_skip :: "u32 list \<Rightarrow> nat \<Rightarrow> nat \<Rightarrow> nat option" where
  "cr_skip pt len j =
     (if j + 3 < len then do {
        a \<leftarrow> rd pt (j + 1);
        b \<leftarrow> rd pt (j + 2);
        if a = b then cr_skip pt len (j + 2) else Some j }
      else Some j)"
  by pat_completeness auto
termination by (relation "measure (\<lambda>(pt, len, j). len - j)") auto

declare cr_skip.simps [simp del]

lemma cr_skip_ge: "cr_skip pt len i = Some j \<Longrightarrow> i \<le> j"
proof (induction pt len i rule: cr_skip.induct)
  case (1 pt len i)
  then show ?case by (subst (asm) (2) cr_skip.simps) (fastforce split: if_splits bind_splits)
qed

function cr_compress_loop :: "nat \<Rightarrow> nat \<Rightarrow> nat \<Rightarrow> u32 list \<Rightarrow> (u32 list \<times> nat) option" where
  "cr_compress_loop len i k pt =
     (if i + 1 < len then do {
        a \<leftarrow> rd pt i;
        b \<leftarrow> rd pt (i + 1);
        if a = b then cr_compress_loop len (i + 2) k pt
        else do {
          j \<leftarrow> cr_skip pt len i;
          x \<leftarrow> rd pt i;
          pt \<leftarrow> wr pt k x;
          y \<leftarrow> rd pt (j + 1);
          pt \<leftarrow> wr pt (k + 1) y;
          cr_compress_loop len (j + 2) (k + 2) pt } }
      else Some (pt, k))"
  by pat_completeness auto
termination
  by (relation "measure (\<lambda>(len, i, k, pt). len - i)") (auto dest!: cr_skip_ge)

declare cr_compress_loop.simps [simp del]

definition cr_compress :: "char_range \<Rightarrow> char_range option" where
  "cr_compress cr = do {
     (pt, k) \<leftarrow> cr_compress_loop (cr_len cr) 0 0 (points cr);
     Some (cr\<lparr>points := pt, cr_len := k\<rparr>) }"

section \<open>Set operations\<close>

datatype cr_op_enum = CR_OP_UNION | CR_OP_INTER | CR_OP_XOR

fun cr_is_in :: "cr_op_enum \<Rightarrow> bool \<Rightarrow> bool \<Rightarrow> bool" where
  "cr_is_in CR_OP_UNION a b = (a \<or> b)"
| "cr_is_in CR_OP_INTER a b = (a \<and> b)"
| "cr_is_in CR_OP_XOR a b = (a \<noteq> b)"

text \<open>One more point from \<open>a\<close> or \<open>b\<close> in increasing order, with the advanced indices.\<close>

definition cr_next :: "u32 list \<Rightarrow> u32 list \<Rightarrow> nat \<Rightarrow> nat \<Rightarrow> (u32 \<times> nat \<times> nat) option" where
  "cr_next a b a_idx b_idx =
     (if a_idx < length a \<and> b_idx < length b then
        (if a ! a_idx < b ! b_idx then Some (a ! a_idx, a_idx + 1, b_idx)
         else if a ! a_idx = b ! b_idx then Some (a ! a_idx, a_idx + 1, b_idx + 1)
         else Some (b ! b_idx, a_idx, b_idx + 1))
      else if a_idx < length a then Some (a ! a_idx, a_idx + 1, b_idx)
      else if b_idx < length b then Some (b ! b_idx, a_idx, b_idx + 1)
      else None)"

lemma cr_next_measure:
  "cr_next a b i j = Some (v, i', j') \<Longrightarrow> (length a - i') + (length b - j') < (length a - i) + (length b - j)"
  by (auto simp: cr_next_def split: if_splits)

function cr_op_loop ::
  "cr_realloc_func \<Rightarrow> cr_op_enum \<Rightarrow> u32 list \<Rightarrow> u32 list \<Rightarrow> nat \<Rightarrow> nat \<Rightarrow> char_range \<Rightarrow> (int \<times> char_range) option" where
  "cr_op_loop ra op a b a_idx b_idx cr =
     (case cr_next a b a_idx b_idx of
        None \<Rightarrow> Some (0, cr)
      | Some (v, a_idx, b_idx) \<Rightarrow>
          (if cr_is_in op (odd a_idx) (odd b_idx) \<noteq> odd (cr_len cr) then do {
             (r, cr) \<leftarrow> cr_add_point ra cr v;
             if r \<noteq> 0 then Some (- 1, cr) else cr_op_loop ra op a b a_idx b_idx cr }
           else cr_op_loop ra op a b a_idx b_idx cr))"
  by pat_completeness auto
termination
  by (relation "measure (\<lambda>(ra, op, a, b, i, j, cr). (length a - i) + (length b - j))")
     (auto dest: cr_next_measure)

declare cr_op_loop.simps [simp del]

definition cr_op ::
  "cr_realloc_func \<Rightarrow> char_range \<Rightarrow> u32 list \<Rightarrow> u32 list \<Rightarrow> cr_op_enum \<Rightarrow> (int \<times> char_range) option" where
  "cr_op ra cr a b op = do {
     (r, cr) \<leftarrow> cr_op_loop ra op a b 0 0 cr;
     if r \<noteq> 0 then Some (- 1, cr)
     else do { cr \<leftarrow> cr_compress cr; Some (0, cr) } }"

definition cr_union1 :: "cr_realloc_func \<Rightarrow> char_range \<Rightarrow> u32 list \<Rightarrow> (int \<times> char_range) option" where
  "cr_union1 ra cr b =
     cr_op ra (cr\<lparr>cr_len := 0, cr_size := 0, points := []\<rparr>) (take (cr_len cr) (points cr)) b CR_OP_UNION"

definition cr_union_interval :: "cr_realloc_func \<Rightarrow> char_range \<Rightarrow> u32 \<Rightarrow> u32 \<Rightarrow> (int \<times> char_range) option" where
  "cr_union_interval ra cr c1 c2 = cr_union1 ra cr [c1, c2 + 1]"

definition cr_invert :: "cr_realloc_func \<Rightarrow> char_range \<Rightarrow> (int \<times> char_range) option" where
  "cr_invert ra cr = do {
     let len = cr_len cr;
     (r, cr) \<leftarrow> cr_realloc ra cr (len + 2);
     if r \<noteq> 0 then Some (- 1, cr)
     else do {
       pts \<leftarrow> memcpy_at (points cr) 1 (take len (points cr));
       pts \<leftarrow> wr pts 0 0;
       pts \<leftarrow> wr pts (len + 1) 0xFFFFFFFF;
       cr \<leftarrow> cr_compress (cr\<lparr>points := pts, cr_len := len + 2\<rparr>);
       Some (0, cr) } }"

section \<open>Sets of code points\<close>

text \<open>The set that a list of points denotes, and the number of points not above a code point.\<close>

fun in_points :: "u32 \<Rightarrow> u32 list \<Rightarrow> bool" where
  "in_points c (p # q # r) \<longleftrightarrow> p \<le> c \<and> c < q \<or> in_points c r"
| "in_points c _ \<longleftrightarrow> False"

definition upto_count :: "u32 \<Rightarrow> u32 list \<Rightarrow> nat" where
  "upto_count c xs = length (filter (\<lambda>p. p \<le> c) xs)"

definition pts_ok :: "u32 list \<Rightarrow> bool" where
  "pts_ok xs \<longleftrightarrow> sorted xs \<and> even (length xs)"

definition cr_data :: "char_range \<Rightarrow> u32 list" where
  "cr_data cr = take (cr_len cr) (points cr)"

definition cr_wf :: "char_range \<Rightarrow> bool" where
  "cr_wf cr \<longleftrightarrow> length (points cr) = cr_size cr \<and> cr_len cr \<le> cr_size cr"

text \<open>What \<^verbatim>\<open>realloc\<close> documents, for arrays of points.\<close>

definition cr_realloc_ok :: "cr_realloc_func \<Rightarrow> bool" where
  "cr_realloc_ok ra \<longleftrightarrow> (\<forall>p n b. ra p n = Some b \<longrightarrow> length b = n \<and> take (length p) b = take n p)"

lemma upto_count_simps [simp]:
  "upto_count c [] = 0" "upto_count c (x # xs) = (if x \<le> c then 1 else 0) + upto_count c xs"
  "upto_count c (xs @ ys) = upto_count c xs + upto_count c ys"
  by (simp_all add: upto_count_def)

lemma upto_count_all: "(\<And>x. x \<in> set xs \<Longrightarrow> x \<le> c) \<Longrightarrow> upto_count c xs = length xs"
  by (induction xs) auto

lemma upto_count_none: "(\<And>x. x \<in> set xs \<Longrightarrow> c < x) \<Longrightarrow> upto_count c xs = 0"
  by (induction xs) (auto simp: not_le[symmetric])

lemma in_points_parity: "pts_ok xs \<Longrightarrow> in_points c xs \<longleftrightarrow> odd (upto_count c xs)"
proof (induction c xs rule: in_points.induct)
  case (1 c p q r)
  then have "pts_ok r" "p \<le> q" "\<And>x. x \<in> set r \<Longrightarrow> q \<le> x" by (auto simp: pts_ok_def)
  moreover have "upto_count c r = 0" if "c < q" using that calculation(3) by (intro upto_count_none) force
  ultimately show ?case using 1 by (cases "q \<le> c") (auto simp: not_le)
qed (auto simp: pts_ok_def)

section \<open>Compression\<close>

fun compress :: "u32 list \<Rightarrow> u32 list" where
  "compress (p # q # x # y # r) =
     (if p = q then compress (x # y # r) else if q = x then compress (p # y # r)
      else p # q # compress (x # y # r))"
| "compress [p, q] = (if p = q then [] else [p, q])"
| "compress _ = []"

lemma compress_subset: "set (compress xs) \<subseteq> set xs"
  by (induction xs rule: compress.induct) auto

lemma even_length_compress: "even (length (compress xs))"
  by (induction xs rule: compress.induct) auto

lemma in_points_compress: "pts_ok xs \<Longrightarrow> in_points c (compress xs) = in_points c xs"
proof (induction xs rule: compress.induct)
  case (1 p q x y r)
  have "in_points c (compress (p # y # r)) = in_points c (p # y # r)" if "p \<noteq> q" "q = x"
    using 1(2) that "1.prems" by (auto simp: pts_ok_def)
  then show ?case using 1 by (auto simp: pts_ok_def)
qed (auto simp: pts_ok_def)

lemma compress_strict: "pts_ok xs \<Longrightarrow> sorted_wrt (<) (compress xs)"
proof (induction xs rule: compress.induct)
  case (1 p q x y r)
  show ?case
  proof (cases "p = q \<or> q = x")
    case True
    then show ?thesis using 1 by (auto simp: pts_ok_def)
  next
    case False
    have "\<forall>z\<in>set (compress (x # y # r)). q < z"
      using "1.prems" False compress_subset[of "x # y # r"]
      by (fastforce simp: pts_ok_def)
    moreover have "p < q" "pts_ok (x # y # r)" using False "1.prems" by (auto simp: pts_ok_def)
    ultimately show ?thesis using False 1(3) by auto
  qed
qed (auto simp: pts_ok_def)

lemma compress_odd_tail: "\<not> i + 1 < length xs \<Longrightarrow> compress (drop i xs) = []"
proof -
  assume "\<not> i + 1 < length xs"
  then have "length (drop i xs) \<le> 1" by simp
  then show ?thesis by (cases "drop i xs" rule: compress.cases) auto
qed

text \<open>The inner loop finds the end of a run of adjacent intervals.\<close>

lemma cr_skip_compress:
  assumes "len \<le> length pt" "even len"
  shows "j + 1 < len \<Longrightarrow> even j \<Longrightarrow> sorted (p # drop (j + 1) (take len pt)) \<Longrightarrow> p < pt ! (j + 1) \<Longrightarrow>
    \<exists>j'. cr_skip pt len j = Some j' \<and> j \<le> j' \<and> j' + 1 < len \<and> even j' \<and>
      compress (p # drop (j + 1) (take len pt)) = p # pt ! (j' + 1) # compress (drop (j' + 2) (take len pt))"
proof (induction "len - j" arbitrary: j rule: less_induct)
  case less
  let ?L = "take len pt"
  have d1: "drop (j + 1) ?L = pt ! (j + 1) # drop (j + 2) ?L"
    using less.prems(1) assms(1) by (subst Cons_nth_drop_Suc[symmetric]) auto
  show ?case
  proof (cases "j + 3 < len")
    case False
    then have "len = j + 2" using less.prems(1,2) assms(2) by presburger
    then show ?thesis using less.prems d1 by (subst cr_skip.simps) auto
  next
    case True
    have d2: "drop (j + 2) ?L = pt ! (j + 2) # pt ! (j + 3) # drop (j + 4) ?L"
      using True assms(1) Cons_nth_drop_Suc[of "j + 2" ?L] Cons_nth_drop_Suc[of "j + 3" ?L]
      by (simp add: numeral_eq_Suc)
    show ?thesis
    proof (cases "pt ! (j + 1) = pt ! (j + 2)")
      case eq: True
      have d3: "drop (j + 2 + 1) ?L = pt ! (j + 3) # drop (j + 4) ?L"
        using True assms(1) Cons_nth_drop_Suc[of "j + 3" ?L] by (simp add: numeral_eq_Suc)
      have j3: "j + 2 + 1 = j + 3" by simp
      have s: "sorted (p # drop (j + 2 + 1) ?L)" "p < pt ! (j + 2 + 1)"
        using less.prems(3,4) unfolding d1 d2 d3 unfolding j3 by auto
      have "compress (p # drop (j + 1) ?L) = compress (p # drop (j + 2 + 1) ?L)"
        unfolding d1 d2 d3 using eq less.prems(4) by simp
      moreover have "cr_skip pt len j = cr_skip pt len (j + 2)"
        using True eq assms(1) by (subst cr_skip.simps) (simp add: arr_simps)
      moreover obtain j' where "cr_skip pt len (j + 2) = Some j'" "j + 2 \<le> j'" "j' + 1 < len" "even j'"
          "compress (p # drop (j + 2 + 1) ?L) = p # pt ! (j' + 1) # compress (drop (j' + 2) ?L)"
      proof -
        have "len - (j + 2) < len - j" "j + 2 + 1 < len" "even (j + 2)" using True less.prems(2) by auto
        from less.hyps[OF this s] show ?thesis using that by blast
      qed
      ultimately show ?thesis by (intro exI[of _ j']) simp
    next
      case False
      have "compress (p # drop (j + 1) ?L) = p # pt ! (j + 1) # compress (drop (j + 2) ?L)"
        unfolding d1 d2 using False less.prems(4) by simp
      moreover have "cr_skip pt len j = Some j"
        using True False assms(1) by (subst cr_skip.simps) (simp add: arr_simps)
      ultimately show ?thesis using less.prems(1,2) by (intro exI[of _ j]) blast
    qed
  qed
qed

lemma cr_compress_loop_spec:
  "len \<le> length pt \<Longrightarrow> even len \<Longrightarrow> even i \<Longrightarrow> k \<le> i \<Longrightarrow> sorted (drop i (take len pt)) \<Longrightarrow>
   \<exists>pt' k'. cr_compress_loop len i k pt = Some (pt', k') \<and> length pt' = length pt \<and> k' \<le> max k len \<and>
     take k' pt' = take k pt @ compress (drop i (take len pt))"
proof (induction "len - i" arbitrary: i k pt rule: less_induct)
  case less
  let ?L = "take len pt"
  show ?case
  proof (cases "i + 1 < len")
    case False
    then show ?thesis using compress_odd_tail[of i ?L] less.prems(1) by (subst cr_compress_loop.simps) simp
  next
    case True
    have i1: "i < length pt" "i + 1 < length pt" using True less.prems(1) by auto
    have d0: "drop i ?L = pt ! i # drop (i + 1) ?L" "drop (i + 1) ?L = pt ! (i + 1) # drop (i + 2) ?L"
      using True i1 Cons_nth_drop_Suc[of i ?L] Cons_nth_drop_Suc[of "i + 1" ?L] by simp_all
    show ?thesis
    proof (cases "pt ! i = pt ! (i + 1)")
      case eq: True
      have "compress (drop i ?L) = compress (drop (i + 2) ?L)"
        unfolding d0 using eq by (cases "drop (i + 2) ?L" rule: compress.cases) auto
      moreover have "cr_compress_loop len i k pt = cr_compress_loop len (i + 2) k pt"
        using True eq i1 by (subst cr_compress_loop.simps) (simp add: arr_simps)
      moreover have "sorted (drop (i + 2) ?L)" using less.prems(5) unfolding d0 by simp
      moreover have "len - (i + 2) < len - i" "even (i + 2)" "k \<le> i + 2" using True less.prems by auto
      ultimately show ?thesis using less.hyps[of "i + 2" pt k] less.prems(1,2) by presburger
    next
      case False
      then have lt: "pt ! i < pt ! (i + 1)" using less.prems(5) unfolding d0 by auto
      obtain j where j: "cr_skip pt len i = Some j" "i \<le> j" "j + 1 < len" "even j"
          "compress (drop i ?L) = pt ! i # pt ! (j + 1) # compress (drop (j + 2) ?L)"
        using cr_skip_compress[OF less.prems(1,2) True less.prems(3) _ lt] less.prems(5) unfolding d0 by auto
      define pt2 where "pt2 = pt[k := pt ! i, k + 1 := pt ! (j + 1)]"
      have rest: "drop (j + 2) (take len pt2) = drop (j + 2) ?L"
        using less.prems(4) j(2) by (simp add: pt2_def drop_update_cancel take_update_swap)
      have y: "pt[k := pt ! i] ! (j + 1) = pt ! (j + 1)" using less.prems(4) j(2) by simp
      have eq: "cr_compress_loop len i k pt = cr_compress_loop len (j + 2) (k + 2) pt2"
        using True False i1 j(1,2,3) less.prems(1,4) y
        by (subst cr_compress_loop.simps) (simp add: arr_simps pt2_def)
      have "sorted (drop (j + 2) (take len pt2))"
        using less.prems(5) j(2) sorted_wrt_drop[of "(\<le>)" "drop i ?L" "j + 2 - i"] unfolding rest by simp
      moreover have "len - (j + 2) < len - i" "even (j + 2)" "k + 2 \<le> j + 2" "len \<le> length pt2"
        using True j(2,4) less.prems(1,4) by (auto simp: pt2_def)
      ultimately obtain pt' k' where r: "cr_compress_loop len (j + 2) (k + 2) pt2 = Some (pt', k')"
          "length pt' = length pt2" "k' \<le> max (k + 2) len"
          "take k' pt' = take (k + 2) pt2 @ compress (drop (j + 2) (take len pt2))"
        using less.hyps[of "j + 2" pt2 "k + 2"] less.prems(2) by blast
      have "take (k + 2) pt2 = take k pt @ [pt ! i, pt ! (j + 1)]"
        using less.prems(4) i1 by (simp add: pt2_def take_Suc_conv_app_nth)
      then show ?thesis using eq r rest j(3,5) less.prems(4) j(2) by (auto simp: pt2_def)
    qed
  qed
qed

lemma cr_compress_spec:
  assumes wf: "cr_wf cr" and ok: "pts_ok (cr_data cr)"
  shows "\<exists>cr'. cr_compress cr = Some cr' \<and> cr_wf cr' \<and> cr_size cr' = cr_size cr \<and> cr_data cr' = compress (cr_data cr)"
proof -
  have len: "cr_len cr \<le> length (points cr)" using wf by (simp add: cr_wf_def)
  have "even (cr_len cr)" using ok len by (simp add: pts_ok_def cr_data_def)
  then obtain pt' k' where "cr_compress_loop (cr_len cr) 0 0 (points cr) = Some (pt', k')"
      "length pt' = length (points cr)" "k' \<le> cr_len cr" "take k' pt' = compress (take (cr_len cr) (points cr))"
    using cr_compress_loop_spec[OF len, of 0 0] ok by (auto simp: pts_ok_def cr_data_def)
  then show ?thesis using wf by (auto simp: cr_compress_def cr_wf_def cr_data_def)
qed

section \<open>Growth\<close>

text \<open>The allocator refuses some request.\<close>

definition cr_fails :: "cr_realloc_func \<Rightarrow> bool" where
  "cr_fails ra \<longleftrightarrow> (\<exists>p n. ra p n = None)"

lemma cr_failsI: "ra p n = None \<Longrightarrow> cr_fails ra"
  by (auto simp: cr_fails_def)

lemma cr_realloc_spec:
  assumes ra: "cr_realloc_ok ra" and wf: "cr_wf cr" and small: "sz \<le> cr_size cr \<or> 3 * cr_size cr < 2 ^ 31"
  shows "\<exists>r cr'. cr_realloc ra cr sz = Some (r, cr') \<and> cr_wf cr' \<and> cr_len cr' = cr_len cr \<and>
    cr_data cr' = cr_data cr \<and> (r = 0 \<and> sz \<le> cr_size cr' \<or> r = - 1 \<and> cr_fails ra)"
proof (cases "sz > cr_size cr")
  case True
  define n where "n = max sz (cr_size cr * 3 div 2)"
  have eq: "cr_realloc ra cr sz = (case ra (points cr) n of None \<Rightarrow> Some (- 1, cr)
      | Some b \<Rightarrow> Some (0, cr\<lparr>points := b, cr_size := n\<rparr>))"
    unfolding n_def cr_realloc_def Let_def using True small by simp
  show ?thesis
  proof (cases "ra (points cr) n")
    case None
    then show ?thesis using eq wf cr_failsI[of ra "points cr" n] by simp
  next
    case (Some b)
    then have b: "length b = n" "take (length (points cr)) b = take n (points cr)"
      using ra by (auto simp: cr_realloc_ok_def)
    have le: "cr_len cr \<le> length (points cr)" "length (points cr) \<le> n"
      using wf True by (auto simp: cr_wf_def n_def)
    have "take (cr_len cr) b = take (cr_len cr) (take (length (points cr)) b)" using le(1) by simp
    also have "\<dots> = take (cr_len cr) (points cr)" unfolding b(2) using le by simp
    finally show ?thesis using Some eq b le by (simp add: cr_wf_def cr_data_def n_def)
  qed
next
  case False
  then show ?thesis using wf by (simp add: cr_realloc_def)
qed

lemma cr_add_point_spec:
  assumes ra: "cr_realloc_ok ra" and wf: "cr_wf cr" and small: "3 * cr_len cr < 2 ^ 31"
  shows "\<exists>r cr'. cr_add_point ra cr v = Some (r, cr') \<and> cr_wf cr' \<and>
    (r = 0 \<and> cr_data cr' = cr_data cr @ [v] \<or> r = - 1 \<and> cr_fails ra)"
proof -
  have "cr_len cr + 1 \<le> cr_size cr \<or> 3 * cr_size cr < 2 ^ 31" using wf small by (auto simp: cr_wf_def)
  then obtain r0 cr0 where r0: "cr_realloc ra cr (cr_len cr + 1) = Some (r0, cr0)" "cr_wf cr0"
      "cr_len cr0 = cr_len cr" "cr_data cr0 = cr_data cr" "r0 = 0 \<and> cr_len cr + 1 \<le> cr_size cr0 \<or> r0 = - 1 \<and> cr_fails ra"
    using cr_realloc_spec[OF ra wf] by blast
  define r cr1 where "r = (if cr_len cr \<ge> cr_size cr then r0 else 0)" and "cr1 = (if cr_len cr \<ge> cr_size cr then cr0 else cr)"
  have r: "(if cr_len cr \<ge> cr_size cr then cr_realloc ra cr (cr_len cr + 1) else Some (0, cr)) = Some (r, cr1)"
      "cr_wf cr1" "cr_len cr1 = cr_len cr" "cr_data cr1 = cr_data cr" "r = 0 \<and> cr_len cr1 < cr_size cr1 \<or> r = - 1 \<and> cr_fails ra"
    using r0 wf by (auto simp: r_def cr1_def)
  from r(5) show ?thesis
  proof
    assume a: "r = 0 \<and> cr_len cr1 < cr_size cr1"
    then have l: "cr_len cr1 < length (points cr1)" using r(2) by (simp add: cr_wf_def)
    define cr' where "cr' = cr1\<lparr>points := (points cr1)[cr_len cr1 := v], cr_len := cr_len cr1 + 1\<rparr>"
    have "cr_add_point ra cr v = Some (0, cr')"
      using r(1) a l by (simp add: cr_add_point_def arr_simps cr'_def)
    moreover have "cr_wf cr'" using r(2) l by (simp add: cr_wf_def cr'_def)
    moreover have "cr_data cr' = cr_data cr1 @ [v]"
      using l by (simp add: cr_data_def cr'_def take_Suc_conv_app_nth)
    ultimately show ?thesis using r(4) by auto
  qed (use r in \<open>simp add: cr_add_point_def\<close>)
qed

section \<open>Union, intersection, symmetric difference\<close>

text \<open>
  The loop has read the points \<open>take i a\<close> and \<open>take j b\<close>, none of which is above a point still to
  be read; the points written so far delimit the combination of what was read.
\<close>

definition op_inv :: "cr_op_enum \<Rightarrow> u32 list \<Rightarrow> u32 list \<Rightarrow> nat \<Rightarrow> nat \<Rightarrow> u32 list \<Rightarrow> bool" where
  "op_inv op a b i j out \<longleftrightarrow> i \<le> length a \<and> j \<le> length b \<and> sorted out \<and> length out \<le> i + j \<and>
     odd (length out) = cr_is_in op (odd i) (odd j) \<and>
     (\<forall>x \<in> set (take i a) \<union> set (take j b) \<union> set out. \<forall>y \<in> set (drop i a) \<union> set (drop j b). x \<le> y) \<and>
     (\<forall>c. odd (upto_count c out) = cr_is_in op (odd (upto_count c (take i a))) (odd (upto_count c (take j b))))"

lemma cr_next_cases:
  assumes "cr_next a b i j = Some (v, i', j')" "sorted a" "sorted b"
  obtains "i < length a" "i' = i + 1" "j' = j" "v = a ! i" "\<forall>y\<in>set (drop j b). v \<le> y"
  | "i < length a" "j < length b" "i' = i + 1" "j' = j + 1" "v = a ! i" "b ! j = a ! i"
  | "j < length b" "i' = i" "j' = j + 1" "v = b ! j" "\<forall>y\<in>set (drop i a). v \<le> y"
proof -
  have srt: "xs ! k \<le> y" if "sorted xs" "k < length xs" "y \<in> set (drop k xs)" for xs :: "u32 list" and k y
    using that by (auto simp: in_set_conv_nth sorted_nth_mono)
  have ta: "\<forall>y\<in>set (drop i a). b ! j \<le> y" if "b ! j < a ! i" "i < length a" using srt[OF assms(2)] that by fastforce
  have tb: "\<forall>y\<in>set (drop j b). a ! i \<le> y" if "a ! i < b ! j" "j < length b" using srt[OF assms(3)] that by fastforce
  consider (both) "i < length a" "j < length b" | (a) "i < length a" "\<not> j < length b" | (b) "\<not> i < length a" "j < length b"
    using assms(1) by (auto simp: cr_next_def split: if_splits)
  then show thesis
  proof cases
    case both
    then consider "a ! i < b ! j" | "a ! i = b ! j" | "b ! j < a ! i" using linorder_less_linear by blast
    then show ?thesis
    proof cases
      case 1
      then show ?thesis using assms(1) both that(1) tb by (simp add: cr_next_def)
    next
      case 2
      then show ?thesis using assms(1) both that(2) by (simp add: cr_next_def)
    next
      case 3
      then have "\<not> a ! i < b ! j" "a ! i \<noteq> b ! j" by auto
      then show ?thesis using 3 assms(1) both that(3) ta by (simp add: cr_next_def)
    qed
  next
    case a
    then show ?thesis using assms(1) that(1) by (simp add: cr_next_def)
  next
    case b
    then show ?thesis using assms(1) that(3) by (simp add: cr_next_def)
  qed
qed

lemma sorted_drop_ge: "sorted xs \<Longrightarrow> k < length xs \<Longrightarrow> y \<in> set (drop k xs) \<Longrightarrow> xs ! k \<le> (y :: u32)"
  by (auto simp: in_set_conv_nth sorted_nth_mono)

text \<open>What one step reads: \<open>v\<close> is a least unread point, and each of the two lists advances over it or not.\<close>

lemma cr_next_reads:
  assumes nx: "cr_next a b i j = Some (v, i', j')" and srt: "sorted a" "sorted b"
  obtains va vb where "set va \<subseteq> {v}" "set vb \<subseteq> {v}" "take i' a = take i a @ va" "take j' b = take j b @ vb"
    "i' = i + length va" "j' = j + length vb" "0 < length va + length vb" "i \<le> length a \<Longrightarrow> i' \<le> length a" "j \<le> length b \<Longrightarrow> j' \<le> length b"
    "v \<in> set (drop i a) \<union> set (drop j b)" "\<forall>y \<in> set (drop i' a) \<union> set (drop j' b). v \<le> y"
proof -
  have ge: "\<forall>y\<in>set (drop (k + 1) xs). xs ! k \<le> y" if "sorted xs" "k < length xs" for xs :: "u32 list" and k
    using that sorted_drop_ge[of xs k] set_drop_subset_set_drop[of k "k + 1" xs] by auto
  have hd: "xs ! k \<in> set (drop k xs)" if "k < length xs" for xs :: "u32 list" and k
    using that by (metis Cons_nth_drop_Suc list.set_intros(1))
  show thesis
    using nx srt
  proof (cases rule: cr_next_cases)
    case 1
    then show ?thesis using that[of "[v]" "[]"] ge[OF srt(1)] hd by (auto simp: take_Suc_conv_app_nth)
  next
    case 2
    then show ?thesis using that[of "[v]" "[v]"] ge[OF srt(1)] ge[OF srt(2), of j] hd
      by (auto simp: take_Suc_conv_app_nth)
  next
    case 3
    then show ?thesis using that[of "[]" "[v]"] ge[OF srt(2)] hd by (auto simp: take_Suc_conv_app_nth)
  qed
qed

lemma op_inv_step:
  assumes inv: "op_inv op a b i j out" and nx: "cr_next a b i j = Some (v, i', j')" and srt: "sorted a" "sorted b"
  shows "op_inv op a b i' j' (if cr_is_in op (odd i') (odd j') \<noteq> odd (length out) then out @ [v] else out)"
    (is "op_inv op a b i' j' ?out")
proof -
  from nx srt obtain va vb where v: "set va \<subseteq> {v}" "set vb \<subseteq> {v}" "take i' a = take i a @ va"
    "take j' b = take j b @ vb" "i' = i + length va" "j' = j + length vb" "0 < length va + length vb"
    "i \<le> length a \<Longrightarrow> i' \<le> length a" "j \<le> length b \<Longrightarrow> j' \<le> length b"
    "v \<in> set (drop i a) \<union> set (drop j b)" "\<forall>y \<in> set (drop i' a) \<union> set (drop j' b). v \<le> y"
    by (rule cr_next_reads) blast+
  have old: "i \<le> length a" "j \<le> length b" "sorted out" "length out \<le> i + j"
    and sep: "\<And>x. x \<in> set (take i a) \<union> set (take j b) \<union> set out \<Longrightarrow> x \<le> v"
    and par: "\<And>c. odd (upto_count c out) = cr_is_in op (odd (upto_count c (take i a))) (odd (upto_count c (take j b)))"
    using inv v(10) by (auto simp: op_inv_def)
  have all: "x \<le> v" if "x \<in> set (take i' a) \<union> set (take j' b) \<union> set ?out" for x
    using that sep v(1-4) by (auto split: if_splits)
  have srt': "sorted ?out" using old(3) sep by (auto simp: sorted_append)
  have "length ?out \<le> Suc (length out)" by simp
  then have "length ?out \<le> i' + j'" using old(4) v(5-7) by linarith
  then have len: "length ?out \<le> i' + j'" "i' \<le> length a" "j' \<le> length b" using old(1,2) v(8,9) by auto
  have odd: "odd (length ?out) = cr_is_in op (odd i') (odd j')" by auto
  have "odd (upto_count c ?out) = cr_is_in op (odd (upto_count c (take i' a))) (odd (upto_count c (take j' b)))" for c
  proof (cases "v \<le> c")
    case True
    have cnt: "upto_count c xs = length xs" if "set xs \<subseteq> set (take i' a) \<union> set (take j' b) \<union> set ?out" for xs
      using that all True by (intro upto_count_all) (meson order_trans subsetD)
    have "upto_count c ?out = length ?out" "upto_count c (take i' a) = i'" "upto_count c (take j' b) = j'"
      using cnt[of ?out] cnt[of "take i' a"] cnt[of "take j' b"] len(2,3) by auto
    then show ?thesis using odd by metis
  next
    case False
    then have "upto_count c va = 0" "upto_count c vb = 0" "upto_count c [v] = 0"
      using v(1,2) by (auto intro!: upto_count_none simp: not_le)
    then show ?thesis using par[of c] v(3,4) by simp
  qed
  moreover have "x \<le> y" if "x \<in> set (take i' a) \<union> set (take j' b) \<union> set ?out" "y \<in> set (drop i' a) \<union> set (drop j' b)" for x y
    using all[OF that(1)] v(11) that(2) by (meson order_trans)
  ultimately show ?thesis using srt' len odd unfolding op_inv_def by blast
qed

lemma op_inv_0: "op_inv op a b 0 0 []"
  by (cases op) (auto simp: op_inv_def)

lemma cr_op_loop_spec:
  assumes ra: "cr_realloc_ok ra" and srt: "sorted a" "sorted b" and small: "3 * (length a + length b) < 2 ^ 31"
  shows "cr_wf cr \<Longrightarrow> op_inv op a b i j (cr_data cr) \<Longrightarrow>
    \<exists>r cr'. cr_op_loop ra op a b i j cr = Some (r, cr') \<and> cr_wf cr' \<and>
      (r = 0 \<and> op_inv op a b (length a) (length b) (cr_data cr') \<or> r = - 1 \<and> cr_fails ra)"
proof (induction "(length a - i) + (length b - j)" arbitrary: i j cr rule: less_induct)
  case less
  have len: "length (cr_data cr) = cr_len cr" using less.prems(1) by (simp add: cr_data_def cr_wf_def)
  show ?case
  proof (cases "cr_next a b i j")
    case None
    then have "i = length a" "j = length b" using less.prems(2) by (auto simp: cr_next_def op_inv_def split: if_splits)
    then show ?thesis using None less.prems by (subst cr_op_loop.simps) simp
  next
    case (Some w)
    obtain v i' j' where w: "w = (v, i', j')" by (cases w)
    have nx: "cr_next a b i j = Some (v, i', j')" using Some w by simp
    note IH = less.hyps[OF cr_next_measure[OF nx]] and step = op_inv_step[OF less.prems(2) nx srt]
    show ?thesis
    proof (cases "cr_is_in op (odd i') (odd j') \<noteq> odd (cr_len cr)")
      case True
      have "3 * cr_len cr < 2 ^ 31" using less.prems(2) small len by (auto simp: op_inv_def)
      then obtain r cr1 where r: "cr_add_point ra cr v = Some (r, cr1)" "cr_wf cr1"
          "r = 0 \<and> cr_data cr1 = cr_data cr @ [v] \<or> r = - 1 \<and> cr_fails ra"
        using cr_add_point_spec[OF ra less.prems(1), of v] by blast
      show ?thesis using r True IH[OF r(2)] step len
        by (subst cr_op_loop.simps) (auto simp: nx)
    next
      case False
      then show ?thesis using IH[OF less.prems(1)] step len by (subst cr_op_loop.simps) (simp add: nx)
    qed
  qed
qed

lemma op_inv_result:
  assumes "op_inv op a b (length a) (length b) out" "pts_ok a" "pts_ok b"
  shows "pts_ok out" "in_points c out = cr_is_in op (in_points c a) (in_points c b)"
proof -
  show ok: "pts_ok out" using assms by (cases op) (auto simp: op_inv_def pts_ok_def)
  show "in_points c out = cr_is_in op (in_points c a) (in_points c b)"
    using assms(1) by (simp add: in_points_parity[OF ok] in_points_parity[OF assms(2)] in_points_parity[OF assms(3)] op_inv_def)
qed

text \<open>The points of a range in normal form: strictly increasing and even in number.\<close>

definition cr_normal :: "char_range \<Rightarrow> bool" where
  "cr_normal cr \<longleftrightarrow> cr_wf cr \<and> sorted_wrt (<) (cr_data cr) \<and> even (length (cr_data cr))"

lemma cr_normal_ok: "cr_normal cr \<Longrightarrow> cr_wf cr \<and> pts_ok (cr_data cr)"
  by (auto simp: cr_normal_def pts_ok_def strict_sorted_imp_sorted)

lemma cr_compress_normal:
  assumes "cr_wf cr" "pts_ok (cr_data cr)"
  shows "\<exists>cr'. cr_compress cr = Some cr' \<and> cr_normal cr' \<and>
    (\<forall>c. in_points c (cr_data cr') = in_points c (cr_data cr))"
  using cr_compress_spec[OF assms] compress_strict[OF assms(2)] in_points_compress[OF assms(2)]
    even_length_compress[of "cr_data cr"] by (auto simp: cr_normal_def)

lemma cr_op_spec:
  assumes ra: "cr_realloc_ok ra" and ok: "pts_ok a" "pts_ok b" and small: "3 * (length a + length b) < 2 ^ 31"
    and cr: "cr_wf cr" "cr_len cr = 0"
  shows "\<exists>r cr'. cr_op ra cr a b op = Some (r, cr') \<and>
    (r = 0 \<and> cr_normal cr' \<and> (\<forall>c. in_points c (cr_data cr') = cr_is_in op (in_points c a) (in_points c b)) \<or> r = - 1 \<and> cr_fails ra)"
proof -
  have srt: "sorted a" "sorted b" using ok by (auto simp: pts_ok_def)
  have "op_inv op a b 0 0 (cr_data cr)" using cr(2) op_inv_0 by (simp add: cr_data_def)
  from cr_op_loop_spec[OF ra srt small cr(1) this]
  obtain r cr1 where r: "cr_op_loop ra op a b 0 0 cr = Some (r, cr1)" "cr_wf cr1"
    "r = 0 \<and> op_inv op a b (length a) (length b) (cr_data cr1) \<or> r = - 1 \<and> cr_fails ra" by blast
  show ?thesis
  proof (cases "r = 0")
    case True
    then have inv: "op_inv op a b (length a) (length b) (cr_data cr1)" using r(3) by simp
    obtain cr2 where "cr_compress cr1 = Some cr2" "cr_normal cr2"
        "\<forall>c. in_points c (cr_data cr2) = in_points c (cr_data cr1)"
      using cr_compress_normal[OF r(2) op_inv_result(1)[OF inv ok]] by blast
    then show ?thesis using r(1) True op_inv_result(2)[OF inv ok] by (simp add: cr_op_def)
  next
    case False
    then show ?thesis using r by (simp add: cr_op_def)
  qed
qed

lemma cr_data_length: "cr_wf cr \<Longrightarrow> length (cr_data cr) = cr_len cr"
  by (simp add: cr_data_def cr_wf_def)

lemma u32_top: "x \<le> (0xFFFFFFFF :: u32)"
  using unsigned_less[of x, where 'a = nat] by (simp add: word_le_nat_alt)

lemma in_points_max: "\<not> in_points 0xFFFFFFFF xs"
proof (induction "0xFFFFFFFF :: u32" xs rule: in_points.induct)
  case (1 p q r)
  then show ?case using u32_top[of q] by (simp add: not_less)
qed simp_all

lemma pts_ok_invert:
  assumes "pts_ok xs"
  shows "pts_ok (0 # xs @ [0xFFFFFFFF])"
    "in_points c (0 # xs @ [0xFFFFFFFF]) \<longleftrightarrow> c \<noteq> 0xFFFFFFFF \<and> \<not> in_points c xs"
proof -
  show ok: "pts_ok (0 # xs @ [0xFFFFFFFF])" using assms u32_top by (auto simp: pts_ok_def sorted_append)
  have "(0xFFFFFFFF \<le> c) \<longleftrightarrow> c = 0xFFFFFFFF" using u32_top[of c] by auto
  then show "in_points c (0 # xs @ [0xFFFFFFFF]) \<longleftrightarrow> c \<noteq> 0xFFFFFFFF \<and> \<not> in_points c xs"
    using in_points_max[of xs] unfolding in_points_parity[OF ok] in_points_parity[OF assms]
    by (cases "c = 0xFFFFFFFF") auto
qed

lemma cr_invert_spec:
  assumes ra: "cr_realloc_ok ra" and cr: "cr_wf cr" "pts_ok (cr_data cr)" and small: "3 * cr_size cr < 2 ^ 31"
  shows "\<exists>r cr'. cr_invert ra cr = Some (r, cr') \<and>
    (r = 0 \<and> cr_normal cr' \<and> (\<forall>c. in_points c (cr_data cr') \<longleftrightarrow> c \<noteq> 0xFFFFFFFF \<and> \<not> in_points c (cr_data cr)) \<or> r = - 1 \<and> cr_fails ra)"
proof -
  define n where "n = cr_len cr"
  obtain r cr1 where r: "cr_realloc ra cr (n + 2) = Some (r, cr1)" "cr_wf cr1" "cr_len cr1 = n"
      "cr_data cr1 = cr_data cr" "r = 0 \<and> n + 2 \<le> cr_size cr1 \<or> r = - 1 \<and> cr_fails ra"
    using cr_realloc_spec[OF ra cr(1), of "n + 2"] small by (auto simp: n_def)
  show ?thesis
  proof (cases "r = 0")
    case True
    define d where "d = take n (points cr1)"
    have len: "length (points cr1) = cr_size cr1" "n + 2 \<le> cr_size cr1" "length d = n"
      using r(2,5) True by (auto simp: cr_wf_def d_def)
    obtain w where w: "points cr1 = d @ w" "2 \<le> length w" using len by (metis add_le_cancel_left append_take_drop_id d_def length_append)
    then obtain w0 w1 w2 where w2: "w = w0 # w1 # w2" by (metis One_nat_def Suc_1 Suc_le_length_iff)
    have m: "memcpy_at (points cr1) 1 d = Some (hd (points cr1) # d @ w1 # w2)"
      using w w2 len by (cases d) (auto simp: memcpy_at_def)
    define cr2 where "cr2 = cr1\<lparr>points := 0 # d @ 0xFFFFFFFF # w2, cr_len := n + 2\<rparr>"
    have eq: "cr_invert ra cr = Option.bind (cr_compress cr2) (\<lambda>cr. Some (0, cr))"
      using r(1,3) True m len(3)
      by (simp add: cr_invert_def n_def[symmetric] d_def[symmetric] wr_def cr2_def list_update_append)
    have "cr_wf cr2" using w w2 len by (simp add: cr_wf_def cr2_def)
    moreover have "cr_data cr2 = 0 # d @ [0xFFFFFFFF]" using len(3) by (simp add: cr_data_def cr2_def)
    moreover have "d = cr_data cr" using r(3,4) by (simp add: cr_data_def d_def)
    ultimately show ?thesis using eq cr_compress_normal[of cr2] pts_ok_invert[OF cr(2)] True by auto
  next
    case False
    then show ?thesis using r by (auto simp: cr_invert_def n_def)
  qed
qed

section \<open>Uniqueness of the normal form\<close>

lemma in_points_ge: "sorted_wrt (<) xs \<Longrightarrow> in_points c xs \<Longrightarrow> \<exists>p\<in>set xs. p \<le> c"
  by (induction c xs rule: in_points.induct) auto

lemma in_points_head:
  assumes "sorted_wrt (<) (p # q # r)"
  shows "in_points p (p # q # r)" "\<not> in_points q (p # q # r)" "c < p \<Longrightarrow> \<not> in_points c (p # q # r)"
    "p \<le> c \<Longrightarrow> c < q \<Longrightarrow> in_points c (p # q # r)" "in_points c r \<longleftrightarrow> in_points c (p # q # r) \<and> q \<le> c"
proof -
  have r: "\<exists>x\<in>set r. x \<le> c" if "in_points c r" for c using in_points_ge[of r c] that assms by auto
  then have rq: "q < c" if "in_points c r" for c using that assms by fastforce
  show "in_points p (p # q # r)" "p \<le> c \<Longrightarrow> c < q \<Longrightarrow> in_points c (p # q # r)" using assms by auto
  show "\<not> in_points q (p # q # r)" using rq[of q] by auto
  show "c < p \<Longrightarrow> \<not> in_points c (p # q # r)" using rq[of c] assms by auto
  show "in_points c r \<longleftrightarrow> in_points c (p # q # r) \<and> q \<le> c" using rq[of c] by auto
qed

lemma same_head:
  assumes "sorted_wrt (<) (p # q # r)" "sorted_wrt (<) (p' # q' # r')"
    and same: "\<And>c. in_points c (p # q # r) = in_points c (p' # q' # r')"
  shows "\<not> p < p'" "p = p' \<Longrightarrow> \<not> q < q'"
proof -
  note A = in_points_head[OF assms(1)] and B = in_points_head[OF assms(2)]
  show "\<not> p < p'" using A(1) B(3)[of p] same[of p] by blast
  have "p < q" using assms(1) by simp
  then show "p = p' \<Longrightarrow> \<not> q < q'" using A(2) B(4)[of q] same[of q] less_imp_le by blast
qed

lemma normal_unique:
  "sorted_wrt (<) xs \<Longrightarrow> sorted_wrt (<) ys \<Longrightarrow> even (length xs) \<Longrightarrow> even (length ys) \<Longrightarrow>
   (\<And>c. in_points c xs = in_points c ys) \<Longrightarrow> xs = ys"
proof (induction xs arbitrary: ys rule: induct_list012)
  case 1
  then have none: "\<not> in_points c ys" for c by simp
  show ?case
  proof (cases ys rule: remdups_adj.cases)
    case (3 p q r)
    then show ?thesis using none[of p] in_points_head(1)[of p q r] "1.prems"(2) by blast
  qed (use "1.prems"(4) in simp_all)
next
  case (3 p q r)
  have "in_points p ys" using "3.prems"(5)[of p] in_points_head(1)[OF "3.prems"(1)] by blast
  then obtain p' q' r' where ys: "ys = p' # q' # r'" by (cases ys rule: remdups_adj.cases) simp_all
  note srt = "3.prems"(1) "3.prems"(2)[unfolded ys]
  have same: "in_points c (p # q # r) = in_points c (p' # q' # r')" for c using "3.prems"(5) ys by simp
  have p: "p = p'" using same_head(1)[OF srt same] same_head(1)[OF srt(2,1) same[symmetric]]
linorder_less_linear[of p p'] by blast
  have q: "q = q'" using same_head(2)[OF srt same p] same_head(2)[OF srt(2,1) same[symmetric] p[symmetric]]
linorder_less_linear[of q q'] by blast
  have "in_points c r = in_points c r'" for c
    using in_points_head(5)[OF srt(1), of c] in_points_head(5)[OF srt(2), of c] same[of c] q by blast
  then have "r = r'" using srt "3.prems"(3,4) ys by (intro "3.IH"(1)) simp_all
  then show ?case using p q ys by simp
qed simp

section \<open>Properties\<close>

text \<open>
  C24. The union, the intersection and the symmetric difference of two ranges never leave the arrays
  and either report a failed allocation or give a range in normal form, strictly increasing and
  with an even number of points, that contains exactly the code points of the combined set.
\<close>

theorem cr_op_correct:
  assumes "cr_realloc_ok ra" "pts_ok a" "pts_ok b" "3 * (length a + length b) < 2 ^ 31" "cr_wf cr" "cr_len cr = 0"
  shows "\<exists>r cr'. cr_op ra cr a b op = Some (r, cr') \<and>
    (r = 0 \<and> cr_normal cr' \<and> (\<forall>c. in_points c (cr_data cr') = (case op of CR_OP_UNION \<Rightarrow> in_points c a \<or> in_points c b
      | CR_OP_INTER \<Rightarrow> in_points c a \<and> in_points c b | CR_OP_XOR \<Rightarrow> in_points c a \<noteq> in_points c b)) \<or> r = - 1 \<and> cr_fails ra)"
  using cr_op_spec[OF assms, of op] by (cases op) simp_all

text \<open>An allocator that always succeeds.\<close>

definition example_ra :: cr_realloc_func where
  "example_ra p n = Some (take n (p @ replicate n 0))"

lemma example_ra_ok: "cr_realloc_ok example_ra"
  by (auto simp: cr_realloc_ok_def example_ra_def min_def)

theorem cr_op_correct_witness:
  "\<exists>r cr'. cr_op example_ra cr_init [0x41, 0x5B] [0x50, 0x7B] CR_OP_XOR = Some (r, cr') \<and>
    (r = 0 \<and> cr_normal cr' \<and> (\<forall>c. in_points c (cr_data cr') =
       (in_points c [0x41, 0x5B] \<noteq> in_points c [0x50, 0x7B])) \<or> r = - 1 \<and> cr_fails example_ra)"
  using cr_op_correct[OF example_ra_ok, of "[0x41, 0x5B]" "[0x50, 0x7B]" cr_init CR_OP_XOR] by (simp add: pts_ok_def cr_wf_def cr_init_def)

text \<open>
  C25. Inverting a range gives, in normal form, exactly the code points below 0xFFFFFFFF that are not in
  it, or reports a failed allocation and leaves no invalid access.
\<close>

theorem cr_invert_correct:
  assumes "cr_realloc_ok ra" "cr_wf cr" "pts_ok (cr_data cr)" "3 * cr_size cr < 2 ^ 31"
  shows "\<exists>r cr'. cr_invert ra cr = Some (r, cr') \<and>
    (r = 0 \<and> cr_normal cr' \<and> (\<forall>c. in_points c (cr_data cr') \<longleftrightarrow> c \<noteq> 0xFFFFFFFF \<and> \<not> in_points c (cr_data cr)) \<or> r = - 1 \<and> cr_fails ra)"
  using assms by (rule cr_invert_spec)

theorem cr_invert_correct_witness:
  "\<exists>r cr'. cr_invert example_ra \<lparr>cr_len = 2, cr_size = 2, points = [0, 0x80]\<rparr> = Some (r, cr') \<and>
    (r = 0 \<and> cr_normal cr' \<and> (\<forall>c. in_points c (cr_data cr') \<longleftrightarrow> c \<noteq> 0xFFFFFFFF \<and>
       \<not> in_points c (cr_data \<lparr>cr_len = 2, cr_size = 2, points = [0, 0x80]\<rparr>)) \<or> r = - 1 \<and> cr_fails example_ra)"
  by (rule cr_invert_correct[OF example_ra_ok]) (simp_all add: pts_ok_def cr_wf_def cr_data_def)



end
