(* ===== verification/Js_Date.thy ===== *)
theory Js_Date
  imports Qjs_Prelude Complex_Main "HOL-Library.Signed_Division"
begin

text \<open>
  The calendar of \<^verbatim>\<open>quickjs.c\<close>: the conversions between time values and date fields behind the
  \<^verbatim>\<open>Date\<close> objects. \<^verbatim>\<open>int64_t\<close> values are integers whose range is checked after every operation; a
  signed overflow is undefined behaviour in C and \<^const>\<open>None\<close> here. The offset of the local time zone
  is a parameter, as the function that asks the operating system for it.
\<close>

section \<open>Checked 64-bit arithmetic\<close>

definition i64 :: "int \<Rightarrow> int option" where
  "i64 x = (if - (2 ^ 63) \<le> x \<and> x < 2 ^ 63 then Some x else None)"

definition math_mod :: "int \<Rightarrow> int \<Rightarrow> int" where
  "math_mod a b = (let m = a smod b in m + of_bool (m < 0) * b)"

definition floor_div :: "int \<Rightarrow> int \<Rightarrow> int option" where
  "floor_div a b = (let m = a smod b in map_option (\<lambda>x. x sdiv b) (i64 (a - (m + of_bool (m < 0) * b))))"

section \<open>Years and days\<close>

definition days_from_year :: "int \<Rightarrow> int option" where
  "days_from_year y = do {
     a \<leftarrow> i64 (y - 1970);
     a \<leftarrow> i64 (365 * a);
     b \<leftarrow> i64 (y - 1969);
     b \<leftarrow> floor_div b 4;
     c \<leftarrow> i64 (y - 1901);
     c \<leftarrow> floor_div c 100;
     d \<leftarrow> i64 (y - 1601);
     d \<leftarrow> floor_div d 400;
     s \<leftarrow> i64 (a + b);
     s \<leftarrow> i64 (s - c);
     i64 (s + d) }"

definition days_in_year :: "int \<Rightarrow> int" where
  "days_in_year y = 365 + of_bool (y smod 4 = 0) - of_bool (y smod 100 = 0) + of_bool (y smod 400 = 0)"

text \<open>The day number of the first of January and the length of the year, without the range checks.\<close>

definition dfy :: "int \<Rightarrow> int" where
  "dfy y = 365 * (y - 1970) + (y - 1969) div 4 - (y - 1901) div 100 + (y - 1601) div 400"

definition leap :: "int \<Rightarrow> bool" where
  "leap y \<longleftrightarrow> y mod 4 = 0 \<and> (y mod 100 \<noteq> 0 \<or> y mod 400 = 0)"

lemma i64_Some: "- 9223372036854775808 \<le> x \<Longrightarrow> x < 9223372036854775808 \<Longrightarrow> i64 x = Some x"
  by (simp add: i64_def)

lemma i64_eq_Some: "i64 x = Some y \<longleftrightarrow> y = x \<and> - (2 ^ 63) \<le> x \<and> x < 2 ^ 63"
  by (auto simp: i64_def)

lemma smod_eq:
  assumes "0 < b"
  shows "(a :: int) smod b = (if a mod b = 0 then 0 else if a < 0 then a mod b - b else a mod b)"
proof (cases "a < 0")
  case True
  have "a smod b = - ((- a) mod b)" using True assms by (simp add: signed_modulo_int_def signed_divide_int_def minus_div_mult_eq_mod[symmetric] sgn_if algebra_simps)
  also have "(- a) mod b = (if a mod b = 0 then 0 else b - a mod b)" using assms by (simp add: zmod_zminus1_eq_if)
  finally show ?thesis using True by simp
next
  case False
  then show ?thesis using assms by (simp add: signed_modulo_int_def signed_divide_int_def minus_div_mult_eq_mod[symmetric] sgn_if algebra_simps)
qed

lemma math_mod_eq:
  assumes "0 < b"
  shows "math_mod a b = a mod b"
proof -
  define r where "r = a mod b"
  have "0 \<le> r" "r < b" using assms by (auto simp: r_def)
  then show ?thesis unfolding math_mod_def smod_eq[OF assms] Let_def r_def[symmetric] by auto
qed

lemma smod_0_iff:
  assumes "0 < b"
  shows "(a :: int) smod b = 0 \<longleftrightarrow> a mod b = 0"
proof -
  define r where "r = a mod b"
  have "r < b" using assms by (simp add: r_def)
  then show ?thesis unfolding smod_eq[OF assms] r_def[symmetric] by auto
qed

lemma sdiv_exact: "0 < b \<Longrightarrow> (b * q) sdiv b = (q :: int)"
  by (auto simp: signed_divide_int_def sgn_if zero_less_mult_iff mult_less_0_iff abs_mult)

lemma floor_div_value:
  assumes "0 < b" "floor_div a b = Some v"
  shows "v = a div b"
  using assms(2) math_mod_eq[OF assms(1), of a] sdiv_exact[OF assms(1), of "a div b"]
  by (auto simp: floor_div_def math_mod_def Let_def i64_eq_Some minus_mod_eq_mult_div)

lemma floor_div_eq:
  assumes "0 < b" "b \<le> 1000000000" "- 4611686018427387904 \<le> a" "a < 4611686018427387904"
  shows "floor_div a b = Some (a div b)"
proof -
  have "a - a mod b = b * (a div b)" by (simp add: minus_mod_eq_mult_div)
  moreover have "0 \<le> a mod b" "a mod b < b" using assms(1) by auto
  then have "i64 (a - a mod b) = Some (a - a mod b)" using assms(2-4) by (intro i64_Some) linarith+
  ultimately show ?thesis
    using math_mod_eq[OF assms(1), of a] sdiv_exact[OF assms(1), of "a div b"]
    by (simp add: floor_div_def math_mod_def Let_def)
qed

lemma days_from_year_eq:
  assumes "- 1000000000000000 \<le> y" "y \<le> 1000000000000000"
  shows "days_from_year y = Some (dfy y)"
proof -
  define b c d where "b = (y - 1969) div 4" and "c = (y - 1901) div 100" and "d = (y - 1601) div 400"
  have mono: "- 2000000000000000 div n \<le> (y - k) div n \<and> (y - k) div n \<le> 1000000000000000 div n"
    if "0 < n" "0 \<le> k" "k \<le> 2000" for n k using assms that by (intro conjI zdiv_mono1) auto
  have bounds: "- 2000000000000000 \<le> b \<and> b \<le> 1000000000000000" "- 2000000000000000 \<le> c \<and> c \<le> 1000000000000000"
      "- 2000000000000000 \<le> d \<and> d \<le> 1000000000000000"
    using mono[of 4 1969] mono[of 100 1901] mono[of 400 1601] unfolding b_def c_def d_def by auto
  have f: "floor_div (y - 1969) 4 = Some b" "floor_div (y - 1901) 100 = Some c" "floor_div (y - 1601) 400 = Some d"
    unfolding b_def c_def d_def by (rule floor_div_eq; use assms in auto)+
  have "days_from_year y = Some (365 * (y - 1970) + b - c + d)"
    using assms bounds by (simp add: days_from_year_def i64_Some f)
  then show ?thesis unfolding dfy_def b_def c_def d_def .
qed

lemma days_in_year_eq: "days_in_year y = (if leap y then 366 else 365)"
proof -
  define A B C where "A = (y mod 4 = 0)" and "B = (y mod 100 = 0)" and "C = (y mod 400 = 0)"
  have "100 dvd (400 :: int)" "4 dvd (100 :: int)" by simp_all
  then have "C \<Longrightarrow> B" "B \<Longrightarrow> A" unfolding A_def B_def C_def mod_eq_0_iff_dvd by (meson dvd_trans)+
  moreover have "(y smod 4 = 0) = A" "(y smod 100 = 0) = B" "(y smod 400 = 0) = C"
    by (simp_all add: smod_0_iff A_def B_def C_def)
  ultimately show ?thesis unfolding days_in_year_def leap_def A_def[symmetric] B_def[symmetric] C_def[symmetric]
    by (cases A; cases B; cases C) simp_all
qed

lemma div_step:
  assumes "0 < n"
  shows "((x :: int) + 1) div n = x div n + (if (x + 1) mod n = 0 then 1 else 0)"
proof (cases "(x + 1) mod n = 0")
  case True
  then have "x = n * ((x + 1) div n - 1) + (n - 1)"
    using mult_div_mod_eq[of n "x + 1"] by (simp add: algebra_simps)
  then have "x div n = (x + 1) div n - 1" by (rule int_div_pos_eq) (use assms in auto)
  then show ?thesis using True by simp
next
  case False
  have r: "0 \<le> (x + 1) mod n" "(x + 1) mod n < n" using assms by auto
  have "x = n * ((x + 1) div n) + ((x + 1) mod n - 1)"
    using mult_div_mod_eq[of n "x + 1"] by (simp add: algebra_simps)
  then have "x div n = (x + 1) div n" by (rule int_div_pos_eq) (use r False in linarith)+
  then show ?thesis using False by simp
qed

lemma dfy_step: "dfy (y + 1) = dfy y + days_in_year y"
proof -
  have m: "(y - 1968) mod 4 = y mod 4" "(y - 1900) mod 100 = y mod 100" "(y - 1600) mod 400 = y mod 400"
    using mod_diff_right_eq[of y 1968 4] mod_diff_right_eq[of y 1900 100] mod_diff_right_eq[of y 1600 400] by simp_all
  have e: "y + 1 - 1969 = y - 1969 + 1" "y + 1 - 1901 = y - 1901 + 1" "y + 1 - 1601 = y - 1601 + 1" by simp_all
  have k: "y - 1969 + 1 = y - 1968" "y - 1901 + 1 = y - 1900" "y - 1601 + 1 = y - 1600" by simp_all
  have s: "(y - 1969 + 1) div 4 = (y - 1969) div 4 + of_bool (y mod 4 = 0)"
      "(y - 1901 + 1) div 100 = (y - 1901) div 100 + of_bool (y mod 100 = 0)"
      "(y - 1601 + 1) div 400 = (y - 1601) div 400 + of_bool (y mod 400 = 0)"
    using div_step[of 4 "y - 1969"] div_step[of 100 "y - 1901"] div_step[of 400 "y - 1601"]
    unfolding k m of_bool_def by (simp_all only: zero_less_numeral simp_thms)
  have z: "(y smod 4 = 0) = (y mod 4 = 0)" "(y smod 100 = 0) = (y mod 100 = 0)" "(y smod 400 = 0) = (y mod 400 = 0)"
    by (simp_all only: smod_0_iff zero_less_numeral)
  have "365 * (y + 1 - 1970) + (a + p) - (b + q) + (c + r) = 365 * (y - 1970) + a - b + c + (365 + p - q + r)"
    for a b c p q r :: int by simp
  then show ?thesis unfolding dfy_def e s days_in_year_def z .
qed

lemma dfy_pred: "dfy (y - 1) = dfy y - days_in_year (y - 1)"
  using dfy_step[of "y - 1"] by simp

lemma days_in_year_bounds: "365 \<le> days_in_year y" "days_in_year y \<le> 366"
  by (auto simp: days_in_year_eq)

section \<open>The year of a day\<close>

text \<open>
  The search of \<^verbatim>\<open>year_from_days\<close>: from the approximate year it walks down or up to the year that
  contains the day, and returns the year and the day in it.
\<close>

lemma days_from_year_value:
  assumes "days_from_year y = Some v"
  shows "v = dfy y"
proof -
  obtain b c d where f: "floor_div (y - 1969) 4 = Some b" "floor_div (y - 1901) 100 = Some c"
      "floor_div (y - 1601) 400 = Some d" and v: "v = 365 * (y - 1970) + b - c + d"
    using assms by (auto simp: days_from_year_def i64_eq_Some bind_eq_Some_conv)
  show ?thesis using f[THEN floor_div_value[rotated]] v by (simp only: dfy_def zero_less_numeral simp_thms)
qed

function year_search :: "int \<Rightarrow> int \<Rightarrow> (int \<times> int) option" where
  "year_search d y = do {
     dy \<leftarrow> days_from_year y;
     let d1 = d - dy;
     if d1 < 0 then year_search d (y - 1)
     else if d1 < days_in_year y then Some (y, d1)
     else year_search d (y + 1) }"
  by pat_completeness auto
termination
proof (relation "measure (\<lambda>(d, y). nat (if d < dfy y then dfy y - d + 1000 else d - dfy y))", goal_cases)
  case (2 d y dy x)
  then show ?case using days_from_year_value[of y dy] days_in_year_bounds[of "y - 1"] by (auto simp: dfy_pred)
next
  case (3 d y dy x)
  then show ?case using days_from_year_value[of y dy] days_in_year_bounds[of y] by (auto simp: dfy_step)
qed simp

declare year_search.simps [simp del]

definition year_from_days :: "int \<Rightarrow> (int \<times> int) option" where
  "year_from_days d = do {
     t \<leftarrow> i64 (d * 10000);
     q \<leftarrow> floor_div t 3652425;
     y \<leftarrow> i64 (q + 1970);
     year_search d y }"

section \<open>Date fields\<close>

text \<open>
  The numbers of the language that matter here: NaN, the infinities, and finite doubles, which are
  rational numbers.
\<close>

datatype jsnum = JsNaN | JsInf bool | JsFin rat

datatype js_error = TypeError | RangeError

text \<open>A \<^verbatim>\<open>this\<close> value: a \<^verbatim>\<open>Date\<close> object with its time value, or anything else.\<close>

datatype date_this = NotDate | DateObj jsnum

definition JS_ThisTimeValue :: "date_this \<Rightarrow> js_error + jsnum" where
  "JS_ThisTimeValue this = (case this of NotDate \<Rightarrow> Inl TypeError | DateObj v \<Rightarrow> Inr v)"

definition JS_SetThisTimeValue :: "date_this \<Rightarrow> jsnum \<Rightarrow> js_error + jsnum \<times> date_this" where
  "JS_SetThisTimeValue this v = (case this of NotDate \<Rightarrow> Inl TypeError | DateObj _ \<Rightarrow> Inr (v, DateObj v))"

definition trunc :: "rat \<Rightarrow> int" where
  "trunc x = (if 0 \<le> x then \<lfloor>x\<rfloor> else \<lceil>x\<rceil>)"

fun time_clip :: "jsnum \<Rightarrow> jsnum" where
  "time_clip (JsFin t) =
     (if t \<ge> - 8640000000000000 \<and> t \<le> 8640000000000000 then JsFin (of_int (trunc t)) else JsNaN)"
| "time_clip t = JsNaN"

definition month_days :: "int list" where
  "month_days = [31, 28, 31, 30, 31, 30, 31, 31, 30, 31, 30, 31]"

definition month_len :: "int \<Rightarrow> nat \<Rightarrow> int" where
  "month_len y i = (let md = month_days ! i in if i = 1 then md + (days_in_year y - 365) else md)"

text \<open>The loop of \<^verbatim>\<open>get_date_fields\<close> that finds the month.\<close>

function find_month :: "int \<Rightarrow> nat \<Rightarrow> int \<Rightarrow> nat \<times> int" where
  "find_month y i days =
     (if i < 11 then
        (let md = month_len y i in
         if days < md then (i, days) else find_month y (i + 1) (days - md))
      else (i, days))"
  by pat_completeness auto
termination by (relation "measure (\<lambda>(y, i, days). 11 - i)") auto

declare find_month.simps [simp del]

text \<open>
  The fields are year, month, day, hours, minutes, seconds, milliseconds, day of the week and
  time zone offset. \<open>tzo\<close> is \<^verbatim>\<open>getTimezoneOffset\<close>.
\<close>

definition date_fields_of :: "int \<Rightarrow> int \<Rightarrow> int list option" where
  "date_fields_of d tz = do {
     let h = math_mod d 86400000;
     days \<leftarrow> i64 (d - h);
     let days = days sdiv 86400000;
     let ms = h smod 1000;
     let h = (h - ms) sdiv 1000;
     let s = h smod 60;
     let h = (h - s) sdiv 60;
     let m = h smod 60;
     let h = (h - m) sdiv 60;
     let wd = math_mod (days + 4) 7;
     (y, days) \<leftarrow> year_from_days days;
     let (i, days) = find_month y 0 days;
     Some [y, int i, days + 1, h, m, s, ms, wd, tz] }"

definition get_date_fields ::
  "(int \<Rightarrow> int) \<Rightarrow> date_this \<Rightarrow> bool \<Rightarrow> bool \<Rightarrow> (js_error + int list option) option" where
  "get_date_fields tzo this is_local force =
     (case JS_ThisTimeValue this of
        Inl e \<Rightarrow> Some (Inl e)
      | Inr JsNaN \<Rightarrow>
          (if \<not> force then Some (Inr None) else map_option (\<lambda>f. Inr (Some f)) (date_fields_of 0 0))
      | Inr (JsInf _) \<Rightarrow> None
      | Inr (JsFin v) \<Rightarrow> do {
          d \<leftarrow> i64 (trunc v);
          (d, tz) \<leftarrow>
            (if is_local then do {
               let tz = - tzo d;
               t \<leftarrow> i64 (tz * 60000);
               d \<leftarrow> i64 (d + t);
               Some (d, tz) }
             else Some (d, 0));
          map_option (\<lambda>f. Inr (Some f)) (date_fields_of d tz) })"

fun add_months :: "int \<Rightarrow> nat \<Rightarrow> nat \<Rightarrow> int \<Rightarrow> int option" where
  "add_months y i 0 days = Some days"
| "add_months y i (Suc n) days = do {
     days \<leftarrow> i64 (days + month_len y i);
     add_months y (i + 1) n days }"

definition set_date_fields :: "(int \<Rightarrow> int) \<Rightarrow> int list \<Rightarrow> bool \<Rightarrow> jsnum option" where
  "set_date_fields tzo fields is_local = do {
     let i = fields ! 1;
     let m = math_mod i 12;
     t \<leftarrow> i64 (i - m);
     y \<leftarrow> i64 (fields ! 0 + t sdiv 12);
     days \<leftarrow> days_from_year y;
     days \<leftarrow> add_months y 0 (nat m) days;
     t \<leftarrow> i64 (fields ! 2 - 1);
     days \<leftarrow> i64 (days + t);
     h \<leftarrow> i64 (fields ! 3 * 60);
     h \<leftarrow> i64 (h + fields ! 4);
     h \<leftarrow> i64 (h * 60);
     h \<leftarrow> i64 (h + fields ! 5);
     h \<leftarrow> i64 (h * 1000);
     h \<leftarrow> i64 (h + fields ! 6);
     d \<leftarrow> i64 (days * 86400000);
     d \<leftarrow> i64 (d + h);
     d \<leftarrow> (if is_local then do { t \<leftarrow> i64 (tzo d * 60000); i64 (d + t) } else Some d);
     Some (time_clip (JsFin (of_int d))) }"

section \<open>The calendar\<close>

lemma dfy_bounds: "146097 * y - 287812090 \<le> 400 * dfy y" "400 * dfy y \<le> 146097 * y - 287810090"
proof -
  define b c d where "b = (y - 1969) div 4" and "c = (y - 1901) div 100" and "d = (y - 1601) div 400"
  have f: "4 * b \<le> y - 1969" "y - 1969 < 4 * b + 4" "100 * c \<le> y - 1901" "y - 1901 < 100 * c + 100"
    "400 * d \<le> y - 1601" "y - 1601 < 400 * d + 400"
    unfolding b_def c_def d_def by linarith+
  have e: "400 * dfy y = 146000 * y - 287620000 + 400 * b - 400 * c + 400 * d"
    unfolding dfy_def b_def[symmetric] c_def[symmetric] d_def[symmetric] by simp
  show "146097 * y - 287812090 \<le> 400 * dfy y" using f e by linarith
  show "400 * dfy y \<le> 146097 * y - 287810090" using f e by linarith
qed

lemma year_search_spec:
  "- 200000000 \<le> d \<Longrightarrow> d \<le> 200000000 \<Longrightarrow> - 999999 \<le> y \<Longrightarrow> y \<le> 999999 \<Longrightarrow>
   \<exists>y' d1. year_search d y = Some (y', d1) \<and> d1 = d - dfy y' \<and> 0 \<le> d1 \<and> d1 < days_in_year y' \<and>
     - 999999 \<le> y' \<and> y' \<le> 999999"
proof (induction d y rule: year_search.induct)
  case (1 d y)
  have f: "days_from_year y = Some (dfy y)" using "1.prems" by (intro days_from_year_eq) auto
  consider (low) "d - dfy y < 0" | (here) "0 \<le> d - dfy y" "d - dfy y < days_in_year y"
    | (high) "\<not> d - dfy y < 0" "\<not> d - dfy y < days_in_year y" by linarith
  then show ?case
  proof cases
    case low
    then have "- 999999 \<le> y - 1" using dfy_bounds(2)[of y] "1.prems" by linarith
    then show ?thesis using low "1.IH"(1)[OF f refl] "1.prems" f by (subst year_search.simps) simp
  next
    case here
    then show ?thesis using f "1.prems" by (subst year_search.simps) simp
  next
    case high
    then have "y + 1 \<le> 999999" using dfy_bounds(1)[of y] days_in_year_bounds[of y] "1.prems" by linarith
    then show ?thesis using high "1.IH"(2)[OF f refl] "1.prems" f by (subst year_search.simps) simp
  qed
qed

lemma year_from_days_spec:
  assumes "- 200000000 \<le> d" "d \<le> 200000000"
  shows "\<exists>y d1. year_from_days d = Some (y, d1) \<and> d1 = d - dfy y \<and> 0 \<le> d1 \<and> d1 < days_in_year y \<and>
     - 999999 \<le> y \<and> y \<le> 999999"
proof -
  define q where "q = (d * 10000) div 3652425"
  have q: "- 600000 \<le> q" "q \<le> 600000" using assms unfolding q_def by linarith+
  have "floor_div (d * 10000) 3652425 = Some q"
    unfolding q_def by (rule floor_div_eq) (use assms in auto)
  then have "year_from_days d = year_search d (q + 1970)"
    using assms q by (simp add: year_from_days_def i64_Some)
  then show ?thesis using year_search_spec[of d "q + 1970"] assms q by simp
qed

lemma dfy_mono: "y1 < y2 \<Longrightarrow> dfy y1 + days_in_year y1 \<le> dfy y2"
proof (induction y2 rule: int_gr_induct)
  case base
  then show ?case by (simp add: dfy_step)
next
  case (step y)
  then show ?case using days_in_year_bounds(1)[of y] by (simp add: dfy_step)
qed

text \<open>The days before a month of the year.\<close>

definition month_start :: "int \<Rightarrow> nat \<Rightarrow> int" where
  "month_start y m = sum_list (map (month_len y) [0..<m])"

lemma month_start_simps [simp]: "month_start y 0 = 0" "month_start y (Suc m) = month_start y m + month_len y m"
  by (simp_all add: month_start_def)

lemma month_len_cases: "i < 12 \<Longrightarrow> 28 \<le> month_len y i \<and> month_len y i \<le> 31"
proof -
  assume "i < 12"
  then have "i = 0 \<or> i = 1 \<or> i = 2 \<or> i = 3 \<or> i = 4 \<or> i = 5 \<or> i = 6 \<or> i = 7 \<or> i = 8 \<or> i = 9 \<or> i = 10 \<or> i = 11"
    by presburger
  then show ?thesis using days_in_year_bounds[of y] by (auto simp: month_len_def month_days_def)
qed

lemma month_start_12: "month_start y 12 = days_in_year y"
  by (simp add: numeral_eq_Suc month_len_def month_days_def)

lemma month_start_mono: "i \<le> k \<Longrightarrow> k \<le> 12 \<Longrightarrow> month_start y i \<le> month_start y k"
proof (induction k)
  case (Suc k)
  then show ?case using month_len_cases[of k y] by (cases "i = Suc k") auto
qed simp

lemma find_month_spec:
  "i \<le> 11 \<Longrightarrow> 0 \<le> days \<Longrightarrow> find_month y i days = (k, d) \<Longrightarrow>
   i \<le> k \<and> k \<le> 11 \<and> 0 \<le> d \<and> (k < 11 \<longrightarrow> d < month_len y k) \<and> days + month_start y i = d + month_start y k"
proof (induction y i days rule: find_month.induct)
  case (1 y i days)
  show ?case
  proof (cases "i < 11 \<and> \<not> days < month_len y i")
    case True
    then have "find_month y (i + 1) (days - month_len y i) = (k, d)"
      using "1.prems"(3) by (subst (asm) find_month.simps) (simp add: Let_def)
    then show ?thesis using "1.IH"[OF _ refl] True by auto
  next
    case False
    then have "k = i" "d = days"
      using "1.prems"(3) by (subst (asm) find_month.simps; auto simp: Let_def split: if_splits)+
    then show ?thesis using False "1.prems" by auto
  qed
qed

lemma add_months_spec:
  "i + n \<le> 12 \<Longrightarrow> - 1000000000000 \<le> days \<Longrightarrow> days \<le> 1000000000000 + 31 * int i \<Longrightarrow>
   add_months y i n days = Some (days + month_start y (i + n) - month_start y i)"
proof (induction n arbitrary: i days)
  case (Suc n)
  have ml: "28 \<le> month_len y i \<and> month_len y i \<le> 31" using Suc.prems(1) by (intro month_len_cases) simp
  have "i64 (days + month_len y i) = Some (days + month_len y i)"
    using ml Suc.prems by (intro i64_Some) linarith+
  moreover have "add_months y (i + 1) n (days + month_len y i) =
      Some (days + month_len y i + month_start y (i + 1 + n) - month_start y (i + 1))"
    using ml Suc.prems by (intro Suc.IH) auto
  ultimately show ?case by simp
qed simp

text \<open>The fields that are those of a date, and the time they stand for.\<close>

definition valid_fields :: "int list \<Rightarrow> bool" where
  "valid_fields f \<longleftrightarrow> length f = 9 \<and> 0 \<le> f ! 1 \<and> f ! 1 \<le> 11 \<and>
     1 \<le> f ! 2 \<and> f ! 2 \<le> month_len (f ! 0) (nat (f ! 1)) \<and> 0 \<le> f ! 3 \<and> f ! 3 \<le> 23 \<and>
     0 \<le> f ! 4 \<and> f ! 4 \<le> 59 \<and> 0 \<le> f ! 5 \<and> f ! 5 \<le> 59 \<and> 0 \<le> f ! 6 \<and> f ! 6 \<le> 999"

definition fields_days :: "int list \<Rightarrow> int" where
  "fields_days f = dfy (f ! 0) + month_start (f ! 0) (nat (f ! 1)) + f ! 2 - 1"

definition fields_time :: "int list \<Rightarrow> int" where
  "fields_time f = fields_days f * 86400000 + (((f ! 3 * 60 + f ! 4) * 60 + f ! 5) * 1000 + f ! 6)"

lemma smod_sdiv_nonneg: "0 \<le> a \<Longrightarrow> 0 < b \<Longrightarrow> (a :: int) smod b = a mod b" "0 \<le> a \<Longrightarrow> 0 < b \<Longrightarrow> (a :: int) sdiv b = a div b"
  by (auto simp: smod_eq signed_divide_int_def sgn_if)

lemma time_split:
  fixes h :: int
  assumes "0 \<le> h" "h < 86400000"
  defines "ms \<equiv> h smod 1000"
  defines "h1 \<equiv> (h - ms) sdiv 1000"
  defines "s \<equiv> h1 smod 60"
  defines "h2 \<equiv> (h1 - s) sdiv 60"
  defines "m \<equiv> h2 smod 60"
  defines "h3 \<equiv> (h2 - m) sdiv 60"
  shows "0 \<le> ms" "ms \<le> 999" "0 \<le> s" "s \<le> 59" "0 \<le> m" "m \<le> 59" "0 \<le> h3" "h3 \<le> 23"
    "((h3 * 60 + m) * 60 + s) * 1000 + ms = h"
proof -
  have ms: "ms = h mod 1000" using assms(1) by (simp add: ms_def smod_sdiv_nonneg)
  have "h - ms = 1000 * (h div 1000)" unfolding ms by (simp add: minus_mod_eq_mult_div)
  then have h1: "h1 = h div 1000" unfolding h1_def by (simp add: sdiv_exact)
  have h1n: "0 \<le> h1" "h1 < 86400" using assms(1,2) unfolding h1 by linarith+
  have s: "s = h1 mod 60" using h1n by (simp add: s_def smod_sdiv_nonneg)
  have "h1 - s = 60 * (h1 div 60)" unfolding s by (simp add: minus_mod_eq_mult_div)
  then have h2: "h2 = h1 div 60" unfolding h2_def by (simp add: sdiv_exact)
  have h2n: "0 \<le> h2" "h2 < 1440" using h1n unfolding h2 by linarith+
  have m: "m = h2 mod 60" using h2n by (simp add: m_def smod_sdiv_nonneg)
  have "h2 - m = 60 * (h2 div 60)" unfolding m by (simp add: minus_mod_eq_mult_div)
  then have h3: "h3 = h2 div 60" unfolding h3_def by (simp add: sdiv_exact)
  show "0 \<le> ms" "ms \<le> 999" "0 \<le> s" "s \<le> 59" "0 \<le> m" "m \<le> 59" unfolding ms s m by linarith+
  show "0 \<le> h3" "h3 \<le> 23" using h2n unfolding h3 by linarith+
  have "h3 * 60 + m = h2" "h2 * 60 + s = h1" "h1 * 1000 + ms = h" unfolding h3 m h2 s h1 ms by (fact div_mult_mod_eq)+
  then show "((h3 * 60 + m) * 60 + s) * 1000 + ms = h" by simp
qed

lemma date_fields_of_spec:
  assumes "- 10000000000000000 \<le> d" "d \<le> 10000000000000000"
  shows "\<exists>f. date_fields_of d tz = Some f \<and> valid_fields f \<and> fields_time f = d \<and> f ! 8 = tz \<and>
    f ! 7 = (fields_days f + 4) mod 7 \<and> - 999999 \<le> f ! 0 \<and> f ! 0 \<le> 999999"
proof -
  define h where "h = d mod 86400000"
  define days where "days = d div 86400000"
  have h: "0 \<le> h" "h < 86400000" by (auto simp: h_def)
  have hd: "d - h = 86400000 * days" by (simp add: h_def days_def minus_mod_eq_mult_div)
  have days: "- 200000000 \<le> days" "days \<le> 200000000" using hd h assms by linarith+
  obtain y d1 where y: "year_from_days days = Some (y, d1)" "d1 = days - dfy y" "0 \<le> d1" "d1 < days_in_year y"
      "- 999999 \<le> y" "y \<le> 999999" using year_from_days_spec[OF days] by blast
  obtain k dd where k: "find_month y 0 d1 = (k, dd)" by (cases "find_month y 0 d1")
  note ks = find_month_spec[OF _ y(3) k]
  have dd: "dd < month_len y k"
    using ks y(4) month_start_12[of y] by (cases "k < 11") (auto simp: numeral_eq_Suc le_Suc_eq)
  note t = time_split[OF h]
  define f where "f = [y, int k, dd + 1, ((((h - h smod 1000) sdiv 1000) - ((h - h smod 1000) sdiv 1000) smod 60) sdiv 60
      - ((((h - h smod 1000) sdiv 1000) - ((h - h smod 1000) sdiv 1000) smod 60) sdiv 60) smod 60) sdiv 60,
      ((((h - h smod 1000) sdiv 1000) - ((h - h smod 1000) sdiv 1000) smod 60) sdiv 60) smod 60,
      ((h - h smod 1000) sdiv 1000) smod 60, h smod 1000, (days + 4) mod 7, tz]"
  have "i64 (d - h) = Some (d - h)" using hd days by (intro i64_Some) linarith+
  then have eq: "date_fields_of d tz = Some f"
    using y(1) k by (simp add: date_fields_of_def math_mod_eq h_def[symmetric] hd sdiv_exact Let_def f_def)
  have "valid_fields f" using ks dd t by (simp add: valid_fields_def f_def)
  moreover have fd: "fields_days f = days" using ks y(2) by (simp add: fields_days_def f_def)
  moreover have "fields_time f = d" unfolding fields_time_def fd using t(9) hd by (simp add: f_def)
  ultimately show ?thesis using eq y(5,6) by (auto simp: f_def)
qed

text \<open>Setting the fields: months beyond the year carry over, every other field adds its own multiple.\<close>

definition set_days :: "int list \<Rightarrow> int" where
  "set_days f = dfy (f ! 0 + f ! 1 div 12) + month_start (f ! 0 + f ! 1 div 12) (nat (f ! 1 mod 12)) + f ! 2 - 1"

definition set_time :: "int list \<Rightarrow> int" where
  "set_time f = set_days f * 86400000 + (((f ! 3 * 60 + f ! 4) * 60 + f ! 5) * 1000 + f ! 6)"

definition fields_small :: "int list \<Rightarrow> bool" where
  "fields_small f \<longleftrightarrow> \<bar>f ! 0\<bar> \<le> 10000000 \<and> \<bar>f ! 1\<bar> \<le> 10000000 \<and> \<bar>f ! 2\<bar> \<le> 1000000000 \<and>
     \<bar>f ! 3\<bar> \<le> 1000000000 \<and> \<bar>f ! 4\<bar> \<le> 1000000000 \<and> \<bar>f ! 5\<bar> \<le> 1000000000 \<and> \<bar>f ! 6\<bar> \<le> 100000000000000000"

lemma time_clip_int:
  "time_clip (JsFin (of_int d)) = (if \<bar>d\<bar> \<le> 8640000000000000 then JsFin (of_int d) else JsNaN)"
proof -
  have "(- 8640000000000000 \<le> (of_int d :: rat)) = (- 8640000000000000 \<le> d)"
    "((of_int d :: rat) \<le> 8640000000000000) = (d \<le> 8640000000000000)"
    using of_int_le_iff[of "- 8640000000000000" d, where 'a = rat] of_int_le_iff[of d 8640000000000000, where 'a = rat]
    by simp_all
  then show ?thesis by (auto simp: trunc_def)
qed

lemma set_date_fields_spec:
  assumes f: "fields_small f"
  shows "set_date_fields tzo f False = Some (time_clip (JsFin (of_int (set_time f))))"
proof -
  define m where "m = f ! 1 mod 12"
  define y where "y = f ! 0 + f ! 1 div 12"
  have m: "0 \<le> m" "m < 12" by (auto simp: m_def)
  have q: "f ! 1 - m = 12 * (f ! 1 div 12)" by (simp add: m_def minus_mod_eq_mult_div)
  have b: "- 10000000 \<le> f ! 0" "f ! 0 \<le> 10000000" "- 10000000 \<le> f ! 1" "f ! 1 \<le> 10000000"
    "- 1000000000 \<le> f ! 2" "f ! 2 \<le> 1000000000" "- 1000000000 \<le> f ! 3" "f ! 3 \<le> 1000000000"
    "- 1000000000 \<le> f ! 4" "f ! 4 \<le> 1000000000" "- 1000000000 \<le> f ! 5" "f ! 5 \<le> 1000000000"
    "- 100000000000000000 \<le> f ! 6" "f ! 6 \<le> 100000000000000000"
    using f unfolding fields_small_def abs_le_iff by linarith+
  have y: "- 20000000 \<le> y" "y \<le> 20000000" using b(1-4) q m unfolding y_def by linarith+
  have dy: "- 8000000000 \<le> dfy y" "dfy y \<le> 8000000000" using dfy_bounds[of y] y by linarith+
  have mo: "0 \<le> month_start y (nat m)" "month_start y (nat m) \<le> 366"
    using month_start_mono[of 0 "nat m" y] month_start_mono[of "nat m" 12 y] m month_start_12[of y] days_in_year_bounds(2)[of y]
    by (simp_all add: nat_le_iff)
  have e1: "i64 (f ! 1 - m) = Some (12 * (f ! 1 div 12))" using q b(3,4) m by (simp add: i64_Some)
  have e2: "i64 y = Some y" using y by (simp add: i64_Some)
  have e3: "days_from_year y = Some (dfy y)" using y by (intro days_from_year_eq) auto
  have e4: "add_months y 0 (nat m) (dfy y) = Some (dfy y + month_start y (nat m))"
    using add_months_spec[of 0 "nat m" "dfy y" y] m dy by simp
  define days where "days = dfy y + month_start y (nat m) + (f ! 2 - 1)"
  have days: "- 10000000000 \<le> days" "days \<le> 10000000000" using dy mo b(5,6) unfolding days_def by linarith+
  define h1 h2 h3 where "h1 = f ! 3 * 60 + f ! 4" and "h2 = h1 * 60 + f ! 5" and "h3 = h2 * 1000 + f ! 6"
  have h1: "- 70000000000 \<le> h1" "h1 \<le> 70000000000" using b(7-10) unfolding h1_def by linarith+
  have h2: "- 5000000000000 \<le> h2" "h2 \<le> 5000000000000" using h1 b(11,12) unfolding h2_def by linarith+
  have h3: "- 200000000000000000 \<le> h3" "h3 \<le> 200000000000000000" using h2 b(13,14) unfolding h3_def by linarith+
  note h = h1 h2 h3
  have mm: "math_mod (f ! 1) 12 = m" by (simp add: math_mod_eq m_def)
  have e5: "i64 (f ! 2 - 1) = Some (f ! 2 - 1)" using b(5,6) by (intro i64_Some) linarith+
  have e6: "i64 (dfy y + month_start y (nat m) + (f ! 2 - 1)) = Some days"
    using days unfolding days_def by (intro i64_Some) linarith+
  have e7: "i64 (f ! 3 * 60) = Some (f ! 3 * 60)" "i64 (f ! 3 * 60 + f ! 4) = Some h1" "i64 (h1 * 60) = Some (h1 * 60)"
      "i64 (h1 * 60 + f ! 5) = Some h2" "i64 (h2 * 1000) = Some (h2 * 1000)" "i64 (h2 * 1000 + f ! 6) = Some h3"
      "i64 (days * 86400000) = Some (days * 86400000)" "i64 (days * 86400000 + h3) = Some (days * 86400000 + h3)"
    unfolding h1_def[symmetric] h2_def[symmetric] h3_def[symmetric] using b(7,8) h days by (simp_all add: i64_Some)
  have sd: "(12 * (f ! 1 div 12)) sdiv 12 = f ! 1 div 12" by (rule sdiv_exact) simp
  have "set_date_fields tzo f False = Some (time_clip (JsFin (of_int (days * 86400000 + h3))))"
    unfolding set_date_fields_def Let_def
    by (simp only: mm e1 sd y_def[symmetric] e2 e3 e4 e5 e6 e7 bind.bind_lunit if_False)
  moreover have "days * 86400000 + h3 = set_time f"
    by (simp add: set_time_def days_def set_days_def y_def m_def h3_def h2_def h1_def)
  ultimately show ?thesis by simp
qed

lemma valid_fields_month:
  assumes "valid_fields f"
  shows "nat (f ! 1) < 12" "28 \<le> month_len (f ! 0) (nat (f ! 1))" "month_len (f ! 0) (nat (f ! 1)) \<le> 31"
proof -
  show n: "nat (f ! 1) < 12" using assms unfolding valid_fields_def by linarith
  show "28 \<le> month_len (f ! 0) (nat (f ! 1))" "month_len (f ! 0) (nat (f ! 1)) \<le> 31" using month_len_cases[OF n] by auto
qed

lemma valid_fields_small: "valid_fields f \<Longrightarrow> - 999999 \<le> f ! 0 \<Longrightarrow> f ! 0 \<le> 999999 \<Longrightarrow> fields_small f"
  using valid_fields_month(3)[of f] by (simp add: valid_fields_def fields_small_def)

lemma valid_fields_set_time: "valid_fields f \<Longrightarrow> set_time f = fields_time f"
  by (simp add: valid_fields_def set_time_def fields_time_def set_days_def fields_days_def)

lemma month_unique:
  assumes "0 \<le> a" "a < month_len y i" "0 \<le> b" "b < month_len y k" "i < 12" "k < 12"
    and eq: "month_start y i + a = month_start y k + b"
  shows "i = k \<and> a = b"
proof -
  have le: "month_start y j + month_len y j \<le> month_start y l" if "j < l" "l < 12" for j l
    using month_start_mono[of "Suc j" l y] that by simp
  have "i = k" using le[of i k] le[of k i] assms by (cases i k rule: linorder_cases) auto
  then show ?thesis using eq by simp
qed

lemma year_unique:
  assumes "0 \<le> a" "a < days_in_year y" "0 \<le> b" "b < days_in_year z" "dfy y + a = dfy z + b"
  shows "y = z \<and> a = b"
  using dfy_mono[of y z] dfy_mono[of z y] assms by (cases y z rule: linorder_cases) auto

lemma digit_unique: "(a :: int) * n + c = b * n + d \<Longrightarrow> 0 \<le> c \<Longrightarrow> c < n \<Longrightarrow> 0 \<le> d \<Longrightarrow> d < n \<Longrightarrow> a = b \<and> c = d"
  by (metis div_mult_self3 div_pos_pos_trivial add.commute add_cancel_right_right add_left_cancel less_le_trans not_less less_imp_le order_less_irrefl)

lemma day_in_year:
  assumes "valid_fields f"
  shows "0 \<le> month_start (f ! 0) (nat (f ! 1)) + (f ! 2 - 1)"
    "month_start (f ! 0) (nat (f ! 1)) + (f ! 2 - 1) < days_in_year (f ! 0)"
proof -
  note m = valid_fields_month[OF assms]
  have "month_start (f ! 0) (nat (f ! 1)) + month_len (f ! 0) (nat (f ! 1)) \<le> days_in_year (f ! 0)"
    using month_start_mono[of "Suc (nat (f ! 1))" 12 "f ! 0"] m(1) by (simp add: month_start_12)
  moreover have "0 \<le> month_start (f ! 0) (nat (f ! 1))" using month_start_mono[of 0 "nat (f ! 1)" "f ! 0"] m(1) by simp
  ultimately show "0 \<le> month_start (f ! 0) (nat (f ! 1)) + (f ! 2 - 1)"
    "month_start (f ! 0) (nat (f ! 1)) + (f ! 2 - 1) < days_in_year (f ! 0)"
    using assms by (auto simp: valid_fields_def)
qed

lemma fields_unique:
  assumes f: "valid_fields f" and g: "valid_fields g" and eq: "fields_time f = fields_time g"
  shows "take 7 f = take 7 g"
proof -
  have tf: "0 \<le> ((f ! 3 * 60 + f ! 4) * 60 + f ! 5) * 1000 + f ! 6" "((f ! 3 * 60 + f ! 4) * 60 + f ! 5) * 1000 + f ! 6 < 86400000"
    using f unfolding valid_fields_def by auto
  have tg: "0 \<le> ((g ! 3 * 60 + g ! 4) * 60 + g ! 5) * 1000 + g ! 6" "((g ! 3 * 60 + g ! 4) * 60 + g ! 5) * 1000 + g ! 6 < 86400000"
    using g unfolding valid_fields_def by auto
  have D: "fields_days f = fields_days g"
    and T: "((f ! 3 * 60 + f ! 4) * 60 + f ! 5) * 1000 + f ! 6 = ((g ! 3 * 60 + g ! 4) * 60 + g ! 5) * 1000 + g ! 6"
    using digit_unique[OF eq[unfolded fields_time_def] tf tg] by auto
  have T1: "(f ! 3 * 60 + f ! 4) * 60 + f ! 5 = (g ! 3 * 60 + g ! 4) * 60 + g ! 5 \<and> f ! 6 = g ! 6"
    by (rule digit_unique[OF T]) (use f g in \<open>auto simp: valid_fields_def\<close>)
  have T2: "f ! 3 * 60 + f ! 4 = g ! 3 * 60 + g ! 4 \<and> f ! 5 = g ! 5"
    by (rule digit_unique[OF T1[THEN conjunct1]]) (use f g in \<open>auto simp: valid_fields_def\<close>)
  have T3: "f ! 3 = g ! 3 \<and> f ! 4 = g ! 4"
    by (rule digit_unique[OF T2[THEN conjunct1]]) (use f g in \<open>auto simp: valid_fields_def\<close>)
  have Y: "f ! 0 = g ! 0 \<and> month_start (f ! 0) (nat (f ! 1)) + (f ! 2 - 1) = month_start (g ! 0) (nat (g ! 1)) + (g ! 2 - 1)"
    by (rule year_unique[OF day_in_year[OF f] day_in_year[OF g]]) (use D in \<open>simp add: fields_days_def\<close>)
  then have M: "nat (f ! 1) = nat (g ! 1) \<and> f ! 2 - 1 = g ! 2 - 1"
    by (intro month_unique[of _ "f ! 0"]) (use f g valid_fields_month in \<open>auto simp: valid_fields_def\<close>)
  have "f ! 1 = g ! 1" using M f g by (auto simp: valid_fields_def)
  then have "f ! k = g ! k" if "k < 7" for k
    using that Y M T1 T2 T3 by (auto simp: numeral_eq_Suc less_Suc_eq)
  then show ?thesis using f g by (intro nth_equalityI) (auto simp: valid_fields_def)
qed

section \<open>Properties\<close>



text \<open>
  The day numbers of the years follow the Gregorian calendar: 1970 starts at day 0, and every
  year of a range of two times 10^15 years around it starts as many days after the previous one as
  that one has, 366 in a leap year and 365 otherwise.
\<close>

theorem days_from_year_gregorian:
  assumes "\<bar>y\<bar> < 1000000000000000"
  shows "days_from_year 1970 = Some 0 \<and>
    (\<exists>d. days_from_year y = Some d \<and> days_from_year (y + 1) = Some (d + days_in_year y)) \<and>
    days_in_year y = (if y mod 4 = 0 \<and> (y mod 100 \<noteq> 0 \<or> y mod 400 = 0) then 366 else 365)"
proof -
  have "days_from_year y = Some (dfy y)" "days_from_year (y + 1) = Some (dfy (y + 1))"
    using assms by (auto intro!: days_from_year_eq)
  moreover have "days_from_year 1970 = Some 0" by (simp add: days_from_year_eq dfy_def)
  ultimately show ?thesis using dfy_step[of y] days_in_year_eq[of y] by (simp add: leap_def)
qed

theorem days_from_year_gregorian_witness:
  "days_from_year 1970 = Some 0 \<and>
    (\<exists>d. days_from_year 1999 = Some d \<and> days_from_year (1999 + 1) = Some (d + days_in_year 1999)) \<and>
    days_in_year 1999 = (if (1999 :: int) mod 4 = 0 \<and> ((1999 :: int) mod 100 \<noteq> 0 \<or> (1999 :: int) mod 400 = 0) then 366 else 365)"
  by (rule days_from_year_gregorian) simp

text \<open>
  C28. Setting fields that are not too large never overflows: months outside the year carry into
  it and the other fields add their multiples, and the result is clipped to the range of time
  values.
\<close>

theorem set_date_fields_normalises:
  assumes "fields_small f"
  shows "set_date_fields tzo f False =
    Some (if \<bar>set_time f\<bar> \<le> 8640000000000000 then JsFin (of_int (set_time f)) else JsNaN)"
  using set_date_fields_spec[OF assms] by (simp add: time_clip_int del: time_clip.simps)

theorem set_date_fields_normalises_witness:
  "set_date_fields (\<lambda>_. 0) [2021, 14, 0, 25, - 1, 61, 1000] False =
    Some (if \<bar>set_time [2021, 14, 0, 25, - 1, 61, 1000]\<bar> \<le> 8640000000000000
          then JsFin (of_int (set_time [2021, 14, 0, 25, - 1, 61, 1000])) else JsNaN)"
  by (rule set_date_fields_normalises) (simp add: fields_small_def)


end
