(* ===== verification/Js_Date_Text.thy ===== *)
theory Js_Date_Text
  imports Js_Date
begin

text \<open>
  The methods of the \<^verbatim>\<open>Date\<close> objects in \<^verbatim>\<open>quickjs.c\<close>: reading and setting fields, formatting and
  parsing. A string is the list of its code units. The arguments are numbers already converted
  by \<^verbatim>\<open>JS_ToFloat64\<close>; the conversion of a number to \<^verbatim>\<open>int64_t\<close> out of its range, a signed overflow
  and a write beyond the buffer of 64 bytes are \<^const>\<open>None\<close>.
\<close>

section \<open>Fields\<close>

type_synonym jsstr = "int list"

definition get_date_field :: "(int \<Rightarrow> int) \<Rightarrow> date_this \<Rightarrow> nat \<Rightarrow> (js_error + jsnum) option" where
  "get_date_field tzo this magic = do {
     let is_local = (magic mod 16 \<noteq> 0);
     let n = magic div 16 mod 16;
     res \<leftarrow> get_date_fields tzo this is_local False;
     case res of
       Inl e \<Rightarrow> Some (Inl e)
     | Inr None \<Rightarrow> Some (Inr JsNaN)
     | Inr (Some fields) \<Rightarrow> do {
         let fields = (if bit magic 8 then fields[0 := fields ! 0 - 1900] else fields);
         Some (Inr (JsFin (of_int (fields ! n)))) } }"

text \<open>Storing the arguments from a field on; an argument that is not finite ends the loop with \<open>False\<close>.\<close>

fun store_args :: "int list \<Rightarrow> nat \<Rightarrow> jsnum list \<Rightarrow> (bool \<times> int list) option" where
  "store_args fields k [] = Some (True, fields)"
| "store_args fields k (JsFin a # args) = do {
     v \<leftarrow> i64 (trunc a);
     store_args (fields[k := v]) (k + 1) args }"
| "store_args fields k (_ # args) = Some (False, fields)"

definition set_date_field ::
  "(int \<Rightarrow> int) \<Rightarrow> date_this \<Rightarrow> jsnum list \<Rightarrow> nat \<Rightarrow> (js_error + jsnum \<times> date_this) option" where
  "set_date_field tzo this args magic = do {
     let first_field = magic div 256 mod 16;
     let end_field = magic div 16 mod 16;
     let is_local = (magic mod 16 \<noteq> 0);
     res \<leftarrow> get_date_fields tzo this is_local (first_field = 0);
     case res of
       Inl e \<Rightarrow> Some (Inl e)
     | Inr None \<Rightarrow> Some (JS_SetThisTimeValue this JsNaN)
     | Inr (Some fields) \<Rightarrow>
         (if args = [] then Some (JS_SetThisTimeValue this JsNaN)
          else do {
            let n = min (end_field - first_field) (length args);
            (ok, fields) \<leftarrow> store_args fields first_field (take n args);
            if ok then do {
              d \<leftarrow> set_date_fields tzo fields is_local;
              Some (JS_SetThisTimeValue this d) }
            else Some (JS_SetThisTimeValue this JsNaN) }) }"

text \<open>The loops of \<^verbatim>\<open>Date.UTC\<close> and of the constructor, which add 1900 to a year below 100.\<close>

fun store_date_args :: "int list \<Rightarrow> nat \<Rightarrow> jsnum list \<Rightarrow> (bool \<times> int list) option" where
  "store_date_args fields i [] = Some (True, fields)"
| "store_date_args fields i (JsFin a # args) = do {
     v \<leftarrow> i64 (trunc a);
     let v = (if i = 0 \<and> v \<ge> 0 \<and> v < 100 then v + 1900 else v);
     store_date_args (fields[i := v]) (i + 1) args }"
| "store_date_args fields i (_ # args) = Some (False, fields)"

definition js_Date_UTC :: "(int \<Rightarrow> int) \<Rightarrow> jsnum list \<Rightarrow> jsnum option" where
  "js_Date_UTC tzo args =
     (if args = [] then Some JsNaN
      else do {
        (ok, fields) \<leftarrow> store_date_args [0, 0, 1, 0, 0, 0, 0] 0 (take 7 args);
        if ok then set_date_fields tzo fields False else Some JsNaN })"

text \<open>The time value of a new \<^verbatim>\<open>Date\<close> from two or more numbers.\<close>

definition date_from_numbers :: "(int \<Rightarrow> int) \<Rightarrow> jsnum list \<Rightarrow> jsnum option" where
  "date_from_numbers tzo args = do {
     (ok, fields) \<leftarrow> store_date_args [0, 0, 1, 0, 0, 0, 0] 0 (take 7 args);
     if ok then set_date_fields tzo fields True else Some JsNaN }"

definition js_date_getTime :: "date_this \<Rightarrow> js_error + jsnum" where
  "js_date_getTime this = JS_ThisTimeValue this"

definition js_date_setTime :: "date_this \<Rightarrow> jsnum \<Rightarrow> js_error + jsnum \<times> date_this" where
  "js_date_setTime this v =
     (case JS_ThisTimeValue this of Inl e \<Rightarrow> Inl e | Inr _ \<Rightarrow> JS_SetThisTimeValue this (time_clip v))"

definition js_date_getTimezoneOffset :: "(int \<Rightarrow> int) \<Rightarrow> date_this \<Rightarrow> (js_error + jsnum) option" where
  "js_date_getTimezoneOffset tzo this =
     (case JS_ThisTimeValue this of
        Inl e \<Rightarrow> Some (Inl e)
      | Inr JsNaN \<Rightarrow> Some (Inr JsNaN)
      | Inr (JsInf _) \<Rightarrow> None
      | Inr (JsFin v) \<Rightarrow> map_option (\<lambda>d. Inr (JsFin (of_int (tzo d)))) (i64 (trunc v)))"

definition js_date_setYear :: "(int \<Rightarrow> int) \<Rightarrow> date_this \<Rightarrow> jsnum \<Rightarrow> (js_error + jsnum \<times> date_this) option" where
  "js_date_setYear tzo this y =
     (case JS_ThisTimeValue this of
        Inl e \<Rightarrow> Some (Inl e)
      | Inr _ \<Rightarrow>
          (let y = (case y of
                      JsFin v \<Rightarrow> (let t = trunc v in JsFin (of_int (if t \<ge> 0 \<and> t < 100 then t + 1900 else t)))
                    | _ \<Rightarrow> y)
           in set_date_field tzo this [y] 0x011))"

section \<open>Formatting\<close>

text \<open>The conversions of \<^verbatim>\<open>snprintf\<close> that the code uses: \<^verbatim>\<open>%0wd\<close> and \<^verbatim>\<open>%+0wd\<close>.\<close>

fun dec :: "nat \<Rightarrow> jsstr" where
  "dec n = (if n < 10 then [48 + int n] else dec (n div 10) @ [48 + int (n mod 10)])"

declare dec.simps [simp del]

definition pad0 :: "nat \<Rightarrow> jsstr \<Rightarrow> jsstr" where
  "pad0 w ds = replicate (w - length ds) 48 @ ds"

definition fmt_d :: "nat \<Rightarrow> int \<Rightarrow> jsstr" where
  "fmt_d w x = (if x < 0 then 45 # pad0 (w - 1) (dec (nat (- x))) else pad0 w (dec (nat x)))"

definition fmt_plus :: "nat \<Rightarrow> int \<Rightarrow> jsstr" where
  "fmt_plus w x = (if x < 0 then 45 else 43) # pad0 (w - 1) (dec (nat \<bar>x\<bar>))"

definition month_names :: jsstr where
  "month_names = map of_char ''JanFebMarAprMayJunJulAugSepOctNovDec''"

definition day_names :: jsstr where
  "day_names = map of_char ''SunMonTueWedThuFriSat''"

definition name3 :: "jsstr \<Rightarrow> int \<Rightarrow> jsstr" where
  "name3 names i = take 3 (drop (nat (i * 3)) names)"

text \<open>Appending to the buffer of 64 bytes: \<^verbatim>\<open>snprintf\<close> needs room for the terminating zero too.\<close>

definition emit :: "jsstr \<Rightarrow> jsstr \<Rightarrow> jsstr option" where
  "emit buf s = (if length buf + length s < 64 then Some (buf @ s) else None)"

definition emit_char :: "jsstr \<Rightarrow> int \<Rightarrow> jsstr option" where
  "emit_char buf c = (if length buf < 64 then Some (buf @ [c]) else None)"

definition date_part :: "nat \<Rightarrow> nat \<Rightarrow> int list \<Rightarrow> jsstr \<Rightarrow> jsstr option" where
  "date_part fmt part f buf =
     (let y = f ! 0; mon = f ! 1; d = f ! 2; wd = f ! 7; yw = (if y < 0 then 5 else 4) in
      if fmt = 0 then
        emit buf (name3 day_names wd @ [44, 32] @ fmt_d 2 d @ [32] @ name3 month_names mon @ [32] @ fmt_d yw y @ [32])
      else if fmt = 1 then do {
        buf \<leftarrow> emit buf (name3 day_names wd @ [32] @ name3 month_names mon @ [32] @ fmt_d 2 d @ [32] @ fmt_d yw y);
        if part = 3 then emit_char buf 32 else Some buf }
      else if fmt = 2 then do {
        buf \<leftarrow> emit buf (if y \<ge> 0 \<and> y \<le> 9999 then fmt_d 4 y else fmt_plus 7 y);
        emit buf ([45] @ fmt_d 2 (mon + 1) @ [45] @ fmt_d 2 d @ [84]) }
      else if fmt = 3 then do {
        buf \<leftarrow> emit buf (fmt_d 2 (mon + 1) @ [47] @ fmt_d 2 d @ [47] @ fmt_d yw y);
        if part = 3 then do { buf \<leftarrow> emit_char buf 44; emit_char buf 32 } else Some buf }
      else Some buf)"

definition time_part :: "nat \<Rightarrow> int list \<Rightarrow> jsstr \<Rightarrow> jsstr option" where
  "time_part fmt f buf =
     (let h = f ! 3; m = f ! 4; s = f ! 5; ms = f ! 6; tz = f ! 8;
          hms = (\<lambda>h. fmt_d 2 h @ [58] @ fmt_d 2 m @ [58] @ fmt_d 2 s) in
      if fmt = 0 then emit buf (hms h @ [32, 71, 77, 84])
      else if fmt = 1 then do {
        buf \<leftarrow> emit buf (hms h @ [32, 71, 77, 84]);
        (buf, tz) \<leftarrow> (if tz < 0 then do { buf \<leftarrow> emit_char buf 45; Some (buf, - tz) }
                      else do { buf \<leftarrow> emit_char buf 43; Some (buf, tz) });
        emit buf (fmt_d 2 (tz sdiv 60) @ fmt_d 2 (tz smod 60)) }
      else if fmt = 2 then emit buf (hms h @ [46] @ fmt_d 3 ms @ [90])
      else if fmt = 3 then emit buf (hms ((h + 1) smod 12 - 1) @ [32, if h < 12 then 65 else 80, 77])
      else Some buf)"

definition get_date_string :: "(int \<Rightarrow> int) \<Rightarrow> date_this \<Rightarrow> nat \<Rightarrow> (js_error + jsstr) option" where
  "get_date_string tzo this magic = do {
     let fmt = magic div 16 mod 16;
     let part = magic mod 16;
     res \<leftarrow> get_date_fields tzo this (odd fmt) False;
     case res of
       Inl e \<Rightarrow> Some (Inl e)
     | Inr None \<Rightarrow> Some (if fmt = 2 then Inl RangeError else Inr (map of_char ''Invalid Date''))
     | Inr (Some f) \<Rightarrow> do {
         buf \<leftarrow> (if odd part then date_part fmt part f [] else Some []);
         buf \<leftarrow> (if odd (part div 2) then time_part fmt f buf else Some buf);
         Some (Inr buf) } }"

section \<open>Parsing\<close>

definition is_digit :: "int \<Rightarrow> bool" where
  "is_digit c \<longleftrightarrow> 48 \<le> c \<and> c \<le> 57"

function skip_while :: "(int \<Rightarrow> bool) \<Rightarrow> jsstr \<Rightarrow> nat \<Rightarrow> nat" where
  "skip_while P sp p = (if p < length sp \<and> P (sp ! p) then skip_while P sp (p + 1) else p)"
  by pat_completeness auto
termination by (relation "measure (\<lambda>(P, sp, p). length sp - p)") auto

declare skip_while.simps [simp del]

definition string_skip_spaces :: "jsstr \<Rightarrow> nat \<Rightarrow> nat" where
  "string_skip_spaces sp p = skip_while (\<lambda>c. c = 32) sp p"

definition string_skip_non_spaces :: "jsstr \<Rightarrow> nat \<Rightarrow> nat" where
  "string_skip_non_spaces sp p = skip_while (\<lambda>c. c \<noteq> 32) sp p"

function digit_loop :: "jsstr \<Rightarrow> nat \<Rightarrow> int \<Rightarrow> (nat \<times> int) option" where
  "digit_loop sp p v =
     (if p < length sp \<and> is_digit (sp ! p) then do {
        a \<leftarrow> i64 (v * 10);
        b \<leftarrow> i64 (a + sp ! p);
        v \<leftarrow> i64 (b - 48);
        digit_loop sp (p + 1) v }
      else Some (p, v))"
  by pat_completeness auto
termination by (relation "measure (\<lambda>(sp, p, v). length sp - p)") auto

declare digit_loop.simps [simp del]

text \<open>
  The result of a parser is the value and the position behind it, or \<open>Some None\<close> for the error code
  -1, which leaves the position and the value of the caller.
\<close>

definition string_get_field :: "jsstr \<Rightarrow> nat \<Rightarrow> (int \<times> nat) option option" where
  "string_get_field sp p =
     (let p = skip_while (\<lambda>c. \<not> is_digit c) sp p in
      if p \<ge> length sp then Some None
      else map_option (\<lambda>(p, v). Some (v, p)) (digit_loop sp p 0))"

fun string_get_digits :: "jsstr \<Rightarrow> nat \<Rightarrow> nat \<Rightarrow> int \<Rightarrow> (int \<times> nat) option" where
  "string_get_digits sp p 0 v = Some (v, p)"
| "string_get_digits sp p (Suc n) v =
     (if p \<ge> length sp \<or> \<not> is_digit (sp ! p) then None
      else string_get_digits sp (p + 1) n (v * 10 + sp ! p - 48))"

text \<open>The position is advanced over the sign even when no number follows.\<close>

definition string_get_signed_field :: "jsstr \<Rightarrow> nat \<Rightarrow> ((int \<times> nat) option \<times> nat) option" where
  "string_get_signed_field sp p =
     (if p \<ge> length sp then Some (None, p)
      else do {
        let sg = sp ! p;
        let p = (if sg = 45 \<or> sg = 43 then p + 1 else p);
        r \<leftarrow> string_get_field sp p;
        Some (map_option (\<lambda>(v, q). (if sg = 45 then - v else v, q)) r, p) })"

fun find_abbrev :: "jsstr \<Rightarrow> nat \<Rightarrow> nat \<Rightarrow> nat \<Rightarrow> nat option" where
  "find_abbrev sp p n 0 = None"
| "find_abbrev sp p n (Suc cnt) =
     (if p + 3 \<le> length sp then
        (if take 3 (drop p sp) = take 3 (drop (n * 3) month_names) then Some n
         else find_abbrev sp p (n + 1) cnt)
      else None)"

definition string_get_month :: "jsstr \<Rightarrow> nat \<Rightarrow> (int \<times> nat) option" where
  "string_get_month sp p =
     (let p = string_skip_spaces sp p in
      map_option (\<lambda>n. (int n, p + 3)) (find_abbrev sp p 0 12))"

text \<open>The fields of the ISO format from the month on, until one is missing.\<close>

fun iso_fields :: "jsstr \<Rightarrow> nat \<Rightarrow> nat \<Rightarrow> nat \<Rightarrow> int list \<Rightarrow> (nat \<times> nat \<times> int list) option" where
  "iso_fields sp 0 i p fields = Some (i, p, fields)"
| "iso_fields sp (Suc n) i p fields = do {
     r \<leftarrow> string_get_field sp p;
     case r of
       None \<Rightarrow> Some (i, p, fields)
     | Some (v, p) \<Rightarrow> iso_fields sp n (i + 1) p (fields[i := v]) }"

text \<open>The fraction of a second, rounded to milliseconds; \<open>p\<close> is the position of the last character read.\<close>

function iso_fraction :: "jsstr \<Rightarrow> nat \<Rightarrow> int \<Rightarrow> int \<Rightarrow> nat \<times> int" where
  "iso_fraction sp p mul ms =
     (let p = p + 1 in
      if p < length sp \<and> is_digit (sp ! p) then
        (let c = sp ! p;
             ms = (if mul = 1 \<and> c \<ge> 53 then ms + 1 else ms);
             mul = mul sdiv 10
         in iso_fraction sp p mul (ms + (c - 48) * mul))
      else (p, ms))"
  by pat_completeness auto
termination by (relation "measure (\<lambda>(sp, p, mul, ms). length sp - p)") auto

declare iso_fraction.simps [simp del]

definition tz_minutes :: "int \<Rightarrow> int \<Rightarrow> int \<Rightarrow> int option" where
  "tz_minutes sg hh mm = do {
     t \<leftarrow> i64 (hh * 60);
     t \<leftarrow> i64 (t + mm);
     if sg = 45 then i64 (- t) else Some t }"

text \<open>The time zone of the ISO format: \<open>None\<close> inside is the exit to \<^verbatim>\<open>done\<close>.\<close>

definition iso_zone :: "jsstr \<Rightarrow> nat \<Rightarrow> bool \<Rightarrow> (int \<times> bool) option option" where
  "iso_zone sp p is_local =
     (if p < length sp then
        (let sg = sp ! p in
         if sg = 43 \<or> sg = 45 then do {
           r \<leftarrow> string_get_field sp p;
           case r of
             None \<Rightarrow> Some None
           | Some (hh, p) \<Rightarrow> do {
               r \<leftarrow> string_get_field sp p;
               case r of
                 None \<Rightarrow> Some None
               | Some (mm, p) \<Rightarrow> do { tz \<leftarrow> tz_minutes sg hh mm; Some (Some (tz, False)) } } }
         else if sg = 90 then Some (Some (0, False))
         else Some (Some (0, is_local)))
      else Some (Some (0, is_local)))"

definition parse_iso :: "jsstr \<Rightarrow> (int list \<times> int \<times> bool) option option" where
  "parse_iso sp = do {
     (r, p) \<leftarrow> string_get_signed_field sp 0;
     case r of
       None \<Rightarrow> Some None
     | Some (v, p) \<Rightarrow> do {
         (i, p, fields) \<leftarrow> iso_fields sp 5 1 p [v, 1, 1, 0, 0, 0, 0];
         let is_local = \<not> (i \<le> 3);
         let (p, fields) =
           (if \<not> (i \<le> 3) \<and> i = 6 \<and> p < length sp \<and> sp ! p = 46 then
              (let (p, ms) = iso_fraction sp p 1000 0 in (p, fields[6 := ms]))
            else (p, fields));
         m \<leftarrow> i64 (fields ! 1 - 1);
         let fields = fields[1 := m];
         z \<leftarrow> iso_zone sp p is_local;
         Some (map_option (\<lambda>(tz, is_local). (fields, tz, is_local)) z) } }"

fun text_hms :: "jsstr \<Rightarrow> nat \<Rightarrow> nat \<Rightarrow> nat \<Rightarrow> int list \<Rightarrow> (nat \<times> int list) option option" where
  "text_hms sp 0 i p fields = Some (Some (p, fields))"
| "text_hms sp (Suc n) i p fields = do {
     r \<leftarrow> string_get_field sp p;
     case r of
       None \<Rightarrow> Some None
     | Some (v, p) \<Rightarrow> text_hms sp n (i + 1) p (fields[3 + i := v]) }"

function text_zone :: "jsstr \<Rightarrow> nat \<Rightarrow> int option option" where
  "text_zone sp p =
     (if p < length sp then
        (let sg = sp ! p in
         if sg = 43 \<or> sg = 45 then
           (case string_get_digits sp (p + 1) 2 0 of
              None \<Rightarrow> Some None
            | Some (hh, p) \<Rightarrow>
                (case string_get_digits sp p 2 0 of
                   None \<Rightarrow> Some None
                 | Some (mm, p) \<Rightarrow> do { tz \<leftarrow> tz_minutes sg hh mm; Some (Some tz) }))
         else text_zone sp (p + 1))
      else Some (Some 0))"
  by pat_completeness auto
termination by (relation "measure (\<lambda>(sp, p). length sp - p)") auto

declare text_zone.simps [simp del]

text \<open>The day and the month, in either order.\<close>

definition text_day_month :: "jsstr \<Rightarrow> nat \<Rightarrow> (int \<times> int \<times> nat) option option" where
  "text_day_month sp p =
     (if is_digit (sp ! p) then do {
        r \<leftarrow> string_get_field sp p;
        case r of
          None \<Rightarrow> Some None
        | Some (day, p) \<Rightarrow>
            Some (map_option (\<lambda>(mon, p). (day, mon, p)) (string_get_month sp p)) }
      else
        (case string_get_month sp p of
           None \<Rightarrow> Some None
         | Some (mon, p) \<Rightarrow> do {
             r \<leftarrow> string_get_field sp p;
             Some (map_option (\<lambda>(day, p). (day, mon, p)) r) }))"

definition parse_text :: "jsstr \<Rightarrow> (int list \<times> int \<times> bool) option option" where
  "parse_text sp =
     (let p = string_skip_spaces sp (string_skip_non_spaces sp 0) in
      if p \<ge> length sp then Some None
      else do {
        dm \<leftarrow> text_day_month sp p;
        case dm of
          None \<Rightarrow> Some None
        | Some (day, mon, p) \<Rightarrow> do {
            let p = string_skip_spaces sp p;
            (r, p) \<leftarrow> string_get_signed_field sp p;
            case r of
              None \<Rightarrow> Some None
            | Some (y, p) \<Rightarrow> do {
                r \<leftarrow> text_hms sp 3 0 p [y, mon, day, 0, 0, 0, 0];
                case r of
                  None \<Rightarrow> Some None
                | Some (p, fields) \<Rightarrow> do {
                    z \<leftarrow> text_zone sp p;
                    Some (map_option (\<lambda>tz. (fields, tz, False)) z) } } } })"

text \<open>The conversion of an integer to a double: to the nearest of 53 significant bits, ties to even.\<close>

fun bit_count :: "nat \<Rightarrow> nat" where
  "bit_count n = (if n = 0 then 0 else Suc (bit_count (n div 2)))"

declare bit_count.simps [simp del]

definition double_of_int :: "int \<Rightarrow> int" where
  "double_of_int x =
     (if \<bar>x\<bar> \<le> 2 ^ 53 then x
      else
        (let u = 2 ^ (bit_count (nat \<bar>x\<bar>) - 53);
             q = \<bar>x\<bar> div u;
             r = \<bar>x\<bar> mod u;
             q = (if u < 2 * r \<or> (2 * r = u \<and> odd q) then q + 1 else q)
         in if x < 0 then - (q * u) else q * u))"

definition js_Date_parse :: "(int \<Rightarrow> int) \<Rightarrow> jsstr \<Rightarrow> jsnum option" where
  "js_Date_parse tzo sp = do {
     r \<leftarrow> (if 0 < length sp \<and> (is_digit (sp ! 0) \<or> sp ! 0 = 43 \<or> sp ! 0 = 45) then parse_iso sp else parse_text sp);
     case r of
       None \<Rightarrow> Some JsNaN
     | Some (fields, tz, is_local) \<Rightarrow> do {
         d \<leftarrow> set_date_fields tzo fields is_local;
         t \<leftarrow> i64 (tz * 60000);
         Some (case d of JsFin x \<Rightarrow> JsFin (of_int (double_of_int (\<lfloor>x\<rfloor> - double_of_int t))) | _ \<Rightarrow> JsNaN) } }"

text \<open>
  The argument of the constructor after \<^verbatim>\<open>JS_ToPrimitive\<close>. The clock \<open>now\<close> and the conversion \<open>num\<close> of an
  argument by \<^verbatim>\<open>JS_ToFloat64\<close> are parameters; a conversion that throws is not modelled.
\<close>

datatype date_arg = ArgDate jsnum | ArgString jsstr | ArgNumber jsnum

definition js_date_constructor ::
  "(int \<Rightarrow> int) \<Rightarrow> int \<Rightarrow> (date_arg \<Rightarrow> jsnum) \<Rightarrow> bool \<Rightarrow> date_arg list \<Rightarrow> (jsstr + date_this) option" where
  "js_date_constructor tzo now num is_new argv = do {
     let argv = (if is_new then argv else []);
     val \<leftarrow> (case argv of
         [] \<Rightarrow> Some (JsFin (of_int now))
       | [ArgDate v] \<Rightarrow> Some (time_clip v)
       | [ArgString sp] \<Rightarrow> map_option time_clip (js_Date_parse tzo sp)
       | [ArgNumber v] \<Rightarrow> Some (time_clip v)
       | _ \<Rightarrow> date_from_numbers tzo (map num argv));
     if is_new then Some (Inr (DateObj val))
     else do {
       r \<leftarrow> get_date_string tzo (DateObj val) 0x13;
       case r of Inr sp \<Rightarrow> Some (Inl sp) | Inl _ \<Rightarrow> None } }"

section \<open>Digits\<close>

definition dval :: "jsstr \<Rightarrow> int" where
  "dval ds = foldl (\<lambda>v c. v * 10 + c - 48) 0 ds"

definition digits :: "jsstr \<Rightarrow> bool" where
  "digits ds \<longleftrightarrow> (\<forall>c\<in>set ds. is_digit c)"

lemma dval_snoc: "dval (ds @ [c]) = dval ds * 10 + c - 48"
  by (simp add: dval_def)

lemma dval_zeros: "dval (replicate n 48 @ ds) = dval ds"
  by (induction n) (simp_all add: dval_def)

lemma dec_spec: "digits (dec n) \<and> dval (dec n) = int n \<and> dec n \<noteq> []"
proof (induction n rule: dec.induct)
  case (1 n)
  show ?case
  proof (cases "n < 10")
    case True
    then show ?thesis by (subst (1 2 3) dec.simps) (simp add: digits_def is_digit_def dval_def)
  next
    case False
    then have "dec n = dec (n div 10) @ [48 + int (n mod 10)]" by (subst dec.simps) simp
    moreover have "int (n div 10) * 10 + int (n mod 10) = int n"
      by (simp add: zdiv_int zmod_int)
    ultimately show ?thesis using 1[OF False] by (auto simp: dval_snoc digits_def is_digit_def)
  qed
qed

lemma length_dec: "n < 10 ^ Suc k \<Longrightarrow> length (dec n) \<le> Suc k"
proof (induction k arbitrary: n)
  case 0
  then show ?case by (subst dec.simps) simp
next
  case (Suc k)
  show ?case
  proof (cases "n < 10")
    case True
    then show ?thesis by (subst dec.simps) simp
  next
    case False
    have "n div 10 < 10 ^ Suc k" using Suc.prems by (simp add: less_mult_imp_div_less mult.commute)
    then show ?thesis using Suc.IH[of "n div 10"] False by (subst dec.simps) simp
  qed
qed

lemma pad0_dec:
  assumes "n < 10 ^ Suc k"
  shows "digits (pad0 (Suc k) (dec n))" "dval (pad0 (Suc k) (dec n)) = int n" "length (pad0 (Suc k) (dec n)) = Suc k"
  using dec_spec[of n] length_dec[OF assms] by (auto simp: pad0_def dval_zeros digits_def is_digit_def)

lemma fmt_d_digits:
  assumes "0 \<le> x" "x < 10 ^ Suc k"
  shows "digits (fmt_d (Suc k) x)" "dval (fmt_d (Suc k) x) = x" "length (fmt_d (Suc k) x) = Suc k"
proof -
  have "nat x < 10 ^ Suc k" using assms by (simp add: nat_less_iff)
  from pad0_dec[OF this] show "digits (fmt_d (Suc k) x)" "dval (fmt_d (Suc k) x) = x" "length (fmt_d (Suc k) x) = Suc k"
    using assms(1) by (simp_all add: fmt_d_def)
qed

lemma fmt_plus_digits:
  assumes "\<bar>x\<bar> < 10 ^ Suc k"
  obtains ds where "fmt_plus (Suc (Suc k)) x = (if x < 0 then 45 else 43) # ds" "digits ds" "dval ds = \<bar>x\<bar>" "length ds = Suc k"
proof -
  have "nat \<bar>x\<bar> < 10 ^ Suc k" using assms by (simp add: nat_less_iff)
  from pad0_dec[OF this] show ?thesis by (intro that[of "pad0 (Suc k) (dec (nat \<bar>x\<bar>))"]) (simp_all add: fmt_plus_def)
qed

section \<open>The parser on well-formed input\<close>

lemma drop_Cons_nth: "drop p sp = c # r \<Longrightarrow> p < length sp \<and> sp ! p = c \<and> drop (p + 1) sp = r"
  by (metis Cons_nth_drop_Suc Suc_eq_plus1 drop_all list.inject list.simps(3) not_le)

lemma skip_while_drop:
  "drop p sp = sep @ r \<Longrightarrow> (\<forall>c\<in>set sep. P c) \<Longrightarrow> r = [] \<or> \<not> P (hd r) \<Longrightarrow> skip_while P sp p = p + length sep"
proof (induction sep arbitrary: p)
  case Nil
  then show ?case by (cases r) (auto simp: skip_while.simps[of P sp p] dest!: drop_Cons_nth)
next
  case (Cons c sep)
  then show ?case using drop_Cons_nth[of p sp c "sep @ r"] by (subst skip_while.simps) auto
qed

lemma digit_loop_drop:
  "drop p sp = ds @ r \<Longrightarrow> digits ds \<Longrightarrow> r = [] \<or> \<not> is_digit (hd r) \<Longrightarrow> 0 \<le> v \<Longrightarrow> v * 10 ^ length ds + 10 ^ length ds \<le> 10 ^ 18 \<Longrightarrow>
   digit_loop sp p v = Some (p + length ds, foldl (\<lambda>v c. v * 10 + c - 48) v ds)"
proof (induction ds arbitrary: p v)
  case Nil
  then show ?case by (cases r) (auto simp: digit_loop.simps[of sp p v] dest!: drop_Cons_nth)
next
  case (Cons c ds)
  define N :: int where "N = 10 ^ length ds"
  have N: "1 \<le> N" by (simp add: N_def)
  have c: "48 \<le> c" "c \<le> 57" "digits ds" using Cons.prems(2) by (auto simp: digits_def is_digit_def)
  have b: "v * 10 * N + 10 * N \<le> 10 ^ 18" using Cons.prems(5) by (simp add: N_def algebra_simps)
  have "v * 10 + 10 \<le> (v * 10 + 10) * N" using N Cons.prems(4) by (simp add: mult_le_cancel_left1)
  then have b2: "v * 10 + 10 \<le> 1000000000000000000" using b by (simp add: algebra_simps)
  have "(v * 10 + c - 48) * N + N \<le> (v * 10 + 9) * N + N" using c N by (intro add_right_mono mult_right_mono) auto
  then have b3: "(v * 10 + c - 48) * N + N \<le> 10 ^ 18" using b by (simp add: algebra_simps)
  have "digit_loop sp (p + 1) (v * 10 + c - 48) = Some (p + 1 + length ds, foldl (\<lambda>v c. v * 10 + c - 48) (v * 10 + c - 48) ds)"
    using Cons.prems c b3 drop_Cons_nth[of p sp c "ds @ r"] by (intro Cons.IH) (auto simp: N_def)
  moreover have "i64 (v * 10) = Some (v * 10)" "i64 (v * 10 + c) = Some (v * 10 + c)" "i64 (v * 10 + c - 48) = Some (v * 10 + c - 48)"
    using b2 c Cons.prems(4) by (auto intro!: i64_Some)
  ultimately show ?case using drop_Cons_nth[of p sp c "ds @ r"] Cons.prems(1) c
    by (subst digit_loop.simps) (simp add: is_digit_def)
qed

lemma get_field_drop:
  assumes "drop p sp = sep @ ds @ r" "\<forall>c\<in>set sep. \<not> is_digit c" "digits ds" "ds \<noteq> []" "length ds \<le> 18"
    and "r = [] \<or> \<not> is_digit (hd r)"
  shows "\<exists>q. string_get_field sp p = Some (Some (dval ds, q)) \<and> drop q sp = r"
proof -
  have hd: "is_digit (hd (ds @ r))" using assms(3,4) by (cases ds) (auto simp: digits_def)
  have sk: "skip_while (\<lambda>c. \<not> is_digit c) sp p = p + length sep"
    using skip_while_drop[OF assms(1), of "\<lambda>c. \<not> is_digit c"] assms(2) hd by auto
  have d: "drop (p + length sep) sp = ds @ r" using assms(1) by (metis add.commute append_eq_conv_conj drop_drop)
  then have lt: "p + length sep < length sp" using assms(4) by (metis append_is_Nil_conv drop_eq_Nil not_le)
  have "(10 :: int) ^ length ds \<le> 10 ^ 18" using assms(5) by (intro power_increasing) auto
  then have "digit_loop sp (p + length sep) 0 = Some (p + length sep + length ds, dval ds)"
    using digit_loop_drop[OF d assms(3,6), of 0] by (simp add: dval_def)
  moreover have "drop (p + length sep + length ds) sp = r" using d by (metis add.commute append_eq_conv_conj drop_drop)
  ultimately show ?thesis using sk lt by (simp add: string_get_field_def Let_def)
qed

lemma pad0_3: "pad0 3 [a] = [48, 48, a]" "pad0 3 [a, b] = [48, a, b]" "pad0 3 [a, b, c] = [a, b, c]"
  by (simp_all add: pad0_def eval_nat_numeral)

lemma dec_1: "n < 10 \<Longrightarrow> dec n = [48 + int n]"
  by (subst dec.simps) simp

lemma dec_more: "10 \<le> n \<Longrightarrow> dec n = dec (n div 10) @ [48 + int (n mod 10)]"
  by (subst dec.simps) simp

lemma fmt_d_3:
  assumes "0 \<le> x" "x < 1000"
  shows "fmt_d 3 x = [48 + x div 100, 48 + x div 10 mod 10, 48 + x mod 10]"
proof -
  define n where "n = nat x"
  have n: "n < 1000" "x = int n" using assms by (auto simp: n_def)
  consider (one) "n < 10" | (two) "10 \<le> n" "n < 100" | (three) "100 \<le> n" by linarith
  then have "pad0 3 (dec n) = [48 + int (n div 100), 48 + int (n div 10 mod 10), 48 + int (n mod 10)]"
  proof cases
    case one
    then have "n div 100 = 0" "n div 10 = 0" "n mod 10 = n" by auto
    then show ?thesis by (simp only: dec_1[OF one] pad0_3) simp
  next
    case two
    then have "n div 100 = 0" "n div 10 < 10" "n div 10 mod 10 = n div 10" by auto
    then show ?thesis by (simp only: dec_more[OF two(1)] dec_1 append_Cons append_Nil pad0_3) simp
  next
    case three
    have e: "n div 10 div 10 = n div 100" by (simp add: div_mult2_eq[symmetric])
    have "10 \<le> n" "10 \<le> n div 10" "n div 100 < 10" using three n(1) by auto
    then show ?thesis by (simp only: dec_more dec_1 e append_Cons append_Nil pad0_3)
  qed
  moreover have "fmt_d 3 x = pad0 3 (dec n)" using assms(1) by (simp add: fmt_d_def n_def)
  ultimately show ?thesis using n(2) by (simp only: zdiv_int zmod_int of_nat_numeral)
qed

lemma iso_fraction_3:
  assumes "drop (p + 1) sp = a # b # c # r" "is_digit a" "is_digit b" "is_digit c" "r = [] \<or> \<not> is_digit (hd r)"
  shows "\<exists>q. iso_fraction sp p 1000 0 = (q, (a - 48) * 100 + (b - 48) * 10 + (c - 48)) \<and> drop q sp = r"
proof -
  have 1: "p + 1 < length sp" "sp ! (p + 1) = a" "drop (p + 2) sp = b # c # r" using drop_Cons_nth[OF assms(1)] by auto
  have 2: "p + 2 < length sp" "sp ! (p + 2) = b" "drop (p + 3) sp = c # r" using drop_Cons_nth[OF 1(3)] by (auto simp: eval_nat_numeral)
  have 3: "p + 3 < length sp" "sp ! (p + 3) = c" "drop (p + 4) sp = r" using drop_Cons_nth[OF 2(3)] by (auto simp: eval_nat_numeral)
  have 4: "\<not> (p + 4 < length sp \<and> is_digit (sp ! (p + 4)))"
    using assms(5) 3(3) by (metis Cons_nth_drop_Suc list.sel(1) list.distinct(1))
  have s1: "(1000 :: int) sdiv 10 = 100" "(100 :: int) sdiv 10 = 10" "(10 :: int) sdiv 10 = 1"
    using sdiv_exact[of 10 100] sdiv_exact[of 10 10] sdiv_exact[of 10 1] by simp_all
  have "iso_fraction sp p 1000 0 = iso_fraction sp (p + 1) 100 ((a - 48) * 100)"
    using 1 assms(2) s1 by (subst iso_fraction.simps) (simp add: Let_def)
  also have "\<dots> = iso_fraction sp (p + 2) 10 ((a - 48) * 100 + (b - 48) * 10)"
    using 2 assms(3) s1 by (subst iso_fraction.simps) (simp add: Let_def eval_nat_numeral)
  also have "\<dots> = iso_fraction sp (p + 3) 1 ((a - 48) * 100 + (b - 48) * 10 + (c - 48))"
    using 3 assms(4) s1 by (subst iso_fraction.simps) (simp add: Let_def eval_nat_numeral)
  also have "\<dots> = (p + 4, (a - 48) * 100 + (b - 48) * 10 + (c - 48))"
    using 4 by (subst iso_fraction.simps) (auto simp: Let_def eval_nat_numeral)
  finally show ?thesis using 3(3) by blast
qed

text \<open>The text of \<^verbatim>\<open>toISOString\<close>.\<close>

definition iso_year :: "int \<Rightarrow> jsstr" where
  "iso_year y = (if y \<ge> 0 \<and> y \<le> 9999 then fmt_d 4 y else fmt_plus 7 y)"

definition iso_rest :: "int list \<Rightarrow> jsstr" where
  "iso_rest f = [45] @ fmt_d 2 (f ! 1 + 1) @ [45] @ fmt_d 2 (f ! 2) @ [84] @ fmt_d 2 (f ! 3) @ [58] @ fmt_d 2 (f ! 4) @
     [58] @ fmt_d 2 (f ! 5) @ [46] @ fmt_d 3 (f ! 6) @ [90]"

lemma fmt_d_2: "0 \<le> x \<Longrightarrow> x < 100 \<Longrightarrow> digits (fmt_d 2 x) \<and> dval (fmt_d 2 x) = x \<and> length (fmt_d 2 x) = 2"
  using fmt_d_digits[of x 1] by (simp add: numeral_2_eq_2)

lemma length_iso_year: "\<bar>y\<bar> < 1000000 \<Longrightarrow> length (iso_year y) \<le> 7"
proof -
  assume y: "\<bar>y\<bar> < 1000000"
  obtain ds where "fmt_plus 7 y = (if y < 0 then 45 else 43) # ds" "length ds = 6"
    using fmt_plus_digits[of y 5] y by (auto simp: numeral_eq_Suc)
  moreover have "length (fmt_d 4 y) = 4" if "y \<ge> 0 \<and> y \<le> 9999"
    using fmt_d_digits(3)[of y 3] that by (auto simp: numeral_eq_Suc)
  ultimately show ?thesis by (auto simp: iso_year_def)
qed

lemma iso_string:
  assumes f: "get_date_fields tzo this False False = Some (Inr (Some f))" "valid_fields f" "\<bar>f ! 0\<bar> < 1000000"
  shows "get_date_string tzo this 0x23 = Some (Inr (iso_year (f ! 0) @ iso_rest f))"
proof -
  have m: "f ! 2 \<le> 31" using valid_fields_month(3)[OF f(2)] f(2) unfolding valid_fields_def by linarith
  have l: "length (fmt_d 2 (f ! 1 + 1)) = 2" "length (fmt_d 2 (f ! 2)) = 2" "length (fmt_d 2 (f ! 3)) = 2"
    "length (fmt_d 2 (f ! 4)) = 2" "length (fmt_d 2 (f ! 5)) = 2" "length (fmt_d 3 (f ! 6)) = 3"
    using f(2) m unfolding valid_fields_def by (simp_all add: fmt_d_2 fmt_d_3)
  have e1: "emit [] (iso_year (f ! 0)) = Some (iso_year (f ! 0))"
    using length_iso_year[OF f(3)] by (simp add: emit_def)
  let ?d = "[45] @ fmt_d 2 (f ! 1 + 1) @ [45] @ fmt_d 2 (f ! 2) @ [84]"
  have e2: "emit (iso_year (f ! 0)) ?d = Some (iso_year (f ! 0) @ ?d)"
    using length_iso_year[OF f(3)] l by (simp add: emit_def)
  have "date_part 2 3 f [] = Some (iso_year (f ! 0) @ ?d)"
    unfolding date_part_def Let_def iso_year_def[symmetric] using e1 e2 by simp
  moreover have "time_part 2 f (iso_year (f ! 0) @ ?d) = Some (iso_year (f ! 0) @ iso_rest f)"
    using length_iso_year[OF f(3)] l by (simp add: time_part_def emit_def iso_rest_def)
  ultimately show ?thesis using f(1) by (simp add: get_date_string_def)
qed

lemma parse_year:
  assumes "\<bar>y\<bar> < 1000000" "r \<noteq> []" "\<not> is_digit (hd r)"
  shows "\<exists>p. string_get_signed_field (iso_year y @ r) 0 = Some (Some (y, p), of_bool (\<not> (y \<ge> 0 \<and> y \<le> 9999))) \<and> drop p (iso_year y @ r) = r"
proof (cases "y \<ge> 0 \<and> y \<le> 9999")
  case True
  then have d: "digits (fmt_d 4 y)" "dval (fmt_d 4 y) = y" "length (fmt_d 4 y) = 4"
    using fmt_d_digits[of y 3] by (auto simp: numeral_eq_Suc)
  then have "fmt_d 4 y \<noteq> []" by auto
  then obtain p where p: "string_get_field (fmt_d 4 y @ r) 0 = Some (Some (y, p))" "drop p (fmt_d 4 y @ r) = r"
    using get_field_drop[of 0 "fmt_d 4 y @ r" "[]" "fmt_d 4 y" r] d assms by (auto simp del: drop_append)
  have "(fmt_d 4 y @ r) ! 0 = fmt_d 4 y ! 0" using d(3) by (simp add: nth_append)
  moreover have "is_digit (fmt_d 4 y ! 0)" using d(1,3) by (simp add: digits_def)
  ultimately show ?thesis using p True d(3) by (auto simp: iso_year_def string_get_signed_field_def is_digit_def simp del: drop_append)
next
  case False
  obtain ds where ds: "fmt_plus 7 y = (if y < 0 then 45 else 43) # ds" "digits ds" "dval ds = \<bar>y\<bar>" "length ds = 6"
    using fmt_plus_digits[of y 5] assms(1) by (auto simp: numeral_eq_Suc)
  have "ds \<noteq> []" using ds(4) by auto
  then obtain p where p: "string_get_field (fmt_plus 7 y @ r) 1 = Some (Some (\<bar>y\<bar>, p))" "drop p (fmt_plus 7 y @ r) = r"
    using get_field_drop[of 1 "fmt_plus 7 y @ r" "[]" ds r] ds assms by (auto simp del: drop_append)
  then show ?thesis using False ds(1) by (auto simp: iso_year_def string_get_signed_field_def simp del: drop_append)
qed

lemma get_field_sep:
  assumes "drop p sp = c # ds @ r" "\<not> is_digit c" "digits ds" "ds \<noteq> []" "length ds \<le> 18" "r = [] \<or> \<not> is_digit (hd r)"
  shows "\<exists>q. string_get_field sp p = Some (Some (dval ds, q)) \<and> drop q sp = r"
  using get_field_drop[of p sp "[c]" ds r] assms by simp

lemma parse_iso_fields:
  assumes f: "valid_fields f" and d: "drop p sp = iso_rest f"
  shows "\<exists>q. iso_fields sp 5 1 p [y, 1, 1, 0, 0, 0, 0] = Some (6, q, [y, f ! 1 + 1, f ! 2, f ! 3, f ! 4, f ! 5, 0]) \<and>
    drop q sp = [46] @ fmt_d 3 (f ! 6) @ [90]"
proof -
  have v: "0 \<le> f ! 1 + 1" "f ! 1 + 1 < 100" "0 \<le> f ! 2" "f ! 2 < 100" "0 \<le> f ! 3" "f ! 3 < 100" "0 \<le> f ! 4" "f ! 4 < 100"
      "0 \<le> f ! 5" "f ! 5 < 100"
    using valid_fields_month(3)[OF f] f unfolding valid_fields_def by linarith+
  have nd: "\<not> is_digit 45" "\<not> is_digit 84" "\<not> is_digit 58" "\<not> is_digit 46" by (simp_all add: is_digit_def)
  have ne: "ds \<noteq> []" if "length ds = 2" for ds :: jsstr using that by auto
  have step: "\<exists>q. string_get_field sp p = Some (Some (x, q)) \<and> drop q sp = r"
    if "drop p sp = c # fmt_d 2 x @ r" "\<not> is_digit c" "0 \<le> x" "x < 100" "r \<noteq> []" "\<not> is_digit (hd r)" for p c x r
    using get_field_sep[OF that(1,2)] fmt_d_2[OF that(3,4)] that(5,6) ne[of "fmt_d 2 x"] by auto
  obtain q1 where q1: "string_get_field sp p = Some (Some (f ! 1 + 1, q1))"
      "drop q1 sp = 45 # fmt_d 2 (f ! 2) @ [84] @ fmt_d 2 (f ! 3) @ [58] @ fmt_d 2 (f ! 4) @ [58] @ fmt_d 2 (f ! 5) @ [46] @ fmt_d 3 (f ! 6) @ [90]"
    using step[of p 45 "f ! 1 + 1"] d v nd by (auto simp: iso_rest_def)
  obtain q2 where q2: "string_get_field sp q1 = Some (Some (f ! 2, q2))"
      "drop q2 sp = 84 # fmt_d 2 (f ! 3) @ [58] @ fmt_d 2 (f ! 4) @ [58] @ fmt_d 2 (f ! 5) @ [46] @ fmt_d 3 (f ! 6) @ [90]"
    using step[of q1 45 "f ! 2"] q1 v nd by auto
  obtain q3 where q3: "string_get_field sp q2 = Some (Some (f ! 3, q3))"
      "drop q3 sp = 58 # fmt_d 2 (f ! 4) @ [58] @ fmt_d 2 (f ! 5) @ [46] @ fmt_d 3 (f ! 6) @ [90]"
    using step[of q2 84 "f ! 3"] q2 v nd by auto
  obtain q4 where q4: "string_get_field sp q3 = Some (Some (f ! 4, q4))"
      "drop q4 sp = 58 # fmt_d 2 (f ! 5) @ [46] @ fmt_d 3 (f ! 6) @ [90]"
    using step[of q3 58 "f ! 4"] q3 v nd by auto
  obtain q5 where q5: "string_get_field sp q4 = Some (Some (f ! 5, q5))" "drop q5 sp = [46] @ fmt_d 3 (f ! 6) @ [90]"
    using step[of q4 58 "f ! 5"] q4 v nd by auto
  show ?thesis using q1(1) q2(1) q3(1) q4(1) q5 by (simp add: eval_nat_numeral)
qed

lemma decimal_3: "x div 100 * 100 + x div 10 mod 10 * 10 + x mod 10 = (x :: int)"
proof -
  have "x div 100 = x div 10 div 10" by (simp add: zdiv_zmult2_eq[of 10 x 10, symmetric])
  then show ?thesis using mult_div_mod_eq[of 10 "x div 10"] mult_div_mod_eq[of 10 x] by linarith
qed

lemma parse_iso_rest:
  assumes f: "valid_fields f" "\<bar>f ! 0\<bar> < 1000000"
  shows "parse_iso (iso_year (f ! 0) @ iso_rest f) = Some (Some (take 7 f, 0, False))"
proof -
  let ?sp = "iso_year (f ! 0) @ iso_rest f"
  have r: "iso_rest f \<noteq> []" "\<not> is_digit (hd (iso_rest f))" by (simp_all add: iso_rest_def is_digit_def)
  obtain p where p: "string_get_signed_field ?sp 0 = Some (Some (f ! 0, p), of_bool (\<not> (f ! 0 \<ge> 0 \<and> f ! 0 \<le> 9999)))"
      "drop p ?sp = iso_rest f" using parse_year[OF f(2) r] by blast
  obtain q where q: "iso_fields ?sp 5 1 p [f ! 0, 1, 1, 0, 0, 0, 0] = Some (6, q, [f ! 0, f ! 1 + 1, f ! 2, f ! 3, f ! 4, f ! 5, 0])"
      "drop q ?sp = [46] @ fmt_d 3 (f ! 6) @ [90]" using parse_iso_fields[OF f(1) p(2)] by blast
  have ms: "0 \<le> f ! 6" "f ! 6 < 1000" using f(1) unfolding valid_fields_def by linarith+
  have q46: "q < length ?sp" "?sp ! q = 46" "drop (q + 1) ?sp = fmt_d 3 (f ! 6) @ [90]"
    using drop_Cons_nth[of q ?sp 46] q(2) by auto
  have dg: "is_digit (48 + f ! 6 div 100)" "is_digit (48 + f ! 6 div 10 mod 10)" "is_digit (48 + f ! 6 mod 10)"
    using ms unfolding is_digit_def by linarith+
  obtain w where w: "iso_fraction ?sp q 1000 0 = (w, f ! 6)" "drop w ?sp = [90]"
  proof -
    have "drop (q + 1) ?sp = (48 + f ! 6 div 100) # (48 + f ! 6 div 10 mod 10) # (48 + f ! 6 mod 10) # [90]"
      using q46(3) fmt_d_3[OF ms] by simp
    from iso_fraction_3[OF this dg] obtain w where
      "iso_fraction ?sp q 1000 0 = (w, (48 + f ! 6 div 100 - 48) * 100 + (48 + f ! 6 div 10 mod 10 - 48) * 10 + (48 + f ! 6 mod 10 - 48))"
      "drop w ?sp = [90]" by (auto simp: is_digit_def)
    moreover have "(48 + f ! 6 div 100 - 48) * 100 + (48 + f ! 6 div 10 mod 10 - 48) * 10 + (48 + f ! 6 mod 10 - 48) = f ! 6"
      using decimal_3[of "f ! 6"] by simp
    ultimately show ?thesis using that by simp
  qed
  have "iso_zone ?sp w True = Some (Some (0, False))"
    using drop_Cons_nth[OF w(2)] by (simp add: iso_zone_def)
  moreover have "i64 (f ! 1 + 1 - 1) = Some (f ! 1)" using f(1) by (simp add: valid_fields_def i64_Some)
  moreover have "take 7 f = [f ! 0, f ! 1, f ! 2, f ! 3, f ! 4, f ! 5, f ! 6]"
    using f(1) by (intro nth_equalityI) (auto simp: valid_fields_def numeral_eq_Suc less_Suc_eq)
  ultimately show ?thesis
    using p(1) q(1) q46(1,2) w(1) by (simp add: parse_iso_def Let_def)
qed

lemma get_date_fields_utc:
  assumes "\<bar>t\<bar> \<le> 8640000000000000"
  obtains f where "get_date_fields tzo (DateObj (JsFin (of_int t))) False False = Some (Inr (Some f))" "valid_fields f"
    "fields_time f = t" "\<bar>f ! 0\<bar> < 1000000" "f ! 8 = 0"
proof -
  have b: "- 8640000000000000 \<le> t" "t \<le> 8640000000000000" using assms by linarith+
  obtain f where f: "date_fields_of t 0 = Some f" "valid_fields f" "fields_time f = t"
      "f ! 8 = 0" "- 999999 \<le> f ! 0" "f ! 0 \<le> 999999"
    using date_fields_of_spec[of t 0] b by auto
  have "get_date_fields tzo (DateObj (JsFin (of_int t))) False False = Some (Inr (Some f))"
    using f(1) b by (simp add: get_date_fields_def JS_ThisTimeValue_def trunc_def i64_Some)
  then show ?thesis using that f(2-6) by simp
qed

lemma iso_year_hd:
  assumes "\<bar>y\<bar> < 1000000"
  shows "0 < length (iso_year y @ r) \<and> (is_digit ((iso_year y @ r) ! 0) \<or> (iso_year y @ r) ! 0 = 43 \<or> (iso_year y @ r) ! 0 = 45)"
proof (cases "y \<ge> 0 \<and> y \<le> 9999")
  case True
  then have d: "digits (fmt_d 4 y)" "length (fmt_d 4 y) = 4"
    using fmt_d_digits[of y 3] by (auto simp: numeral_eq_Suc)
  then have "is_digit (fmt_d 4 y ! 0)" by (simp add: digits_def)
  then show ?thesis using True d by (simp add: iso_year_def nth_append)
qed (auto simp: iso_year_def fmt_plus_def)

text \<open>
  C30. \<^verbatim>\<open>Date.parse\<close> reads back what \<^verbatim>\<open>toISOString\<close> prints: for every time value of the language, years of
  six digits and negative years included, printing it and parsing the text gives the same value, to
  the millisecond and whatever the local time zone is. Neither direction overflows.
\<close>

theorem iso_roundtrip:
  assumes "\<bar>t\<bar> \<le> 8640000000000000"
  shows "\<exists>s. get_date_string tzo (DateObj (JsFin (of_int t))) 0x23 = Some (Inr s) \<and>
    js_Date_parse tzo' s = Some (JsFin (of_int t))"
proof -
  obtain f where f: "get_date_fields tzo (DateObj (JsFin (of_int t))) False False = Some (Inr (Some f))" "valid_fields f"
    "fields_time f = t" "\<bar>f ! 0\<bar> < 1000000" using get_date_fields_utc[OF assms] by metis
  have "fields_small f" using f(4) by (intro valid_fields_small[OF f(2)]) auto
  then have "fields_small (take 7 f)" by (simp add: fields_small_def)
  moreover have "set_time (take 7 f) = t"
    using valid_fields_set_time[OF f(2)] f(3) by (simp add: set_time_def set_days_def)
  ultimately have "set_date_fields tzo' (take 7 f) False = Some (JsFin (of_int t))"
    using set_date_fields_spec assms by (simp add: time_clip_int del: time_clip.simps)
  then have "js_Date_parse tzo' (iso_year (f ! 0) @ iso_rest f) = Some (JsFin (of_int t))"
    using parse_iso_rest[OF f(2,4)] iso_year_hd[OF f(4), of "iso_rest f"] assms
    by (simp add: js_Date_parse_def i64_Some double_of_int_def del: append_is_Nil_conv)
  then show ?thesis using iso_string[OF f(1,2,4)] by blast
qed

theorem iso_roundtrip_witness:
  "\<exists>s. get_date_string (\<lambda>_. 0) (DateObj (JsFin (of_int (- 8640000000000000)))) 0x23 = Some (Inr s) \<and>
    js_Date_parse (\<lambda>_. 60) s = Some (JsFin (of_int (- 8640000000000000)))"
  by (rule iso_roundtrip) simp

lemma length_fmt_d: "\<bar>x\<bar> < 1000000 \<Longrightarrow> w \<le> 5 \<Longrightarrow> length (fmt_d w x) \<le> 7"
proof -
  assume x: "\<bar>x\<bar> < 1000000" and w: "w \<le> 5"
  have "length (dec (nat \<bar>x\<bar>)) \<le> 6" using length_dec[of "nat \<bar>x\<bar>" 5] x by (simp add: nat_less_iff)
  then show ?thesis using w by (auto simp: fmt_d_def pad0_def)
qed

lemma length_name3: "length (name3 names i) \<le> 3"
  by (simp add: name3_def)

lemma date_part_fits:
  assumes "\<bar>f ! 0\<bar> < 1000000" "\<bar>f ! 1 + 1\<bar> < 1000000" "\<bar>f ! 2\<bar> < 1000000"
  shows "\<exists>s. date_part fmt part f [] = Some s \<and> length s \<le> 27"
proof -
  have "length (fmt_d 4 (f ! 0)) \<le> 7" "length (fmt_d 5 (f ! 0)) \<le> 7" "length (fmt_d 2 (f ! 1 + 1)) \<le> 7" "length (fmt_d 2 (f ! 2)) \<le> 7"
    "length (iso_year (f ! 0)) \<le> 7"
    using assms by (simp_all add: length_fmt_d length_iso_year)
  then show ?thesis
    using length_name3[of day_names "f ! 7"] length_name3[of month_names "f ! 1"]
    by (auto simp: date_part_def Let_def emit_def emit_char_def iso_year_def split: if_splits)
qed

lemma length_fmt_d_2: "0 \<le> x \<Longrightarrow> x < 100 \<Longrightarrow> length (fmt_d 2 x) = 2"
  using fmt_d_2 by simp

lemma length_fmt_d_clock: "0 \<le> h \<Longrightarrow> h \<le> 23 \<Longrightarrow> length (fmt_d 2 ((h + 1) smod 12 - 1)) = 2"
proof -
  assume h: "0 \<le> h" "h \<le> 23"
  then have m: "(h + 1) smod 12 = (h + 1) mod 12" by (simp add: smod_sdiv_nonneg)
  have "length (fmt_d 2 (- 1)) = 2" by (simp add: fmt_d_def pad0_def dec_1)
  then show ?thesis unfolding m using length_fmt_d_2[of "(h + 1) mod 12 - 1"] pos_mod_bound[of 12 "h + 1"]
    by (cases "(h + 1) mod 12 = 0") (simp_all add: order.not_eq_order_implies_strict)
qed

lemma time_part_fits:
  assumes f: "valid_fields f" "\<bar>f ! 8\<bar> < 6000" and buf: "length buf \<le> 27"
  shows "\<exists>s. time_part fmt f buf = Some s \<and> length s < 64"
proof -
  have l: "length (fmt_d 2 (f ! 3)) = 2" "length (fmt_d 2 (f ! 4)) = 2" "length (fmt_d 2 (f ! 5)) = 2" "length (fmt_d 3 (f ! 6)) = 3"
    "length (fmt_d 2 ((f ! 3 + 1) smod 12 - 1)) = 2"
    using f unfolding valid_fields_def by (simp_all add: length_fmt_d_2 fmt_d_3 length_fmt_d_clock)
  have z: "length (fmt_d 2 (z sdiv 60)) = 2" "length (fmt_d 2 (z smod 60)) = 2" if "0 \<le> z" "z < 6000" for z :: int
    using that by (simp_all add: smod_sdiv_nonneg length_fmt_d_2 order.strict_trans[OF pos_mod_bound])
  consider "fmt = 0" | "fmt = 1" | "fmt = 2" | "fmt = 3" | "3 < fmt" by linarith
  then show ?thesis
  proof cases
    assume "fmt = 1"
    moreover have "length (fmt_d 2 (- (f ! 8) sdiv 60)) = 2" "length (fmt_d 2 (- (f ! 8) smod 60)) = 2" if "f ! 8 < 0"
      using z[of "- (f ! 8)"] that f(2) by auto
    moreover have "length (fmt_d 2 (f ! 8 sdiv 60)) = 2" "length (fmt_d 2 (f ! 8 smod 60)) = 2" if "\<not> f ! 8 < 0"
      using z[of "f ! 8"] that f(2) by auto
    ultimately show ?thesis using l buf by (auto simp: time_part_def Let_def emit_def emit_char_def)
  qed (use l buf in \<open>auto simp: time_part_def Let_def emit_def\<close>)
qed

text \<open>
  C31. Printing a date never writes behind the buffer of 64 bytes: for every time value of the
  language, every local time offset below 100 hours and every format, the buffer holds the
  text and its terminating zero; no step of the computation overflows.
\<close>

theorem get_date_string_fits:
  assumes "\<bar>t\<bar> \<le> 8640000000000000" "\<bar>tzo t\<bar> < 6000"
  shows "\<exists>s. get_date_string tzo (DateObj (JsFin (of_int t))) magic = Some (Inr s) \<and> length s < 64"
proof -
  let ?fmt = "magic div 16 mod 16"
  have b: "- 8640000000000000 \<le> t" "t \<le> 8640000000000000" "- 6000 < tzo t" "tzo t < 6000" using assms by linarith+
  define tz where "tz = (if odd ?fmt then - tzo t else 0)"
  have tz: "- 6000 < tz" "tz < 6000" using b by (auto simp: tz_def)
  obtain f where f: "date_fields_of (t + tz * 60000) tz = Some f" "valid_fields f" "f ! 8 = tz" "- 999999 \<le> f ! 0" "f ! 0 \<le> 999999"
    using date_fields_of_spec[of "t + tz * 60000" tz] b tz by auto
  have g: "get_date_fields tzo (DateObj (JsFin (of_int t))) (odd ?fmt) False = Some (Inr (Some f))"
    using f(1) b by (auto simp: get_date_fields_def JS_ThisTimeValue_def trunc_def i64_Some tz_def Let_def split: if_splits)
  have v: "\<bar>f ! 0\<bar> < 1000000" "\<bar>f ! 1 + 1\<bar> < 1000000" "\<bar>f ! 2\<bar> < 1000000"
    using f(2,4,5) valid_fields_month(3)[OF f(2)] unfolding valid_fields_def by linarith+
  obtain s where s: "(if odd (magic mod 16) then date_part ?fmt (magic mod 16) f [] else Some []) = Some s" "length s \<le> 27"
    using date_part_fits[OF v] by (cases "odd (magic mod 16)") auto
  have z: "\<bar>f ! 8\<bar> < 6000" using f(3) tz by linarith
  obtain u where u: "(if odd (magic mod 16 div 2) then time_part ?fmt f s else Some s) = Some u" "length u < 64"
    using time_part_fits[OF f(2) z s(2), of ?fmt] s(2) by (cases "odd (magic mod 16 div 2)") auto
  show ?thesis unfolding get_date_string_def Let_def using g s(1) u by simp
qed

theorem get_date_string_fits_witness:
  "\<exists>s. get_date_string (\<lambda>_. - 840) (DateObj (JsFin (of_int 8640000000000000))) 0x13 = Some (Inr s) \<and> length s < 64"
  by (rule get_date_string_fits) simp_all


end
