(* ===== verification/Js_String.thy ===== *)
theory Js_String
  imports Dyn_Buf Utf8
begin

text \<open>
  The strings of \<^verbatim>\<open>quickjs.c\<close> and the buffers they are built in. A string stores its code units
  in one byte or in two bytes each; both views share the same memory (the union of \<^verbatim>\<open>str8\<close> and
  \<^verbatim>\<open>str16\<close>), so the memory is an array of bytes here, in the little-endian order, and the
  in-place conversion of a buffer from narrow to wide is the loop over that array. The allocator
  is a parameter that returns the usable bytes behind the string header, \<^const>\<open>None\<close> for
  \<^verbatim>\<open>NULL\<close>. An operation is \<^const>\<open>None\<close> when it accesses memory outside the block or when a
  signed computation leaves the range of \<^verbatim>\<open>int\<close>.
\<close>

section \<open>Strings\<close>

definition JS_STRING_LEN_MAX :: nat where
  "JS_STRING_LEN_MAX = 2 ^ 30 - 1"

record js_string =
  ref_count :: int
  str_len :: nat
  is_wide_char :: bool
  str_u :: "u8 list"

definition int_range :: "nat \<Rightarrow> nat option" where
  "int_range n = (if n < 2 ^ 31 then Some n else None)"

definition shl :: "bool \<Rightarrow> nat \<Rightarrow> nat" where
  "shl w n = (if w then 2 * n else n)"

definition shr :: "bool \<Rightarrow> nat \<Rightarrow> nat" where
  "shr w n = (if w then n div 2 else n)"

text \<open>The two views of the memory.\<close>

definition w16 :: "u8 \<Rightarrow> u8 \<Rightarrow> u16" where
  "w16 lo hi = ucast lo OR push_bit 8 (ucast hi)"

definition get16 :: "u8 list \<Rightarrow> nat \<Rightarrow> u16 option" where
  "get16 m i = (if 2 * i + 1 < length m then Some (w16 (m ! (2 * i)) (m ! (2 * i + 1))) else None)"

definition set16 :: "u8 list \<Rightarrow> nat \<Rightarrow> u16 \<Rightarrow> u8 list option" where
  "set16 m i c =
     (if 2 * i + 1 < length m then Some (m[2 * i := ucast c, 2 * i + 1 := ucast (drop_bit 8 c)]) else None)"

definition string_get :: "js_string \<Rightarrow> nat \<Rightarrow> u16 option" where
  "string_get p idx = (if is_wide_char p then get16 (str_u p) idx else map_option ucast (rd (str_u p) idx))"

text \<open>A code point and the index behind it; a high surrogate takes a following low surrogate with it.\<close>

definition string_getc :: "js_string \<Rightarrow> nat \<Rightarrow> (nat \<times> nat) option" where
  "string_getc p idx =
     (if is_wide_char p then do {
        c \<leftarrow> get16 (str_u p) idx;
        let idx = idx + 1;
        if 0xd800 \<le> c \<and> c < 0xdc00 \<and> idx < str_len p then do {
          c1 \<leftarrow> get16 (str_u p) idx;
          if 0xdc00 \<le> c1 \<and> c1 < 0xe000
          then Some ((push_bit 10 (unat c AND 0x3ff) OR (unat c1 AND 0x3ff)) + 0x10000, idx + 1)
          else Some (unat c, idx) }
        else Some (unat c, idx) }
      else do {
        c \<leftarrow> rd (str_u p) idx;
        Some (unat c, idx + 1) })"

definition js_alloc_string :: "realloc_func \<Rightarrow> nat \<Rightarrow> bool \<Rightarrow> js_string option" where
  "js_alloc_string ra max_len w =
     map_option (\<lambda>m. \<lparr>ref_count = 1, str_len = max_len, is_wide_char = w, str_u = m\<rparr>)
       (ra None (shl w max_len + 1 - of_bool w))"

definition empty_string :: js_string where
  "empty_string = \<lparr>ref_count = 1, str_len = 0, is_wide_char = False, str_u = [0]\<rparr>"

text \<open>
  The result of the constructors: \<^const>\<open>None\<close> inside is \<^verbatim>\<open>JS_EXCEPTION\<close>.
\<close>

definition js_new_string8 :: "realloc_func \<Rightarrow> u8 list \<Rightarrow> js_string option option" where
  "js_new_string8 ra bs =
     (if bs = [] then Some (Some empty_string)
      else case js_alloc_string ra (length bs) False of
          None \<Rightarrow> Some None
        | Some str \<Rightarrow> do {
            m \<leftarrow> memcpy_at (str_u str) 0 bs;
            m \<leftarrow> wr m (length bs) 0;
            Some (Some (str\<lparr>str_u := m\<rparr>)) })"

fun store16 :: "u8 list \<Rightarrow> nat \<Rightarrow> u16 list \<Rightarrow> u8 list option" where
  "store16 m i [] = Some m"
| "store16 m i (c # cs) = do { m \<leftarrow> set16 m i c; store16 m (i + 1) cs }"

definition js_new_string16 :: "realloc_func \<Rightarrow> u16 list \<Rightarrow> js_string option option" where
  "js_new_string16 ra cs =
     (case js_alloc_string ra (length cs) True of
        None \<Rightarrow> Some None
      | Some str \<Rightarrow> do {
          m \<leftarrow> store16 (str_u str) 0 cs;
          Some (Some (str\<lparr>str_u := m\<rparr>)) })"

definition js_new_string_char :: "realloc_func \<Rightarrow> u16 \<Rightarrow> js_string option option" where
  "js_new_string_char ra c = (if c < 0x100 then js_new_string8 ra [ucast c] else js_new_string16 ra [c])"

text \<open>The units \<open>start\<close> to \<open>start + n - 1\<close> of the wide view, each read checked.\<close>

fun read16 :: "u8 list \<Rightarrow> nat \<Rightarrow> nat \<Rightarrow> u16 list option" where
  "read16 m start 0 = Some []"
| "read16 m start (Suc n) = do { c \<leftarrow> get16 m start; cs \<leftarrow> read16 m (start + 1) n; Some (c # cs) }"

definition read8 :: "u8 list \<Rightarrow> nat \<Rightarrow> nat \<Rightarrow> u8 list option" where
  "read8 m start n = (if start + n \<le> length m then Some (slice start n m) else None)"

definition js_sub_string :: "realloc_func \<Rightarrow> js_string \<Rightarrow> nat \<Rightarrow> nat \<Rightarrow> js_string option option" where
  "js_sub_string ra p start ende =
     (let n = ende - start in
      if start = 0 \<and> ende = str_len p then Some (Some (p\<lparr>ref_count := ref_count p + 1\<rparr>))
      else if is_wide_char p \<and> 0 < n then do {
        cs \<leftarrow> read16 (str_u p) start n;
        let c = foldl (OR) 0 cs;
        if 0xff < c then js_new_string16 ra cs
        else case js_alloc_string ra n False of
            None \<Rightarrow> Some None
          | Some str \<Rightarrow> do {
              m \<leftarrow> memcpy_at (str_u str) 0 (map ucast cs);
              m \<leftarrow> wr m n 0;
              Some (Some (str\<lparr>str_u := m\<rparr>)) } }
      else if n = 0 then js_new_string8 ra []
      else do {
        bs \<leftarrow> read8 (str_u p) start n;
        js_new_string8 ra bs })"

section \<open>String buffers\<close>

record string_buffer =
  sb_str :: "u8 list option"
  sb_len :: nat
  sb_size :: nat
  sb_wide :: bool
  error_status :: bool

definition js_realloc2 :: "realloc_func \<Rightarrow> u8 list option \<Rightarrow> nat \<Rightarrow> (u8 list \<times> nat) option" where
  "js_realloc2 ra p n = map_option (\<lambda>m. (m, length m - n)) (ra p n)"

definition string_buffer_init2 :: "realloc_func \<Rightarrow> nat \<Rightarrow> bool \<Rightarrow> int \<times> string_buffer" where
  "string_buffer_init2 ra n w =
     (case js_alloc_string ra n w of
        None \<Rightarrow> (-1, \<lparr>sb_str = None, sb_len = 0, sb_size = 0, sb_wide = w, error_status = True\<rparr>)
      | Some str \<Rightarrow> (0, \<lparr>sb_str = Some (str_u str), sb_len = 0, sb_size = n, sb_wide = w, error_status = False\<rparr>))"

definition string_buffer_init :: "realloc_func \<Rightarrow> nat \<Rightarrow> int \<times> string_buffer" where
  "string_buffer_init ra n = string_buffer_init2 ra n False"

definition string_buffer_free :: "string_buffer \<Rightarrow> string_buffer" where
  "string_buffer_free s = s\<lparr>sb_str := None\<rparr>"

definition string_buffer_set_error :: "string_buffer \<Rightarrow> int \<times> string_buffer" where
  "string_buffer_set_error s = (-1, s\<lparr>sb_str := None, sb_size := 0, sb_len := 0, error_status := True\<rparr>)"

text \<open>The loop of the conversion runs from the last unit to the first.\<close>

fun widen_loop :: "nat \<Rightarrow> u8 list \<Rightarrow> u8 list option" where
  "widen_loop 0 m = Some m"
| "widen_loop (Suc i) m = do { c \<leftarrow> rd m i; m \<leftarrow> set16 m i (ucast c); widen_loop i m }"

definition string_buffer_widen :: "realloc_func \<Rightarrow> string_buffer \<Rightarrow> nat \<Rightarrow> (int \<times> string_buffer) option" where
  "string_buffer_widen ra s n =
     (if error_status s then Some (-1, s)
      else case js_realloc2 ra (sb_str s) (shl True n) of
          None \<Rightarrow> Some (string_buffer_set_error s)
        | Some (m, slack) \<Rightarrow> do {
            n \<leftarrow> int_range (n + slack div 2);
            m \<leftarrow> widen_loop (sb_len s) m;
            Some (0, s\<lparr>sb_wide := True, sb_size := n, sb_str := Some m\<rparr>) })"

definition string_buffer_realloc :: "realloc_func \<Rightarrow> string_buffer \<Rightarrow> nat \<Rightarrow> nat \<Rightarrow> (int \<times> string_buffer) option" where
  "string_buffer_realloc ra s new_len c =
     (if error_status s then Some (-1, s)
      else if new_len > JS_STRING_LEN_MAX then Some (string_buffer_set_error s)
      else do {
        t \<leftarrow> int_range (sb_size s * 3);
        let new_size = min (max new_len (t div 2)) JS_STRING_LEN_MAX;
        if \<not> sb_wide s \<and> c \<ge> 0x100 then string_buffer_widen ra s new_size
        else case js_realloc2 ra (sb_str s) (shl (sb_wide s) new_size + 1 - of_bool (sb_wide s)) of
            None \<Rightarrow> Some (string_buffer_set_error s)
          | Some (m, slack) \<Rightarrow> do {
              n \<leftarrow> int_range (new_size + shr (sb_wide s) slack);
              Some (0, s\<lparr>sb_size := min n JS_STRING_LEN_MAX, sb_str := Some m\<rparr>) } })"

text \<open>Storing units behind the last one, in the narrow and in the wide view.\<close>

definition sb_store8 :: "string_buffer \<Rightarrow> u8 list \<Rightarrow> string_buffer option" where
  "sb_store8 s bs =
     map_option (\<lambda>m. s\<lparr>sb_str := map_option (\<lambda>_. m) (sb_str s), sb_len := sb_len s + length bs\<rparr>)
       (memcpy_at (bytes_of (sb_str s)) (sb_len s) bs)"

definition sb_store16 :: "string_buffer \<Rightarrow> u16 list \<Rightarrow> string_buffer option" where
  "sb_store16 s cs =
     map_option (\<lambda>m. s\<lparr>sb_str := map_option (\<lambda>_. m) (sb_str s), sb_len := sb_len s + length cs\<rparr>)
       (store16 (bytes_of (sb_str s)) (sb_len s) cs)"

definition string_buffer_putc_slow :: "realloc_func \<Rightarrow> string_buffer \<Rightarrow> nat \<Rightarrow> (int \<times> string_buffer) option" where
  "string_buffer_putc_slow ra s c = do {
     (r, s) \<leftarrow> (if sb_len s \<ge> sb_size s then string_buffer_realloc ra s (sb_len s + 1) c else Some (0, s));
     if r \<noteq> 0 then Some (-1, s)
     else if sb_wide s then map_option (Pair 0) (sb_store16 s [of_nat c])
     else if c < 0x100 then map_option (Pair 0) (sb_store8 s [of_nat c])
     else do {
       (r, s) \<leftarrow> string_buffer_widen ra s (sb_size s);
       if r \<noteq> 0 then Some (-1, s)
       else map_option (Pair 0) (sb_store16 s [of_nat c]) } }"

definition string_buffer_putc8 :: "realloc_func \<Rightarrow> string_buffer \<Rightarrow> nat \<Rightarrow> (int \<times> string_buffer) option" where
  "string_buffer_putc8 ra s c = do {
     (r, s) \<leftarrow> (if sb_len s \<ge> sb_size s then string_buffer_realloc ra s (sb_len s + 1) c else Some (0, s));
     if r \<noteq> 0 then Some (-1, s)
     else if sb_wide s then map_option (Pair 0) (sb_store16 s [of_nat c])
     else map_option (Pair 0) (sb_store8 s [of_nat c]) }"

definition string_buffer_putc16 :: "realloc_func \<Rightarrow> string_buffer \<Rightarrow> nat \<Rightarrow> (int \<times> string_buffer) option" where
  "string_buffer_putc16 ra s c =
     (if sb_len s < sb_size s \<and> sb_wide s then map_option (Pair 0) (sb_store16 s [of_nat c])
      else if sb_len s < sb_size s \<and> c < 0x100 then map_option (Pair 0) (sb_store8 s [of_nat c])
      else string_buffer_putc_slow ra s c)"

definition string_buffer_putc :: "realloc_func \<Rightarrow> string_buffer \<Rightarrow> nat \<Rightarrow> (int \<times> string_buffer) option" where
  "string_buffer_putc ra s c =
     (if c \<ge> 0x10000 then do {
        let c = c - 0x10000;
        (r, s) \<leftarrow> string_buffer_putc16 ra s (drop_bit 10 c + 0xd800);
        if r \<noteq> 0 then Some (-1, s)
        else string_buffer_putc16 ra s ((c AND 0x3ff) + 0xdc00) }
      else string_buffer_putc16 ra s c)"

definition string_buffer_write8 :: "realloc_func \<Rightarrow> string_buffer \<Rightarrow> u8 list \<Rightarrow> (int \<times> string_buffer) option" where
  "string_buffer_write8 ra s bs = do {
     n \<leftarrow> int_range (sb_len s + length bs);
     (r, s) \<leftarrow> (if n > sb_size s then string_buffer_realloc ra s n 0 else Some (0, s));
     if r \<noteq> 0 then Some (-1, s)
     else if sb_wide s then map_option (Pair 0) (sb_store16 s (map ucast bs))
     else map_option (Pair 0) (sb_store8 s bs) }"

definition string_buffer_write16 :: "realloc_func \<Rightarrow> string_buffer \<Rightarrow> u16 list \<Rightarrow> (int \<times> string_buffer) option" where
  "string_buffer_write16 ra s cs = do {
     let c = unat (foldl (OR) 0 cs);
     n \<leftarrow> int_range (sb_len s + length cs);
     (r, s) \<leftarrow> (if n > sb_size s then string_buffer_realloc ra s n c
               else if \<not> sb_wide s \<and> c \<ge> 0x100 then string_buffer_widen ra s (sb_size s)
               else Some (0, s));
     if r \<noteq> 0 then Some (-1, s)
     else if sb_wide s then map_option (Pair 0) (sb_store16 s cs)
     else map_option (Pair 0) (sb_store8 s (map ucast cs)) }"

definition string_buffer_puts8 :: "realloc_func \<Rightarrow> string_buffer \<Rightarrow> u8 list \<Rightarrow> (int \<times> string_buffer) option" where
  "string_buffer_puts8 ra s str = string_buffer_write8 ra s (takeWhile (\<lambda>c. c \<noteq> 0) str)"

definition string_buffer_concat ::
  "realloc_func \<Rightarrow> string_buffer \<Rightarrow> js_string \<Rightarrow> nat \<Rightarrow> nat \<Rightarrow> (int \<times> string_buffer) option" where
  "string_buffer_concat ra s p from to =
     (if to \<le> from then Some (0, s)
      else if is_wide_char p then do { cs \<leftarrow> read16 (str_u p) from (to - from); string_buffer_write16 ra s cs }
      else do { bs \<leftarrow> read8 (str_u p) from (to - from); string_buffer_write8 ra s bs })"

text \<open>The value converted by \<^verbatim>\<open>JS_ToString\<close>: \<^const>\<open>None\<close> is an exception of the conversion.\<close>

definition string_buffer_concat_value ::
  "realloc_func \<Rightarrow> string_buffer \<Rightarrow> js_string option \<Rightarrow> (int \<times> string_buffer) option" where
  "string_buffer_concat_value ra s v =
     (if error_status s then Some (-1, s)
      else case v of
          None \<Rightarrow> Some (string_buffer_set_error s)
        | Some p \<Rightarrow> string_buffer_concat ra s p 0 (str_len p))"

fun fill_loop :: "realloc_func \<Rightarrow> string_buffer \<Rightarrow> nat \<Rightarrow> nat \<Rightarrow> (int \<times> string_buffer) option" where
  "fill_loop ra s c 0 = Some (0, s)"
| "fill_loop ra s c (Suc k) = do {
     (r, s) \<leftarrow> string_buffer_putc16 ra s c;
     if r \<noteq> 0 then Some (-1, s) else fill_loop ra s c k }"

definition string_buffer_fill :: "realloc_func \<Rightarrow> string_buffer \<Rightarrow> nat \<Rightarrow> nat \<Rightarrow> (int \<times> string_buffer) option" where
  "string_buffer_fill ra s c k = do {
     n \<leftarrow> int_range (sb_len s + k);
     (r, s) \<leftarrow> (if n > sb_size s then string_buffer_realloc ra s n c else Some (0, s));
     if r \<noteq> 0 then Some (-1, s) else fill_loop ra s c k }"

definition string_buffer_end :: "realloc_func \<Rightarrow> string_buffer \<Rightarrow> js_string option option" where
  "string_buffer_end ra s =
     (if error_status s then Some None
      else if sb_len s = 0 then Some (Some empty_string)
      else do {
        m \<leftarrow> sb_str s;
        let w = sb_wide s;
        let m = (if sb_len s < sb_size s then
                   (case ra (Some m) (shl w (sb_len s) + 1 - of_bool w) of None \<Rightarrow> m | Some m' \<Rightarrow> m')
                 else m);
        m \<leftarrow> (if \<not> w then wr m (sb_len s) 0 else Some m);
        Some (Some \<lparr>ref_count = 1, str_len = sb_len s, is_wide_char = w, str_u = m\<rparr>) })"

section \<open>The units of a string\<close>

definition units :: "bool \<Rightarrow> u8 list \<Rightarrow> nat \<Rightarrow> u16 list" where
  "units w m n = (if w then map (\<lambda>i. w16 (m ! (2 * i)) (m ! (2 * i + 1))) [0..<n] else map ucast (take n m))"

definition str_units :: "js_string \<Rightarrow> u16 list" where
  "str_units p = units (is_wide_char p) (str_u p) (str_len p)"

definition str_wf :: "js_string \<Rightarrow> bool" where
  "str_wf p \<longleftrightarrow> shl (is_wide_char p) (str_len p) + of_bool (\<not> is_wide_char p) \<le> length (str_u p)"

definition sb_units :: "string_buffer \<Rightarrow> u16 list" where
  "sb_units s = units (sb_wide s) (bytes_of (sb_str s)) (sb_len s)"

lemma shl_simps [simp]: "shl True n = 2 * n" "shl False n = n" "shr True n = n div 2" "shr False n = n"
  by (simp_all add: shl_def shr_def)

lemma units_0 [simp]: "units w m 0 = []"
  by (simp add: units_def)

lemma length_units: "shl w n \<le> length m \<Longrightarrow> length (units w m n) = n"
  by (cases w) (simp_all add: units_def)

lemma units_prefix:
  assumes "take k m' = take k m" "shl w n \<le> k" "k \<le> length m" "k \<le> length m'"
  shows "units w m' n = units w m n"
proof -
  have nth: "m' ! i = m ! i" if "i < k" for i
    using arg_cong[OF assms(1), of "\<lambda>xs. xs ! i"] that by simp
  show ?thesis
  proof (cases w)
    case True
    then have "2 * n \<le> k" using assms(2) by simp
    then have "map (\<lambda>i. w16 (m' ! (2 * i)) (m' ! (2 * i + 1))) [0..<n] = map (\<lambda>i. w16 (m ! (2 * i)) (m ! (2 * i + 1))) [0..<n]"
      by (intro map_cong refl) (simp add: nth)
    then show ?thesis using True by (simp add: units_def)
  next
    case False
    then have "n \<le> k" using assms(2) by simp
    then have "take n m' = take n m" using arg_cong[OF assms(1), of "take n"] by (simp add: min_absorb1)
    then show ?thesis using False by (simp add: units_def)
  qed
qed

lemma w16_bytes [simp]: "w16 (ucast c) (ucast (drop_bit 8 c)) = c"
proof (rule bit_word_eqI)
  fix n assume "n < LENGTH(16)"
  then have "n < 16" "n - 8 < 16" "n - 8 < 8" by auto
  then show "bit (w16 (ucast c) (ucast (drop_bit 8 c))) n = bit c n"
    by (cases "n < 8") (simp_all add: w16_def bit_simps)
qed

lemma w16_narrow [simp]: "w16 b 0 = ucast b"
  by (simp add: w16_def)

lemma drop_bit_ucast8 [simp]: "ucast (drop_bit 8 (ucast (b :: u8) :: u16)) = (0 :: u8)"
proof -
  have "\<not> bit b (8 + n)" for n using bit_imp_le_length[of b "8 + n"] by auto
  then show ?thesis by (intro bit_word_eqI) (simp add: bit_simps)
qed

lemma ucast_ucast8 [simp]: "ucast (ucast (b :: u8) :: u16) = b"
  by (rule bit_word_eqI) (simp add: bit_simps)

lemma units_snoc: "units True m (Suc n) = units True m n @ [w16 (m ! (2 * n)) (m ! (2 * n + 1))]"
  by (simp add: units_def)

lemma set16_units:
  assumes "2 * i + 1 < length m"
  shows "\<exists>m'. set16 m i c = Some m' \<and> length m' = length m \<and> units True m' (Suc i) = units True m i @ [c]"
  using assms by (auto simp: set16_def units_def)

lemma store16_units:
  "2 * (i + length cs) \<le> length m \<Longrightarrow>
   \<exists>m'. store16 m i cs = Some m' \<and> length m' = length m \<and> units True m' (i + length cs) = units True m i @ cs"
proof (induction cs arbitrary: m i)
  case (Cons c cs)
  then obtain m1 where m1: "set16 m i c = Some m1" "length m1 = length m" "units True m1 (Suc i) = units True m i @ [c]"
    using set16_units[of i m c] by auto
  then obtain m2 where "store16 m1 (i + 1) cs = Some m2" "length m2 = length m" "units True m2 (Suc i + length cs) = units True m1 (Suc i) @ cs"
    using Cons.IH[of "i + 1" m1] Cons.prems by auto
  then show ?case using m1 by simp
qed simp

lemma memcpy_units:
  assumes "i + length bs \<le> length m"
  shows "\<exists>m'. memcpy_at m i bs = Some m' \<and> length m' = length m \<and> units False m' (i + length bs) = units False m i @ map ucast bs"
  using assms by (auto simp: memcpy_at_def units_def)

lemma widen_loop_units:
  "2 * i \<le> length m \<Longrightarrow>
   \<exists>m'. widen_loop i m = Some m' \<and> length m' = length m \<and> units True m' i = units False m i \<and> drop (2 * i) m' = drop (2 * i) m"
proof (induction i arbitrary: m)
  case (Suc i)
  define m1 where "m1 = m[2 * i := m ! i, 2 * i + 1 := 0]"
  have s: "rd m i = Some (m ! i)" "set16 m i (ucast (m ! i)) = Some m1"
    using Suc.prems by (simp_all add: rd_def set16_def m1_def)
  obtain m2 where m2: "widen_loop i m1 = Some m2" "length m2 = length m" "units True m2 i = units False m1 i"
      "drop (2 * i) m2 = drop (2 * i) m1"
    using Suc.IH[of m1] Suc.prems by (auto simp: m1_def)
  have "m2 ! (2 * i) = m1 ! (2 * i)" "m2 ! (2 * i + 1) = m1 ! (2 * i + 1)"
    using arg_cong[OF m2(4), of "\<lambda>xs. xs ! 0"] arg_cong[OF m2(4), of "\<lambda>xs. xs ! 1"] m2(2) Suc.prems by (simp_all add: m1_def)
  moreover have "m1 ! (2 * i) = m ! i" "m1 ! (2 * i + 1) = 0" using Suc.prems by (simp_all add: m1_def)
  moreover have "units False m1 i = units False m i" by (simp add: units_def m1_def)
  moreover have "units False m (Suc i) = units False m i @ [ucast (m ! i)]"
    using Suc.prems by (simp add: units_def take_Suc_conv_app_nth)
  ultimately have "units True m2 (Suc i) = units False m (Suc i)" using m2(3) by (simp add: units_snoc)
  moreover have "drop (2 * Suc i) m2 = drop (2 * Suc i) m"
  proof -
    have "drop (2 * Suc i) m2 = drop 2 (drop (2 * i) m2)" by simp
    also have "\<dots> = drop (2 * Suc i) m1" by (simp add: m2(4))
    finally show ?thesis by (simp add: m1_def)
  qed
  ultimately show ?case using s m2(1,2) by simp
qed simp

section \<open>Well-formed buffers\<close>

text \<open>
  What the allocator documents: a block has at least the size asked for (its usable size may be
  larger, by less than a page) and a reallocated block keeps its contents.
\<close>

definition alloc_ok :: "realloc_func \<Rightarrow> bool" where
  "alloc_ok ra \<longleftrightarrow> (\<forall>p n m. ra p n = Some m \<longrightarrow> n \<le> length m \<and> length m \<le> n + 4096 \<and>
     (\<forall>k. k \<le> n \<longrightarrow> k \<le> length (bytes_of p) \<longrightarrow> take k m = take k (bytes_of p)))"

lemma alloc_okD:
  assumes "alloc_ok ra" "ra p n = Some m"
  shows "n \<le> length m" "length m \<le> n + 4096" "k \<le> n \<Longrightarrow> k \<le> length (bytes_of p) \<Longrightarrow> take k m = take k (bytes_of p)"
  using assms unfolding alloc_ok_def by blast+

text \<open>
  A buffer in the error state has given its memory back. Otherwise the memory holds \<^verbatim>\<open>size\<close>
  units, and in the narrow form a final zero; the sizes stay below the bound for which
  \<open>size * 3\<close> is an \<^verbatim>\<open>int\<close>.
\<close>

definition SB_LIMIT :: nat where
  "SB_LIMIT = 477000000"

definition sb_wf :: "string_buffer \<Rightarrow> bool" where
  "sb_wf s \<longleftrightarrow>
     (if error_status s then sb_str s = None \<and> sb_len s = 0 \<and> sb_size s = 0
      else \<exists>m. sb_str s = Some m \<and> sb_len s \<le> sb_size s \<and>
        shl (sb_wide s) (sb_size s) + of_bool (\<not> sb_wide s) \<le> length m \<and>
        sb_size s \<le> (if sb_wide s then 715700000 else 715600000))"

lemma sb_wf_len: "sb_wf s \<Longrightarrow> length (sb_units s) = sb_len s"
  by (cases "sb_wide s") (auto simp: sb_wf_def sb_units_def length_units split: if_splits)

definition alloc_fails :: "realloc_func \<Rightarrow> bool" where
  "alloc_fails ra \<longleftrightarrow> (\<exists>p n. ra p n = None)"

lemma alloc_failsI: "ra p n = None \<Longrightarrow> alloc_fails ra"
  by (auto simp: alloc_fails_def)

text \<open>The contract of an append: it appends, or it reports the error, which only comes from the allocator.\<close>

definition appended :: "realloc_func \<Rightarrow> string_buffer \<Rightarrow> u16 list \<Rightarrow> int \<Rightarrow> string_buffer \<Rightarrow> bool" where
  "appended ra s cs r s' \<longleftrightarrow> sb_wf s' \<and>
     (r = 0 \<and> sb_units s' = sb_units s @ cs \<and> error_status s' = error_status s \<or> r = -1 \<and> error_status s' \<and> (error_status s \<or> alloc_fails ra))"

lemma set_error_wf: "sb_wf (snd (string_buffer_set_error s))" "error_status (snd (string_buffer_set_error s))"
    "fst (string_buffer_set_error s) = -1"
  by (simp_all add: string_buffer_set_error_def sb_wf_def)

lemma appended_set_error: "alloc_fails ra \<Longrightarrow> string_buffer_set_error s = (r, s') \<Longrightarrow> appended ra s cs r s'"
  using set_error_wf[of s] by (simp add: appended_def)

text \<open>Growing: the units survive, there is room for \<open>n\<close> of them, or the error is recorded.\<close>

definition grown :: "realloc_func \<Rightarrow> string_buffer \<Rightarrow> nat \<Rightarrow> int \<Rightarrow> string_buffer \<Rightarrow> bool" where
  "grown ra s n r s' \<longleftrightarrow> sb_wf s' \<and>
     (r = 0 \<and> error_status s' = error_status s \<and> sb_units s' = sb_units s \<and> sb_len s' = sb_len s \<and> n \<le> sb_size s' \<and>
        (sb_wide s \<longrightarrow> sb_wide s') \<or> r = -1 \<and> error_status s' \<and> (error_status s \<or> alloc_fails ra))"

lemma grown_set_error: "alloc_fails ra \<Longrightarrow> string_buffer_set_error s = (r, s') \<Longrightarrow> grown ra s n r s'"
  using set_error_wf[of s] by (simp add: grown_def)

lemma widen_grown:
  assumes ra: "alloc_ok ra" and wf: "sb_wf s" "\<not> error_status s" "\<not> sb_wide s" and n: "sb_len s \<le> n" "n \<le> 715600000"
  shows "\<exists>r s'. string_buffer_widen ra s n = Some (r, s') \<and> grown ra s n r s' \<and> (r = 0 \<longrightarrow> sb_wide s')"
proof (cases "ra (sb_str s) (2 * n)")
  case None
  obtain r s' where e: "string_buffer_set_error s = (r, s')" by (cases "string_buffer_set_error s")
  then have "r = -1" by (simp add: string_buffer_set_error_def)
  then show ?thesis using None wf(2) e grown_set_error[OF alloc_failsI[of ra, OF None] e] by (simp add: string_buffer_widen_def js_realloc2_def)
next
  case (Some m)
  obtain b where b: "sb_str s = Some b" "sb_len s \<le> sb_size s" "sb_size s + 1 \<le> length b"
    using wf by (auto simp: sb_wf_def)
  note a = alloc_okD[OF ra Some]
  have t: "take (sb_len s) m = take (sb_len s) b" using a(3)[of "sb_len s"] n b by simp
  obtain m' where m': "widen_loop (sb_len s) m = Some m'" "length m' = length m" "units True m' (sb_len s) = units False m (sb_len s)"
    using widen_loop_units[of "sb_len s" m] a(1) n by auto
  have u: "units False m (sb_len s) = units False b (sb_len s)" using t by (simp add: units_def)
  let ?k = "n + (length m - 2 * n) div 2"
  have k: "2 * ?k \<le> length m" "?k \<le> n + 2048" "n \<le> ?k" using a(1,2) by auto
  then have "string_buffer_widen ra s n = Some (0, s\<lparr>sb_wide := True, sb_size := ?k, sb_str := Some m'\<rparr>)"
    using Some wf(2) m'(1) n by (simp add: string_buffer_widen_def js_realloc2_def int_range_def)
  moreover have "grown ra s n 0 (s\<lparr>sb_wide := True, sb_size := ?k, sb_str := Some m'\<rparr>)"
    using k n m' u b wf by (simp add: grown_def sb_wf_def sb_units_def)
  ultimately show ?thesis by auto
qed

lemma realloc_grown:
  assumes ra: "alloc_ok ra" and wf: "sb_wf s" and n: "sb_size s < n \<or> error_status s" "n \<le> SB_LIMIT"
  shows "\<exists>r s'. string_buffer_realloc ra s n c = Some (r, s') \<and> grown ra s n r s' \<and> (r = 0 \<and> c \<ge> 0x100 \<longrightarrow> sb_wide s')"
proof (cases "error_status s")
  case True
  then show ?thesis using wf by (simp add: string_buffer_realloc_def grown_def)
next
  case False
  then have lt: "sb_size s < n" using n(1) by simp
  define k where "k = max n (sb_size s * 3 div 2)"
  have k: "n \<le> k" "k \<le> 715500000" "sb_size s < k" using n lt by (auto simp: k_def SB_LIMIT_def)
  have c: "min (max n (sb_size s * 3 div 2)) JS_STRING_LEN_MAX = k" "\<not> JS_STRING_LEN_MAX < n"
      "int_range (sb_size s * 3) = Some (sb_size s * 3)"
    using k n lt unfolding k_def[symmetric] by (simp_all add: JS_STRING_LEN_MAX_def SB_LIMIT_def int_range_def)
  obtain b where b: "sb_str s = Some b" "sb_len s \<le> sb_size s" "shl (sb_wide s) (sb_size s) + of_bool (\<not> sb_wide s) \<le> length b"
    using wf False by (auto simp: sb_wf_def)
  show ?thesis
  proof (cases "\<not> sb_wide s \<and> c \<ge> 0x100")
    case True
    then have "string_buffer_realloc ra s n c = string_buffer_widen ra s k"
      using False c by (simp add: string_buffer_realloc_def)
    moreover have "sb_len s \<le> k" "k \<le> 715600000" using b(2) k by auto
    ultimately show ?thesis using widen_grown[OF ra wf False, of k] True k(1) by (fastforce simp: grown_def)
  next
    case narrow: False
    let ?w = "sb_wide s"
    let ?n = "shl ?w k + 1 - of_bool ?w"
    have e: "string_buffer_realloc ra s n c = (case js_realloc2 ra (sb_str s) ?n of
            None \<Rightarrow> Some (string_buffer_set_error s)
          | Some (m, slack) \<Rightarrow> do {
              n \<leftarrow> int_range (k + shr ?w slack);
              Some (0, s\<lparr>sb_size := min n JS_STRING_LEN_MAX, sb_str := Some m\<rparr>) })"
      using False c narrow unfolding string_buffer_realloc_def Let_def by auto
    show ?thesis
    proof (cases "ra (sb_str s) ?n")
      case None
      obtain r s' where r: "string_buffer_set_error s = (r, s')" by (cases "string_buffer_set_error s")
      then have "r = -1" by (simp add: string_buffer_set_error_def)
      then show ?thesis using e None r grown_set_error[OF alloc_failsI[of ra, OF None] r] by (simp add: js_realloc2_def)
    next
      case (Some m)
      note a = alloc_okD[OF ra Some]
      let ?k = "k + shr ?w (length m - ?n)"
      have kk: "?k \<le> 715504096" "shl ?w ?k + of_bool (\<not> ?w) \<le> length m" using a(1,2) k(2) by (cases ?w; simp)+
      have "shl ?w (sb_len s) \<le> ?n" using b(2) k(3) by (cases ?w) simp_all
      moreover have "shl ?w (sb_len s) \<le> length b" using b(2,3) by (cases ?w) simp_all
      ultimately have u: "units ?w m (sb_len s) = units ?w b (sb_len s)"
        using a(1) a(3)[of "shl ?w (sb_len s)"] b(1) by (intro units_prefix[of "shl ?w (sb_len s)"]) auto
      have "string_buffer_realloc ra s n c = Some (0, s\<lparr>sb_size := ?k, sb_str := Some m\<rparr>)"
        unfolding e using Some kk(1) by (simp add: js_realloc2_def int_range_def JS_STRING_LEN_MAX_def)
      moreover have "sb_wf (s\<lparr>sb_size := ?k, sb_str := Some m\<rparr>)"
        using False kk b k(3) by (auto simp: sb_wf_def)
      ultimately show ?thesis using False u b(1) k(1) narrow
        by (auto simp: grown_def sb_units_def)
    qed
  qed
qed

lemma grown_refl: "sb_wf s \<Longrightarrow> n \<le> sb_size s \<Longrightarrow> grown ra s n 0 s"
  by (simp add: grown_def)

lemma grown_appended:
  assumes "grown ra s n r s1"
  shows "r \<noteq> 0 \<Longrightarrow> appended ra s cs (- 1) s1" "r = 0 \<Longrightarrow> appended ra s1 cs k s2 \<Longrightarrow> appended ra s cs k s2"
  using assms by (auto simp: grown_def appended_def)

lemma store16_appended:
  assumes "sb_wf s" "sb_wide s" "sb_len s + length cs \<le> sb_size s"
  shows "\<exists>s'. sb_store16 s cs = Some s' \<and> appended ra s cs 0 s'"
proof (cases "error_status s")
  case True
  then show ?thesis using assms by (auto simp: sb_wf_def sb_store16_def appended_def sb_units_def)
next
  case False
  then obtain m where m: "sb_str s = Some m" "2 * sb_size s \<le> length m" "sb_size s \<le> 715700000"
    using assms by (auto simp: sb_wf_def)
  then obtain m' where "store16 m (sb_len s) cs = Some m'" "length m' = length m"
      "units True m' (sb_len s + length cs) = units True m (sb_len s) @ cs"
    using store16_units[of "sb_len s" cs m] assms(3) by auto
  then show ?thesis using m assms False
    by (auto simp: sb_store16_def appended_def sb_wf_def sb_units_def)
qed

lemma store8_appended:
  assumes "sb_wf s" "\<not> sb_wide s" "sb_len s + length bs \<le> sb_size s"
  shows "\<exists>s'. sb_store8 s bs = Some s' \<and> appended ra s (map ucast bs) 0 s'"
proof (cases "error_status s")
  case True
  then show ?thesis using assms by (auto simp: sb_wf_def sb_store8_def appended_def sb_units_def memcpy_at_def)
next
  case False
  then obtain m where m: "sb_str s = Some m" "sb_size s + 1 \<le> length m" "sb_size s \<le> 715600000"
    using assms by (auto simp: sb_wf_def)
  then obtain m' where "memcpy_at m (sb_len s) bs = Some m'" "length m' = length m"
      "units False m' (sb_len s + length bs) = units False m (sb_len s) @ map ucast bs"
    using memcpy_units[of "sb_len s" bs m] assms(3) by auto
  then show ?thesis using m assms False
    by (auto simp: sb_store8_def appended_def sb_wf_def sb_units_def)
qed

text \<open>Units that fit into a byte.\<close>

lemma ucast_narrow:
  assumes "unat (c :: u16) < 256"
  shows "ucast (ucast c :: u8) = c"
proof (rule bit_word_eqI)
  fix n
  have "n < 8" if "bit c n" using bit_nat_less[of "unat c" 8 n] assms that by (simp add: bit_unsigned_iff)
  then show "bit (ucast (ucast c :: u8) :: u16) n = bit c n" by (auto simp: bit_simps)
qed

lemma bit_foldl_or: "bit (foldl (OR) a cs) n \<longleftrightarrow> bit a n \<or> (\<exists>c\<in>set cs. bit (c :: u16) n)"
  by (induction cs arbitrary: a) (auto simp: bit_simps)

lemma foldl_or_narrow:
  assumes "unat (foldl (OR) 0 cs :: u16) < 256" "c \<in> set cs"
  shows "unat c < 256"
proof -
  have "n < 8" if "bit c n" for n
    using bit_nat_less[of "unat (foldl (OR) 0 cs)" 8 n] assms that by (auto simp: bit_unsigned_iff bit_foldl_or dest: bit_imp_le_length)
  then have "take_bit 8 c = c" by (intro bit_word_eqI) (auto simp: bit_simps)
  then have "unat c mod 2 ^ 8 = unat c" by (metis unat_take_bit_mod)
  moreover have "unat c mod 2 ^ 8 < 2 ^ 8" by (rule mod_less_divisor) simp
  ultimately show ?thesis by simp
qed

lemma map_ucast_narrow: "unat (foldl (OR) 0 cs :: u16) < 256 \<Longrightarrow> map ucast (map ucast cs :: u8 list) = cs"
  using foldl_or_narrow ucast_narrow by (intro nth_equalityI) auto

lemma ucast_of_nat_byte: "c < 256 \<Longrightarrow> ucast (of_nat c :: u8) = (of_nat c :: u16)"
proof -
  assume "c < 256"
  then have "unat (of_nat c :: u8) = c" by (intro unat_of_nat_small) simp
  then have "(of_nat (unat (of_nat c :: u8)) :: u16) = of_nat c" by (simp only:)
  then show ?thesis by simp
qed

section \<open>The operations append\<close>

lemma putc_slow_appended:
  assumes ra: "alloc_ok ra" and wf: "sb_wf s" and n: "sb_len s + 1 \<le> SB_LIMIT"
  shows "\<exists>r s'. string_buffer_putc_slow ra s c = Some (r, s') \<and> appended ra s [of_nat c] r s'"
proof -
  obtain r s1 where s1: "(if sb_len s \<ge> sb_size s then string_buffer_realloc ra s (sb_len s + 1) c else Some (0, s)) = Some (r, s1)"
      "grown ra s (sb_len s + 1) r s1"
    using realloc_grown[OF ra wf, of "sb_len s + 1" c] n grown_refl[OF wf, of "sb_len s + 1"] by (cases "sb_len s \<ge> sb_size s") auto
  note g = grown_appended[OF s1(2)]
  show ?thesis
  proof (cases "r = 0")
    case False
    then show ?thesis using s1(1) g(1) by (simp add: string_buffer_putc_slow_def)
  next
    case r: True
    then have s1': "sb_wf s1" "sb_len s1 + 1 \<le> sb_size s1" using s1(2) by (auto simp: grown_def)
    consider "sb_wide s1" | "\<not> sb_wide s1" "c < 256" | (widen) "\<not> sb_wide s1" "\<not> c < 256" by blast
    then show ?thesis
    proof cases
      case 1
      then show ?thesis using s1(1) r g(2)[OF r] store16_appended[OF s1'(1), of "[of_nat c]" ra] s1'(2)
        by (auto simp: string_buffer_putc_slow_def)
    next
      case 2
      then show ?thesis using s1(1) r g(2)[OF r] store8_appended[OF s1'(1), of "[of_nat c]" ra] s1'(2)
        by (auto simp: string_buffer_putc_slow_def ucast_of_nat_byte)
    next
      case widen
      have "\<not> error_status s1" "sb_size s1 \<le> 715600000" "sb_len s1 \<le> sb_size s1"
        using s1' widen(1) by (auto simp: sb_wf_def split: if_splits)
      then obtain r2 s2 where s2: "string_buffer_widen ra s1 (sb_size s1) = Some (r2, s2)" "grown ra s1 (sb_size s1) r2 s2"
          "r2 = 0 \<longrightarrow> sb_wide s2" using widen_grown[OF ra s1'(1) _ widen(1)] by blast
      have "\<exists>s'. sb_store16 s2 [of_nat c] = Some s' \<and> appended ra s2 [of_nat c] 0 s'" if "r2 = 0"
        using s2 that s1'(2) by (intro store16_appended) (auto simp: grown_def)
      then show ?thesis using s1(1) r widen s2(1) g(2)[OF r] grown_appended[OF s2(2)]
        by (cases "r2 = 0") (auto simp: string_buffer_putc_slow_def)
    qed
  qed
qed

lemma putc16_appended:
  assumes ra: "alloc_ok ra" and wf: "sb_wf s" and n: "sb_len s + 1 \<le> SB_LIMIT"
  shows "\<exists>r s'. string_buffer_putc16 ra s c = Some (r, s') \<and> appended ra s [of_nat c] r s'"
proof -
  consider "sb_len s < sb_size s" "sb_wide s" | "sb_len s < sb_size s" "\<not> sb_wide s" "c < 256"
    | "\<not> (sb_len s < sb_size s \<and> sb_wide s)" "\<not> (sb_len s < sb_size s \<and> c < 256)" by blast
  then show ?thesis
  proof cases
    case 1
    then show ?thesis using store16_appended[OF wf, of "[of_nat c]" ra] by (auto simp: string_buffer_putc16_def)
  next
    case 2
    then show ?thesis using store8_appended[OF wf, of "[of_nat c]" ra] by (auto simp: string_buffer_putc16_def ucast_of_nat_byte)
  next
    case 3
    then show ?thesis using putc_slow_appended[OF ra wf n] by (auto simp: string_buffer_putc16_def)
  qed
qed

lemma grown_store:
  assumes g: "grown ra s (sb_len s + length bs) r s1"
  shows "\<exists>r' s'. (if r \<noteq> 0 then Some (- 1, s1)
     else if sb_wide s1 then map_option (Pair 0) (sb_store16 s1 (map ucast bs))
     else map_option (Pair 0) (sb_store8 s1 bs)) = Some (r', s') \<and> appended ra s (map ucast bs) r' s'"
proof (cases "r = 0")
  case False
  then show ?thesis using grown_appended(1)[OF g] by simp
next
  case True
  then have w: "sb_wf s1" "sb_len s1 + length bs \<le> sb_size s1" using g by (auto simp: grown_def)
  show ?thesis
  proof (cases "sb_wide s1")
    case wide: True
    obtain s' where "sb_store16 s1 (map ucast bs) = Some s'" "appended ra s1 (map ucast bs) 0 s'"
      using store16_appended[OF w(1) wide, of "map ucast bs" ra] w(2) by auto
    then show ?thesis using wide True grown_appended(2)[OF g True] by simp
  next
    case False
    obtain s' where "sb_store8 s1 bs = Some s'" "appended ra s1 (map ucast bs) 0 s'"
      using store8_appended[OF w(1) False w(2)] by auto
    then show ?thesis using False True grown_appended(2)[OF g True] by simp
  qed
qed

lemma putc8_appended:
  assumes ra: "alloc_ok ra" and wf: "sb_wf s" and n: "sb_len s + 1 \<le> SB_LIMIT" "c < 256"
  shows "\<exists>r s'. string_buffer_putc8 ra s c = Some (r, s') \<and> appended ra s [of_nat c] r s'"
proof -
  obtain r s1 where s1: "(if sb_len s \<ge> sb_size s then string_buffer_realloc ra s (sb_len s + 1) c else Some (0, s)) = Some (r, s1)"
      "grown ra s (sb_len s + 1) r s1"
    using realloc_grown[OF ra wf, of "sb_len s + 1" c] n grown_refl[OF wf, of "sb_len s + 1"] by (cases "sb_len s \<ge> sb_size s") auto
  have m: "map ucast [of_nat c :: u8] = [of_nat c :: u16]" by (simp add: ucast_of_nat_byte[OF n(2)])
  have e: "string_buffer_putc8 ra s c = (if r \<noteq> 0 then Some (- 1, s1)
     else if sb_wide s1 then map_option (Pair 0) (sb_store16 s1 [of_nat c])
     else map_option (Pair 0) (sb_store8 s1 [of_nat c]))"
    unfolding string_buffer_putc8_def s1(1) by simp
  have "grown ra s (sb_len s + length [of_nat c :: u8]) r s1" using s1(2) by simp
  from grown_store[OF this] show ?thesis unfolding e m .
qed

definition char_units :: "nat \<Rightarrow> u16 list" where
  "char_units c = (if c \<ge> 0x10000 then [of_nat (drop_bit 10 (c - 0x10000) + 0xd800), of_nat (((c - 0x10000) AND 0x3ff) + 0xdc00)]
                   else [of_nat c])"

lemma appended_trans: "appended ra s cs 0 s1 \<Longrightarrow> appended ra s1 ds r s2 \<Longrightarrow> appended ra s (cs @ ds) r s2"
  by (auto simp: appended_def)

lemma appended_error: "appended ra s cs r s' \<Longrightarrow> r \<noteq> 0 \<Longrightarrow> appended ra s ds (- 1) s'"
  by (auto simp: appended_def)

lemma appended_len: "sb_wf s \<Longrightarrow> appended ra s cs r s' \<Longrightarrow> sb_len s' \<le> sb_len s + length cs"
  using sb_wf_len[of s] sb_wf_len[of s'] by (auto simp: appended_def sb_wf_def[of s'])

lemma putc_appended:
  assumes ra: "alloc_ok ra" and wf: "sb_wf s" and n: "sb_len s + 2 \<le> SB_LIMIT"
  shows "\<exists>r s'. string_buffer_putc ra s c = Some (r, s') \<and> appended ra s (char_units c) r s'"
proof (cases "c \<ge> 0x10000")
  case True
  let ?hi = "drop_bit 10 (c - 0x10000) + 0xd800" and ?lo = "((c - 0x10000) AND 0x3ff) + 0xdc00"
  obtain r s1 where s1: "string_buffer_putc16 ra s ?hi = Some (r, s1)" "appended ra s [of_nat ?hi] r s1"
    using putc16_appended[OF ra wf, of ?hi] n by auto
  have l: "sb_len s1 + 1 \<le> SB_LIMIT" "sb_wf s1" using appended_len[OF wf s1(2)] n s1(2) by (auto simp: appended_def)
  obtain r2 s2 where s2: "string_buffer_putc16 ra s1 ?lo = Some (r2, s2)" "appended ra s1 [of_nat ?lo] r2 s2"
    using putc16_appended[OF ra l(2,1)] by blast
  show ?thesis
  proof (cases "r = 0")
    case r: True
    then have "string_buffer_putc ra s c = Some (r2, s2)" using s1(1) s2(1) True by (simp add: string_buffer_putc_def Let_def)
    moreover have "appended ra s ([of_nat ?hi] @ [of_nat ?lo]) r2 s2" using appended_trans s1(2) s2(2) r by blast
    ultimately show ?thesis using True by (simp add: char_units_def)
  next
    case False
    then have "string_buffer_putc ra s c = Some (-1, s1)" using s1(1) True by (simp add: string_buffer_putc_def Let_def)
    then show ?thesis using appended_error[OF s1(2) False] by blast
  qed
next
  case False
  then show ?thesis using putc16_appended[OF ra wf, of c] n by (simp add: string_buffer_putc_def char_units_def)
qed

lemma write8_appended:
  assumes ra: "alloc_ok ra" and wf: "sb_wf s" and n: "sb_len s + length bs \<le> SB_LIMIT"
  shows "\<exists>r s'. string_buffer_write8 ra s bs = Some (r, s') \<and> appended ra s (map ucast bs) r s'"
proof -
  let ?n = "sb_len s + length bs"
  obtain r s1 where s1: "(if ?n > sb_size s then string_buffer_realloc ra s ?n 0 else Some (0, s)) = Some (r, s1)"
      "grown ra s ?n r s1"
    using realloc_grown[OF ra wf _ n, of 0] grown_refl[OF wf, of ?n] by (cases "?n > sb_size s") auto
  have i: "int_range ?n = Some ?n" using n by (simp add: int_range_def SB_LIMIT_def)
  have e: "string_buffer_write8 ra s bs = (if r \<noteq> 0 then Some (- 1, s1)
     else if sb_wide s1 then map_option (Pair 0) (sb_store16 s1 (map ucast bs))
     else map_option (Pair 0) (sb_store8 s1 bs))"
    unfolding string_buffer_write8_def i bind.bind_lunit s1(1) by simp
  show ?thesis unfolding e by (rule grown_store[OF s1(2)])
qed

lemma write16_appended:
  assumes ra: "alloc_ok ra" and wf: "sb_wf s" and n: "sb_len s + length cs \<le> SB_LIMIT"
  shows "\<exists>r s'. string_buffer_write16 ra s cs = Some (r, s') \<and> appended ra s cs r s'"
proof -
  let ?n = "sb_len s + length cs" and ?c = "unat (foldl (OR) 0 cs)"
  have i: "int_range ?n = Some ?n" using n by (simp add: int_range_def SB_LIMIT_def)
  have "\<exists>r s1. (if ?n > sb_size s then string_buffer_realloc ra s ?n ?c
      else if \<not> sb_wide s \<and> ?c \<ge> 0x100 then string_buffer_widen ra s (sb_size s) else Some (0, s)) = Some (r, s1) \<and>
      grown ra s ?n r s1 \<and> (r = 0 \<and> ?c \<ge> 0x100 \<longrightarrow> sb_wide s1)"
  proof (cases "?n > sb_size s")
    case True
    then show ?thesis using realloc_grown[OF ra wf _ n, of ?c] by auto
  next
    case le: False
    show ?thesis
    proof (cases "\<not> sb_wide s \<and> ?c \<ge> 0x100")
      case True
      show ?thesis
      proof (cases "error_status s")
        case e: True
        then show ?thesis using wf le True by (simp add: string_buffer_widen_def grown_def)
      next
        case False
        then have "sb_len s \<le> sb_size s" "sb_size s \<le> 715600000" using wf True by (auto simp: sb_wf_def)
        then obtain r s1 where "string_buffer_widen ra s (sb_size s) = Some (r, s1)" "grown ra s (sb_size s) r s1" "r = 0 \<longrightarrow> sb_wide s1"
          using widen_grown[OF ra wf False] True by blast
        then show ?thesis using le True by (auto simp: grown_def)
      qed
    next
      case False
      then show ?thesis using le grown_refl[OF wf, of ?n] by auto
    qed
  qed
  then obtain r s1 where s1: "(if ?n > sb_size s then string_buffer_realloc ra s ?n ?c
      else if \<not> sb_wide s \<and> ?c \<ge> 0x100 then string_buffer_widen ra s (sb_size s) else Some (0, s)) = Some (r, s1)"
      "grown ra s ?n r s1" "r = 0 \<and> ?c \<ge> 0x100 \<longrightarrow> sb_wide s1" by blast
  have e: "string_buffer_write16 ra s cs = (if r \<noteq> 0 then Some (-1, s1)
     else if sb_wide s1 then map_option (Pair 0) (sb_store16 s1 cs)
     else map_option (Pair 0) (sb_store8 s1 (map ucast cs)))"
    unfolding string_buffer_write16_def Let_def i bind.bind_lunit s1(1) by simp
  show ?thesis
  proof (cases "r = 0 \<and> \<not> sb_wide s1")
    case True
    then have "map ucast (map ucast cs :: u8 list) = cs" using s1(3) by (intro map_ucast_narrow) auto
    then show ?thesis using True e grown_appended(2)[OF s1(2)] store8_appended[of s1 "map ucast cs" ra] s1(2)
      by (auto simp: grown_def)
  next
    case False
    then show ?thesis using e grown_appended[OF s1(2)] store16_appended[of s1 cs ra] s1(2)
      by (cases "r = 0") (fastforce simp: grown_def)+
  qed
qed

end
