(* ===== verification/Js_Malloc.thy ===== *)
theory Js_Malloc
  imports Dyn_Buf
begin

text \<open>
  The default allocation functions of \<^verbatim>\<open>quickjs.c\<close>, which count the blocks and the bytes of a
  runtime and enforce its memory limit. The C library's \<^verbatim>\<open>realloc\<close> (and \<^verbatim>\<open>malloc\<close>, for no old
  block) is a parameter; the usable size of a block is the length of its array. Sizes are
  \<^verbatim>\<open>size_t\<close>, reduced modulo \<open>2 ^ 64\<close>.
\<close>

section \<open>The functions\<close>

record malloc_state =
  malloc_count :: nat
  malloc_size :: nat
  malloc_limit :: nat

definition MALLOC_OVERHEAD :: nat where
  "MALLOC_OVERHEAD = 8"

definition szt_minus :: "nat \<Rightarrow> nat \<Rightarrow> nat" where
  "szt_minus a b = szt (a + (2 ^ 64 - szt b))"

text \<open>A size of zero fails the assertion.\<close>

definition js_def_malloc :: "realloc_func \<Rightarrow> malloc_state \<Rightarrow> nat \<Rightarrow> (u8 list option \<times> malloc_state) option" where
  "js_def_malloc libc s n =
     (if n = 0 then None
      else if szt (malloc_size s + n) > malloc_limit s then Some (None, s)
      else case libc None n of
          None \<Rightarrow> Some (None, s)
        | Some ptr \<Rightarrow>
            Some (Some ptr, s\<lparr>malloc_count := szt (malloc_count s + 1),
              malloc_size := szt (malloc_size s + szt (length ptr + MALLOC_OVERHEAD))\<rparr>))"

definition js_def_free :: "malloc_state \<Rightarrow> u8 list option \<Rightarrow> malloc_state" where
  "js_def_free s p =
     (case p of
        None \<Rightarrow> s
      | Some ptr \<Rightarrow> s\<lparr>malloc_count := szt_minus (malloc_count s) 1,
          malloc_size := szt_minus (malloc_size s) (length ptr + MALLOC_OVERHEAD)\<rparr>)"

definition js_def_realloc ::
  "realloc_func \<Rightarrow> malloc_state \<Rightarrow> u8 list option \<Rightarrow> nat \<Rightarrow> (u8 list option \<times> malloc_state) option" where
  "js_def_realloc libc s p n =
     (case p of
        None \<Rightarrow> (if n = 0 then Some (None, s) else js_def_malloc libc s n)
      | Some ptr \<Rightarrow>
          (let old_size = length ptr in
           if n = 0 then
             Some (None, s\<lparr>malloc_count := szt_minus (malloc_count s) 1,
               malloc_size := szt_minus (malloc_size s) (old_size + MALLOC_OVERHEAD)\<rparr>)
           else if szt_minus (szt (malloc_size s + n)) old_size > malloc_limit s then Some (None, s)
           else case libc (Some ptr) n of
               None \<Rightarrow> Some (None, s)
             | Some ptr' \<Rightarrow>
                 Some (Some ptr', s\<lparr>malloc_size := szt (malloc_size s + szt_minus (length ptr') old_size)\<rparr>)))"

section \<open>The account of the live blocks\<close>

text \<open>The calls of a client that owns the blocks it got: \<open>bs\<close> are the live blocks.\<close>

definition charge :: "u8 list \<Rightarrow> nat" where
  "charge b = length b + MALLOC_OVERHEAD"

definition account :: "malloc_state \<Rightarrow> u8 list multiset \<Rightarrow> bool" where
  "account s bs \<longleftrightarrow> malloc_count s = size_class.size bs \<and> malloc_size s = (\<Sum>b\<in>#bs. charge b)"

inductive heap_step :: "realloc_func \<Rightarrow> malloc_state \<times> u8 list multiset \<Rightarrow> malloc_state \<times> u8 list multiset \<Rightarrow> bool"
  for libc :: realloc_func where
  malloc_ok: "js_def_malloc libc s n = Some (Some b, s') \<Longrightarrow> heap_step libc (s, bs) (s', add_mset b bs)"
| malloc_null: "js_def_malloc libc s n = Some (None, s') \<Longrightarrow> heap_step libc (s, bs) (s', bs)"
| free: "b \<in># bs \<Longrightarrow> heap_step libc (s, bs) (js_def_free s (Some b), bs - {#b#})"
| free_null: "heap_step libc (s, bs) (js_def_free s None, bs)"
| realloc_new: "js_def_realloc libc s None n = Some (r, s') \<Longrightarrow>
    heap_step libc (s, bs) (s', (case r of None \<Rightarrow> bs | Some b' \<Rightarrow> add_mset b' bs))"
| realloc_ok: "b \<in># bs \<Longrightarrow> js_def_realloc libc s (Some b) n = Some (Some b', s') \<Longrightarrow>
    heap_step libc (s, bs) (s', add_mset b' (bs - {#b#}))"
| realloc_null: "b \<in># bs \<Longrightarrow> js_def_realloc libc s (Some b) n = Some (None, s') \<Longrightarrow> n \<noteq> 0 \<Longrightarrow>
    heap_step libc (s, bs) (s', bs)"
| realloc_free: "b \<in># bs \<Longrightarrow> js_def_realloc libc s (Some b) 0 = Some (None, s') \<Longrightarrow>
    heap_step libc (s, bs) (s', bs - {#b#})"

text \<open>
  The blocks live in the address space: their usable sizes and overheads add up to less than
  \<open>2 ^ 63\<close> bytes, and the library hands out blocks in that space only.
\<close>

definition fits :: "u8 list multiset \<Rightarrow> bool" where
  "fits bs \<longleftrightarrow> (\<Sum>b\<in>#bs. charge b) < 2 ^ 63"

lemma szt_minus_eq: "b \<le> a \<Longrightarrow> a < 2 ^ 64 \<Longrightarrow> szt_minus a b = a - b"
proof -
  assume a: "b \<le> a" "a < 2 ^ 64"
  then have "a + (2 ^ 64 - b) = (a - b) + 2 ^ 64" by linarith
  then have "(a + (2 ^ 64 - b)) mod 2 ^ 64 = (a - b) mod 2 ^ 64" by (metis mod_add_self2)
  then show ?thesis using a by (simp add: szt_minus_def szt_def)
qed

lemma szt_add_minus:
  assumes "b \<le> a" "a < 2 ^ 63" "c < 2 ^ 63"
  shows "szt (a + szt_minus c b) = a - b + c"
proof -
  have "szt_minus c b = (c + (2 ^ 64 - b)) mod 2 ^ 64" using assms by (simp add: szt_minus_def szt_def)
  then have "szt (a + szt_minus c b) = (a + (c + (2 ^ 64 - b))) mod 2 ^ 64" by (simp add: szt_def mod_add_right_eq)
  also have "a + (c + (2 ^ 64 - b)) = (a - b + c) + 2 ^ 64" using assms by simp
  also have "((a - b + c) + 2 ^ 64) mod 2 ^ 64 = (a - b + c) mod 2 ^ 64" by (rule mod_add_self2)
  also have "\<dots> = a - b + c" using assms by (intro mod_less) simp
  finally show ?thesis .
qed

lemma charge_sum_in: "b \<in># bs \<Longrightarrow> (\<Sum>x\<in>#bs. charge x) = charge b + (\<Sum>x\<in>#bs - {#b#}. charge x)"
  by (metis image_mset_add_mset insert_DiffM sum_mset.insert)

lemma charge_count: "size_class.size bs * MALLOC_OVERHEAD \<le> (\<Sum>x\<in>#bs. charge x)"
  by (induction bs) (auto simp: charge_def MALLOC_OVERHEAD_def)

lemma account_count: "account s bs \<Longrightarrow> fits bs \<Longrightarrow> malloc_count s < 2 ^ 60"
  using charge_count[of bs] by (simp add: account_def fits_def MALLOC_OVERHEAD_def)

lemma account_malloc:
  assumes "account s bs" "js_def_malloc libc s n = Some (Some b, s')" "fits bs" "fits (add_mset b bs)"
  shows "account s' (add_mset b bs)"
  using assms account_count[OF assms(1,3)]
  by (auto simp: js_def_malloc_def account_def fits_def charge_def split: if_splits option.splits)

lemma account_free:
  assumes "account s bs" "b \<in># bs" "fits bs"
  shows "account (js_def_free s (Some b)) (bs - {#b#})"
proof -
  have sum: "malloc_size s = charge b + (\<Sum>x\<in>#bs - {#b#}. charge x)" "malloc_size s < 2 ^ 63" "1 \<le> malloc_count s"
    using assms charge_sum_in[OF assms(2)] by (auto simp: account_def fits_def Suc_le_eq nonempty_has_size[symmetric])
  then have "szt_minus (malloc_size s) (charge b) = (\<Sum>x\<in>#bs - {#b#}. charge x)"
    by (subst szt_minus_eq) auto
  moreover have "szt_minus (malloc_count s) 1 = malloc_count s - 1"
    using sum(3) account_count[OF assms(1,3)] by (intro szt_minus_eq) auto
  ultimately show ?thesis using assms(1,2) by (simp add: account_def js_def_free_def charge_def size_Diff_singleton)
qed

lemma account_realloc:
  assumes "account s bs" "b \<in># bs" "js_def_realloc libc s (Some b) n = Some (Some b', s')"
    and "fits bs" "fits (add_mset b' (bs - {#b#}))"
  shows "account s' (add_mset b' (bs - {#b#}))"
proof -
  have s': "s' = s\<lparr>malloc_size := szt (malloc_size s + szt_minus (length b') (length b))\<rparr>"
    using assms(3) by (auto simp: js_def_realloc_def Let_def split: if_splits option.splits)
  have sum: "malloc_size s = charge b + (\<Sum>x\<in>#bs - {#b#}. charge x)" "malloc_size s < 2 ^ 63"
    using assms charge_sum_in[OF assms(2)] by (auto simp: account_def fits_def)
  have "length b' < 2 ^ 63" using assms(5) by (simp add: fits_def charge_def)
  then have "szt (malloc_size s + szt_minus (length b') (length b)) = malloc_size s - length b + length b'"
    using sum by (intro szt_add_minus) (auto simp: charge_def)
  moreover have "size_class.size (add_mset b' (bs - {#b#})) = size_class.size bs"
    using assms(2) by (metis insert_DiffM size_add_mset)
  ultimately show ?thesis using s' sum(1) assms(1,2) by (auto simp: account_def charge_def)
qed

lemma account_step:
  assumes "heap_step libc (s, bs) (s', bs')" "account s bs" "fits bs" "fits bs'"
  shows "account s' bs' \<and> malloc_limit s' = malloc_limit s"
  using assms
proof cases
  case (malloc_ok n b)
  then show ?thesis using account_malloc[OF assms(2) malloc_ok(2) assms(3)] assms(4)
    by (auto simp: js_def_malloc_def split: if_splits option.splits)
next
  case (malloc_null n)
  then show ?thesis using assms(2) by (auto simp: js_def_malloc_def split: if_splits option.splits)
next
  case (free b)
  then show ?thesis using account_free[OF assms(2) _ assms(3)] by (auto simp: js_def_free_def)
next
  case free_null
  then show ?thesis using assms(2) by (simp add: js_def_free_def)
next
  case (realloc_new n r)
  show ?thesis
  proof (cases r)
    case None
    then show ?thesis using realloc_new assms(2)
      by (auto simp: js_def_realloc_def js_def_malloc_def split: if_splits option.splits)
  next
    case (Some b)
    then have "js_def_malloc libc s n = Some (Some b, s')" using realloc_new by (auto simp: js_def_realloc_def split: if_splits)
    then show ?thesis using account_malloc[OF assms(2) _ assms(3)] Some realloc_new(1) assms(4)
      by (auto simp: js_def_malloc_def split: if_splits option.splits)
  qed
next
  case (realloc_ok b n b')
  then show ?thesis using account_realloc[OF assms(2) realloc_ok(2,3) assms(3)] assms(4)
    by (auto simp: js_def_realloc_def Let_def split: if_splits option.splits)
next
  case (realloc_null b n)
  then show ?thesis using assms(2) by (auto simp: js_def_realloc_def Let_def split: if_splits option.splits)
next
  case (realloc_free b)
  then have "s' = js_def_free s (Some b)" by (auto simp: js_def_realloc_def js_def_free_def Let_def)
  then show ?thesis using account_free[OF assms(2) realloc_free(2) assms(3)] realloc_free(1) by (auto simp: js_def_free_def)
qed

text \<open>The sequences of calls whose blocks always fit.\<close>

inductive heap_run :: "realloc_func \<Rightarrow> malloc_state \<times> u8 list multiset \<Rightarrow> malloc_state \<times> u8 list multiset \<Rightarrow> bool"
  for libc :: realloc_func where
  heap_refl: "fits bs \<Longrightarrow> heap_run libc (s, bs) (s, bs)"
| heap_trans: "heap_run libc a (s, bs) \<Longrightarrow> heap_step libc (s, bs) (s', bs') \<Longrightarrow> fits bs' \<Longrightarrow> heap_run libc a (s', bs')"

inductive_cases heap_runE: "heap_run libc a (s, bs)"

lemma heap_run_fits: "heap_run libc a (s, bs) \<Longrightarrow> fits bs"
  by (auto elim: heap_runE)

lemma heap_run_account:
  assumes "heap_run libc a b" "account (fst a) (snd a)"
  shows "account (fst b) (snd b) \<and> malloc_limit (fst b) = malloc_limit (fst a)"
  using assms
proof (induction rule: heap_run.induct)
  case (heap_trans a s bs s' bs')
  then show ?case using account_step[OF heap_trans.hyps(2) _ heap_run_fits[OF heap_trans.hyps(1)]] by auto
qed simp


definition example_libc :: realloc_func where
  "example_libc p n = Some (take n (bytes_of p) @ replicate (n + 8 - length (take n (bytes_of p))) 0)"


end
