(* ===== verification/Js_String_Build.thy ===== *)
theory Js_String_Build
  imports Js_String Js_Malloc
begin

text \<open>
  Building a string: any sequence of operations on a string buffer, followed by
  \<^verbatim>\<open>string_buffer_end\<close>, gives the string of the units appended or an exception; and the signed
  overflow in the growth of very large buffers.
\<close>

section \<open>The remaining operations\<close>

lemma read16_units:
  "2 * (start + n) \<le> length m \<Longrightarrow> read16 m start n = Some (drop start (units True m (start + n)))"
proof (induction n arbitrary: start)
  case 0
  then show ?case by (simp add: units_def)
next
  case (Suc n)
  have "drop start (units True m (start + Suc n)) = w16 (m ! (2 * start)) (m ! (2 * start + 1)) # drop (start + 1) (units True m (start + 1 + n))"
    using upt_conv_Cons[of start "start + Suc n"] by (simp add: units_def drop_map del: upt_Suc)
  then show ?case using Suc by (simp add: get16_def)
qed

lemma units_take: "shl w n \<le> length m \<Longrightarrow> k \<le> n \<Longrightarrow> units w m k = take k (units w m n)"
  by (cases w) (auto simp: units_def take_map min_def)

lemma str_units_length: "str_wf p \<Longrightarrow> length (str_units p) = str_len p"
  by (simp add: str_units_def str_wf_def length_units)

definition sub_units :: "js_string \<Rightarrow> nat \<Rightarrow> nat \<Rightarrow> u16 list" where
  "sub_units p from to = drop from (take to (str_units p))"

lemma read_units:
  assumes p: "str_wf p" and r: "from \<le> to" "to \<le> str_len p"
  shows "is_wide_char p \<Longrightarrow> read16 (str_u p) from (to - from) = Some (sub_units p from to)"
    "\<not> is_wide_char p \<Longrightarrow> \<exists>bs. read8 (str_u p) from (to - from) = Some bs \<and> map ucast bs = sub_units p from to \<and> length bs = to - from"
proof -
  let ?u = "sub_units p from to"
  assume w: "is_wide_char p"
  then have "2 * str_len p \<le> length (str_u p)" using p by (simp add: str_wf_def)
  then show "read16 (str_u p) from (to - from) = Some ?u"
    using w r units_take[of True "str_len p" "str_u p" to] by (simp add: read16_units str_units_def sub_units_def)
next
  let ?u = "sub_units p from to"
  assume w: "\<not> is_wide_char p"
  then have "str_len p + 1 \<le> length (str_u p)" using p by (simp add: str_wf_def)
  then show "\<exists>bs. read8 (str_u p) from (to - from) = Some bs \<and> map ucast bs = ?u \<and> length bs = to - from"
    using w r by (simp add: read8_def slice_def str_units_def sub_units_def units_def drop_map take_map drop_take)
qed

lemma concat_appended:
  assumes ra: "alloc_ok ra" and wf: "sb_wf s" and p: "str_wf p" "to \<le> str_len p" and n: "sb_len s + (to - from) \<le> SB_LIMIT"
  shows "\<exists>r s'. string_buffer_concat ra s p from to = Some (r, s') \<and> appended ra s (sub_units p from to) r s'"
proof (cases "to \<le> from")
  case True
  then show ?thesis using wf by (simp add: string_buffer_concat_def appended_def sub_units_def)
next
  case False
  show ?thesis
  proof (cases "is_wide_char p")
    case True
    let ?u = "sub_units p from to"
    have "read16 (str_u p) from (to - from) = Some ?u" using read_units(1)[OF p(1) _ p(2) True] False by simp
    moreover have "length ?u = to - from" using str_units_length[OF p(1)] p(2) by (simp add: sub_units_def)
    ultimately show ?thesis using write16_appended[OF ra wf, of ?u] n False True by (simp add: string_buffer_concat_def)
  next
    case narrow: False
    obtain bs where bs: "read8 (str_u p) from (to - from) = Some bs" "map ucast bs = sub_units p from to" "length bs = to - from"
      using read_units(2)[OF p(1) _ p(2) narrow, of "from"] False by auto
    then show ?thesis using write8_appended[OF ra wf, of bs] n False narrow by (simp add: string_buffer_concat_def)
  qed
qed

lemma fill_loop_appended:
  "alloc_ok ra \<Longrightarrow> sb_wf s \<Longrightarrow> sb_len s + k \<le> SB_LIMIT \<Longrightarrow>
   \<exists>r s'. fill_loop ra s c k = Some (r, s') \<and> appended ra s (replicate k (of_nat c)) r s'"
proof (induction k arbitrary: s)
  case 0
  then show ?case by (simp add: appended_def)
next
  case (Suc k)
  obtain r s1 where s1: "string_buffer_putc16 ra s c = Some (r, s1)" "appended ra s [of_nat c] r s1"
    using putc16_appended[OF Suc.prems(1,2), of c] Suc.prems(3) by auto
  have "sb_len s1 + k \<le> SB_LIMIT" using appended_len[OF Suc.prems(2) s1(2)] Suc.prems(3) by simp
  then obtain r2 s2 where s2: "fill_loop ra s1 c k = Some (r2, s2)" "appended ra s1 (replicate k (of_nat c)) r2 s2"
    using Suc.IH[of s1] Suc.prems(1) s1(2) by (auto simp: appended_def)
  show ?case
  proof (cases "r = 0")
    case True
    then show ?thesis using s1 s2 appended_trans[of ra s "[of_nat c]" s1] by simp
  next
    case False
    then show ?thesis using s1 appended_error[OF s1(2) False] by simp
  qed
qed

lemma fill_appended:
  assumes ra: "alloc_ok ra" and wf: "sb_wf s" and n: "sb_len s + k \<le> SB_LIMIT"
  shows "\<exists>r s'. string_buffer_fill ra s c k = Some (r, s') \<and> appended ra s (replicate k (of_nat c)) r s'"
proof -
  let ?n = "sb_len s + k"
  obtain r s1 where s1: "(if ?n > sb_size s then string_buffer_realloc ra s ?n c else Some (0, s)) = Some (r, s1)"
      "grown ra s ?n r s1"
    using realloc_grown[OF ra wf _ n, of c] grown_refl[OF wf, of ?n] by (cases "?n > sb_size s") auto
  have i: "int_range ?n = Some ?n" using n by (simp add: int_range_def SB_LIMIT_def)
  have e: "string_buffer_fill ra s c k = (if r \<noteq> 0 then Some (-1, s1) else fill_loop ra s1 c k)"
    unfolding string_buffer_fill_def i bind.bind_lunit s1(1) by simp
  show ?thesis
  proof (cases "r = 0")
    case True
    then have "sb_wf s1" "sb_len s1 + k \<le> SB_LIMIT" using s1(2) n by (auto simp: grown_def)
    then show ?thesis using e True fill_loop_appended[OF ra, of s1 k c] grown_appended(2)[OF s1(2)] by auto
  next
    case False
    then show ?thesis using e grown_appended(1)[OF s1(2) False] by simp
  qed
qed

lemma init_wf:
  assumes ra: "alloc_ok ra" and n: "n \<le> SB_LIMIT"
  shows "sb_wf (snd (string_buffer_init2 ra n w)) \<and> sb_units (snd (string_buffer_init2 ra n w)) = [] \<and>
    (error_status (snd (string_buffer_init2 ra n w)) \<longrightarrow> alloc_fails ra) \<and> sb_len (snd (string_buffer_init2 ra n w)) = 0"
proof (cases "ra None (shl w n + 1 - of_bool w)")
  case None
  then show ?thesis using alloc_failsI[of ra, OF None]
    by (simp add: string_buffer_init2_def js_alloc_string_def sb_wf_def sb_units_def)
next
  case (Some m)
  have "shl w n + of_bool (\<not> w) \<le> length m" using alloc_okD(1)[OF ra Some] by (cases w) simp_all
  then show ?thesis using Some n
    by (simp add: string_buffer_init2_def js_alloc_string_def sb_wf_def sb_units_def SB_LIMIT_def)
qed

lemma empty_string_units [simp]: "str_wf empty_string" "str_units empty_string = []"
  by (simp_all add: empty_string_def str_wf_def str_units_def)

lemma end_string:
  assumes ra: "alloc_ok ra" and wf: "sb_wf s"
  shows "string_buffer_end ra s = Some None \<and> error_status s \<or>
    (\<exists>p. string_buffer_end ra s = Some (Some p) \<and> \<not> error_status s \<and> str_wf p \<and> str_units p = sb_units s \<and>
      (is_wide_char p \<longrightarrow> sb_wide s))"
proof (cases "error_status s \<or> sb_len s = 0")
  case True
  then show ?thesis using wf
    by (auto simp: string_buffer_end_def sb_units_def empty_string_units) (simp_all add: empty_string_def)
next
  case False
  let ?w = "sb_wide s"
  obtain m where m: "sb_str s = Some m" "sb_len s \<le> sb_size s" "shl ?w (sb_size s) + of_bool (\<not> ?w) \<le> length m"
    using wf False by (auto simp: sb_wf_def)
  let ?n = "shl ?w (sb_len s) + 1 - of_bool ?w"
  define m1 where "m1 = (if sb_len s < sb_size s then (case ra (Some m) ?n of None \<Rightarrow> m | Some m' \<Rightarrow> m') else m)"
  have lm: "shl ?w (sb_len s) + of_bool (\<not> ?w) \<le> length m" using m(2,3) by (cases ?w) simp_all
  have m1: "shl ?w (sb_len s) + of_bool (\<not> ?w) \<le> length m1 \<and> units ?w m1 (sb_len s) = units ?w m (sb_len s)"
  proof (cases "sb_len s < sb_size s \<and> ra (Some m) ?n \<noteq> None")
    case True
    then obtain m' where m': "ra (Some m) ?n = Some m'" by blast
    note a = alloc_okD[OF ra m']
    have t: "take (shl ?w (sb_len s)) m' = take (shl ?w (sb_len s)) m" using a(3)[of "shl ?w (sb_len s)"] lm by (cases ?w) simp_all
    have "shl ?w (sb_len s) \<le> length m'" "shl ?w (sb_len s) \<le> length m" using a(1) lm by (cases ?w; simp)+
    then have "units ?w m' (sb_len s) = units ?w m (sb_len s)" using units_prefix[OF t order.refl] by blast
    then show ?thesis using True m' a(1) by (cases ?w) (simp_all add: m1_def)
  next
    case False
    then show ?thesis using lm by (auto simp: m1_def split: option.splits)
  qed
  define m2 where "m2 = (if ?w then m1 else m1[sb_len s := 0])"
  have m2: "(if \<not> ?w then wr m1 (sb_len s) 0 else Some m1) = Some m2" "length m2 = length m1"
    using m1 by (cases ?w; simp add: m2_def wr_def)+
  have "units ?w m2 (sb_len s) = units ?w m1 (sb_len s)" by (simp add: m2_def units_def)
  moreover have "string_buffer_end ra s = Some (Some \<lparr>ref_count = 1, str_len = sb_len s, is_wide_char = ?w, str_u = m2\<rparr>)"
    unfolding string_buffer_end_def Let_def m(1) bind.bind_lunit m1_def[symmetric] m2(1) using False by simp
  ultimately show ?thesis using False m1 m2(2) m(1) by (simp add: str_wf_def str_units_def sb_units_def)
qed

section \<open>Programs of appends\<close>

datatype sb_op = Putc8 nat | Putc16 nat | Putc nat | Write8 "u8 list" | Write16 "u16 list" | Puts8 "u8 list"
  | Concat js_string nat nat | Fill nat nat

fun run_op :: "realloc_func \<Rightarrow> string_buffer \<Rightarrow> sb_op \<Rightarrow> (int \<times> string_buffer) option" where
  "run_op ra s (Putc8 c) = string_buffer_putc8 ra s c"
| "run_op ra s (Putc16 c) = string_buffer_putc16 ra s c"
| "run_op ra s (Putc c) = string_buffer_putc ra s c"
| "run_op ra s (Write8 bs) = string_buffer_write8 ra s bs"
| "run_op ra s (Write16 cs) = string_buffer_write16 ra s cs"
| "run_op ra s (Puts8 bs) = string_buffer_puts8 ra s bs"
| "run_op ra s (Concat p a b) = string_buffer_concat ra s p a b"
| "run_op ra s (Fill c k) = string_buffer_fill ra s c k"

fun op_units :: "sb_op \<Rightarrow> u16 list" where
  "op_units (Putc8 c) = [of_nat c]"
| "op_units (Putc16 c) = [of_nat c]"
| "op_units (Putc c) = char_units c"
| "op_units (Write8 bs) = map ucast bs"
| "op_units (Write16 cs) = cs"
| "op_units (Puts8 bs) = map ucast (takeWhile (\<lambda>c. c \<noteq> 0) bs)"
| "op_units (Concat p a b) = sub_units p a b"
| "op_units (Fill c k) = replicate k (of_nat c)"

fun op_ok :: "sb_op \<Rightarrow> bool" where
  "op_ok (Putc8 c) = (c < 256)"
| "op_ok (Concat p a b) = (str_wf p \<and> b \<le> str_len p)"
| "op_ok _ = True"

text \<open>Callers often ignore the results and only look at the error when the string is taken.\<close>

fun run_ops :: "realloc_func \<Rightarrow> string_buffer \<Rightarrow> sb_op list \<Rightarrow> string_buffer option" where
  "run_ops ra s [] = Some s"
| "run_ops ra s (a # as) = do { (r, s) \<leftarrow> run_op ra s a; run_ops ra s as }"

lemma run_op_appended:
  assumes "alloc_ok ra" "sb_wf s" "op_ok a" "sb_len s + length (op_units a) + 1 \<le> SB_LIMIT"
  shows "\<exists>r s'. run_op ra s a = Some (r, s') \<and> appended ra s (op_units a) r s'"
proof (cases a)
  case (Putc c)
  moreover have "1 \<le> length (char_units c)" by (simp add: char_units_def)
  ultimately show ?thesis using putc_appended[OF assms(1,2), of c] assms(4) by simp
qed (use assms putc8_appended[OF assms(1,2)] putc16_appended[OF assms(1,2)]
    write8_appended[OF assms(1,2)] write16_appended[OF assms(1,2)] concat_appended[OF assms(1,2)] fill_appended[OF assms(1,2)]
    in \<open>auto simp: string_buffer_puts8_def sub_units_def str_units_length\<close>)

lemma run_ops_appended:
  "alloc_ok ra \<Longrightarrow> sb_wf s \<Longrightarrow> \<forall>a\<in>set as. op_ok a \<Longrightarrow> sb_len s + length (concat (map op_units as)) + 1 \<le> SB_LIMIT \<Longrightarrow>
   \<exists>s'. run_ops ra s as = Some s' \<and> sb_wf s' \<and>
     (sb_units s' = sb_units s @ concat (map op_units as) \<and> error_status s' = error_status s \<or>
      error_status s' \<and> (error_status s \<or> alloc_fails ra))"
proof (induction as arbitrary: s)
  case (Cons a as)
  obtain r s1 where s1: "run_op ra s a = Some (r, s1)" "appended ra s (op_units a) r s1"
    using run_op_appended[OF Cons.prems(1,2), of a] Cons.prems(3,4) by auto
  have "sb_wf s1" "sb_len s1 + length (concat (map op_units as)) + 1 \<le> SB_LIMIT"
    using s1(2) appended_len[OF Cons.prems(2) s1(2)] Cons.prems(4) by (auto simp: appended_def)
  then obtain s2 where s2: "run_ops ra s1 as = Some s2" "sb_wf s2"
      "sb_units s2 = sb_units s1 @ concat (map op_units as) \<and> error_status s2 = error_status s1 \<or>
       error_status s2 \<and> (error_status s1 \<or> alloc_fails ra)"
    using Cons.IH[of s1] Cons.prems(1,3) by auto
  then show ?case using s1 by (auto simp: appended_def)
qed auto

lemma builds_string:
  assumes "alloc_ok ra" "n \<le> SB_LIMIT" "\<forall>a\<in>set as. op_ok a" "length (concat (map op_units as)) < SB_LIMIT"
  shows "\<exists>s res. run_ops ra (snd (string_buffer_init2 ra n w)) as = Some s \<and> string_buffer_end ra s = Some res \<and>
    (case res of None \<Rightarrow> alloc_fails ra | Some p \<Rightarrow> str_wf p \<and> str_units p = concat (map op_units as))"
proof -
  let ?s = "snd (string_buffer_init2 ra n w)"
  note i = init_wf[OF assms(1,2), of w]
  then obtain s where s: "run_ops ra ?s as = Some s" "sb_wf s"
      "sb_units s = concat (map op_units as) \<and> error_status s = error_status ?s \<or> error_status s \<and> (error_status ?s \<or> alloc_fails ra)"
    using run_ops_appended[OF assms(1), of ?s as] assms(3,4) by auto
  consider "string_buffer_end ra s = Some None" "error_status s"
    | p where "string_buffer_end ra s = Some (Some p)" "\<not> error_status s" "str_wf p" "str_units p = sb_units s"
    using end_string[OF assms(1) s(2)] by blast
  then show ?thesis
  proof cases
    case 1
    then have "alloc_fails ra" using s(3) i by auto
    then show ?thesis using s(1) 1(1) by (intro exI[of _ s] exI[of _ None]) simp
  next
    case (2 p)
    then show ?thesis using s(1,3) by (intro exI[of _ s] exI[of _ "Some p"]) simp
  qed
qed

text \<open>
  C34. String buffers implement appending: for an allocator that keeps its contract, a buffer
  started with any size and width and any program of appends up to the length bound, no
  operation accesses memory outside the buffer or overflows, also when the program ignores
  errors; at the end the string has exactly the units appended, whatever the widths of the
  pieces, or the result is an exception, and then the allocator has failed.
\<close>

theorem string_buffer_builds:
  assumes "alloc_ok ra" "n \<le> SB_LIMIT" "\<forall>a\<in>set as. op_ok a" "length (concat (map op_units as)) < SB_LIMIT"
  shows "\<exists>s res. run_ops ra (snd (string_buffer_init2 ra n w)) as = Some s \<and> string_buffer_end ra s = Some res \<and>
    (case res of None \<Rightarrow> alloc_fails ra | Some p \<Rightarrow> str_wf p \<and> str_units p = concat (map op_units as))"
  by (rule builds_string[OF assms])

lemma example_libc_ok: "alloc_ok example_libc"
  by (auto simp: alloc_ok_def example_libc_def min_def)

theorem string_buffer_builds_witness:
  "\<exists>s res. run_ops example_libc (snd (string_buffer_init2 example_libc 1 False)) [Write8 [97], Putc 0x1f600, Putc8 98] = Some s \<and>
    string_buffer_end example_libc s = Some res \<and>
    (case res of None \<Rightarrow> alloc_fails example_libc | Some p \<Rightarrow> str_wf p \<and> str_units p = concat (map op_units [Write8 [97], Putc 0x1f600, Putc8 98]))"
  by (rule string_buffer_builds) (simp_all add: example_libc_ok SB_LIMIT_def char_units_def)

text \<open>
  The growth of a buffer computes \<open>size * 3\<close> in \<^verbatim>\<open>int\<close>: a buffer of 715827883 units, below the
  maximal length of strings, overflows when it has to grow.
\<close>

lemma string_buffer_realloc_overflow:
  assumes "\<not> error_status s" "sb_size s = 715827883"
  shows "string_buffer_realloc ra s 715827884 c = None"
  using assms by (simp add: string_buffer_realloc_def JS_STRING_LEN_MAX_def int_range_def)

text \<open>
  A string buffer is an append-only buffer of units with a sticky error, for every allocator
  that keeps its contract; the memory of a string is what the allocation functions of the
  runtime return behind the header of 16 bytes.
\<close>

locale string_env =
  fixes ra :: realloc_func
  assumes alloc_ok: "alloc_ok ra"

sublocale string_env \<subseteq> sbuf: append_buffer
  "\<lambda>s d. map_option snd (string_buffer_write16 ra s d)" sb_units error_status
  "\<lambda>s. sb_wf s \<and> sb_len s \<le> SB_LIMIT" "\<lambda>s. SB_LIMIT - sb_len s"
proof
  fix b :: string_buffer and d :: "u16 list"
  assume b: "sb_wf b \<and> sb_len b \<le> SB_LIMIT" "length d \<le> SB_LIMIT - sb_len b"
  then have "sb_len b + length d \<le> SB_LIMIT" by linarith
  then obtain r b' where "string_buffer_write16 ra b d = Some (r, b')" "appended ra b d r b'"
    using write16_appended[OF alloc_ok] b(1) by blast
  then show "\<exists>b'. map_option snd (string_buffer_write16 ra b d) = Some b' \<and> (sb_wf b' \<and> sb_len b' \<le> SB_LIMIT) \<and>
      SB_LIMIT - sb_len b \<le> SB_LIMIT - sb_len b' + length d \<and>
      (sb_units b' = sb_units b @ d \<and> error_status b' = error_status b \<or> error_status b')"
    using appended_len[of b ra d r b'] b by (auto simp: appended_def)
qed

definition string_realloc :: "realloc_func \<Rightarrow> malloc_state \<Rightarrow> realloc_func" where
  "string_realloc libc s p n =
     (case js_def_realloc libc s (map_option (\<lambda>b. replicate 16 0 @ b) p) (n + 16) of
        Some (Some m, _) \<Rightarrow> Some (drop 16 m)
      | _ \<Rightarrow> None)"

lemma string_realloc_libc:
  assumes "string_realloc libc s p n = Some m"
  shows "\<exists>b. libc (map_option (\<lambda>b. replicate 16 0 @ b) p) (n + 16) = Some b \<and> m = drop 16 b"
  using assms by (cases p)
    (auto simp: string_realloc_def js_def_realloc_def js_def_malloc_def Let_def split: if_splits option.splits)

lemma string_realloc_ok:
  assumes "alloc_ok libc"
  shows "alloc_ok (string_realloc libc s)"
  unfolding alloc_ok_def
proof (intro allI impI)
  fix p n m assume "string_realloc libc s p n = Some m"
  then obtain b where b: "libc (map_option (\<lambda>b. replicate 16 0 @ b) p) (n + 16) = Some b" "m = drop 16 b"
    using string_realloc_libc by blast
  note a = alloc_okD[OF assms b(1)]
  have "take k m = take k (bytes_of p)" if "k \<le> n" "k \<le> length (bytes_of p)" for k
  proof (cases p)
    case None
    then show ?thesis using that by simp
  next
    case (Some q)
    then have "take (k + 16) b = take (k + 16) (replicate 16 0 @ q)" using a(3)[of "k + 16"] that by simp
    then have "drop 16 (take (k + 16) b) = take k q" by simp
    then show ?thesis using Some b(2) by (simp add: drop_take)
  qed
  then show "n \<le> length m \<and> length m \<le> n + 4096 \<and> (\<forall>k\<le>n. k \<le> length (bytes_of p) \<longrightarrow> take k m = take k (bytes_of p))"
    using a(1,2) b(2) by auto
qed

interpretation js_strings: string_env "string_realloc example_libc \<lparr>malloc_count = 0, malloc_size = 0, malloc_limit = 2 ^ 64 - 1\<rparr>"
  by unfold_locales (rule string_realloc_ok[OF example_libc_ok])

end
