(* ===== verification/Js_String_Conv.thy ===== *)
theory Js_String_Conv
  imports Js_String_Build
begin

text \<open>
  Comparison, concatenation and substrings of the strings of \<^verbatim>\<open>quickjs.c\<close>, and their conversion
  from and to UTF-8. The conversion of other values to strings is a parameter of the callers;
  the operands here are strings. Concatenation may extend its first operand in place, so it works
  on a heap of strings with reference counts: address \<open>a\<close> is the entry \<open>a\<close> of the list,
  \<^const>\<open>None\<close> once it is freed.
\<close>

section \<open>Comparison\<close>

text \<open>The sign of \<^verbatim>\<open>memcmp\<close> is that of the difference of the first bytes that differ.\<close>

fun diff_loop :: "('a :: len) word list \<Rightarrow> ('b :: len) word list \<Rightarrow> int" where
  "diff_loop (a # as) (b # bs) = (let c = uint a - uint b in if c \<noteq> 0 then c else diff_loop as bs)"
| "diff_loop _ _ = 0"

definition memcmp16_8 :: "u16 list \<Rightarrow> u8 list \<Rightarrow> int" where
  "memcmp16_8 src1 src2 = diff_loop src1 src2"

definition memcmp16 :: "u16 list \<Rightarrow> u16 list \<Rightarrow> int" where
  "memcmp16 src1 src2 = diff_loop src1 src2"

definition js_string_memcmp :: "js_string \<Rightarrow> js_string \<Rightarrow> nat \<Rightarrow> int option" where
  "js_string_memcmp p1 p2 n =
     (if \<not> is_wide_char p1 then
        (if \<not> is_wide_char p2 then do {
           a \<leftarrow> read8 (str_u p1) 0 n; b \<leftarrow> read8 (str_u p2) 0 n; Some (diff_loop a b) }
         else do { a \<leftarrow> read16 (str_u p2) 0 n; b \<leftarrow> read8 (str_u p1) 0 n; Some (- memcmp16_8 a b) })
      else
        (if \<not> is_wide_char p2 then do { a \<leftarrow> read16 (str_u p1) 0 n; b \<leftarrow> read8 (str_u p2) 0 n; Some (memcmp16_8 a b) }
         else do { a \<leftarrow> read16 (str_u p1) 0 n; b \<leftarrow> read16 (str_u p2) 0 n; Some (memcmp16 a b) }))"

definition js_string_compare :: "js_string \<Rightarrow> js_string \<Rightarrow> int option" where
  "js_string_compare p1 p2 = do {
     let n = min (str_len p1) (str_len p2);
     res \<leftarrow> js_string_memcmp p1 p2 n;
     if res = 0 then
       Some (if str_len p1 = str_len p2 then 0 else if str_len p1 < str_len p2 then -1 else 1)
     else Some res }"

section \<open>Concatenation\<close>

type_synonym str_heap = "js_string option list"

definition js_free_string :: "str_heap \<Rightarrow> nat \<Rightarrow> str_heap option" where
  "js_free_string h a = do {
     s \<leftarrow> rd h a;
     str \<leftarrow> s;
     if ref_count str - 1 \<le> 0 then Some (h[a := None])
     else Some (h[a := Some (str\<lparr>ref_count := ref_count str - 1\<rparr>)]) }"

definition copy_str16 :: "u8 list \<Rightarrow> nat \<Rightarrow> js_string \<Rightarrow> nat \<Rightarrow> nat \<Rightarrow> u8 list option" where
  "copy_str16 dst at p offset n =
     (if is_wide_char p then do { cs \<leftarrow> read16 (str_u p) offset n; store16 dst at cs }
      else do { bs \<leftarrow> read8 (str_u p) offset n; store16 dst at (map ucast bs) })"

text \<open>A new string, or \<^const>\<open>None\<close> inside for the exception (too long, or out of memory).\<close>

definition JS_ConcatString1 :: "realloc_func \<Rightarrow> js_string \<Rightarrow> js_string \<Rightarrow> js_string option option" where
  "JS_ConcatString1 ra p1 p2 =
     (let n = str_len p1 + str_len p2 in
      if n > JS_STRING_LEN_MAX then Some None
      else
        (let w = (is_wide_char p1 \<or> is_wide_char p2) in
         case js_alloc_string ra n w of
           None \<Rightarrow> Some None
         | Some p \<Rightarrow>
             (if \<not> w then do {
                b1 \<leftarrow> read8 (str_u p1) 0 (str_len p1);
                m \<leftarrow> memcpy_at (str_u p) 0 b1;
                b2 \<leftarrow> read8 (str_u p2) 0 (str_len p2);
                m \<leftarrow> memcpy_at m (str_len p1) b2;
                m \<leftarrow> wr m n 0;
                Some (Some (p\<lparr>str_u := m\<rparr>)) }
              else do {
                m \<leftarrow> copy_str16 (str_u p) 0 p1 0 (str_len p1);
                m \<leftarrow> copy_str16 m (str_len p1) p2 0 (str_len p2);
                Some (Some (p\<lparr>str_u := m\<rparr>)) })))"

text \<open>The operands are references that the call consumes; the result is a new reference.\<close>

definition JS_ConcatString :: "realloc_func \<Rightarrow> str_heap \<Rightarrow> nat \<Rightarrow> nat \<Rightarrow> (nat option \<times> str_heap) option" where
  "JS_ConcatString ra h op1 op2 = do {
     s1 \<leftarrow> rd h op1; p1 \<leftarrow> s1;
     s2 \<leftarrow> rd h op2; p2 \<leftarrow> s2;
     let w = is_wide_char p1;
     if str_len p2 = 0 then do {
       h \<leftarrow> js_free_string h op2;
       Some (Some op1, h) }
     else if ref_count p1 = 1 \<and> is_wide_char p1 = is_wide_char p2 \<and>
        shl w (str_len p1 + str_len p2) + 1 - of_bool w \<le> length (str_u p1) then do {
       m \<leftarrow> (if w then do {
              cs \<leftarrow> read16 (str_u p2) 0 (str_len p2);
              store16 (str_u p1) (str_len p1) cs }
            else do {
              bs \<leftarrow> read8 (str_u p2) 0 (str_len p2);
              m \<leftarrow> memcpy_at (str_u p1) (str_len p1) bs;
              wr m (str_len p1 + str_len p2) 0 });
       let h = h[op1 := Some (p1\<lparr>str_len := str_len p1 + str_len p2, str_u := m\<rparr>)];
       h \<leftarrow> js_free_string h op2;
       Some (Some op1, h) }
     else do {
       ret \<leftarrow> JS_ConcatString1 ra p1 p2;
       let (r, h) = (case ret of None \<Rightarrow> (None, h) | Some p \<Rightarrow> (Some (length h), h @ [Some p]));
       h \<leftarrow> js_free_string h op1;
       h \<leftarrow> js_free_string h op2;
       Some (r, h) } }"

section \<open>UTF-8\<close>

definition is_cont :: "u8 \<Rightarrow> bool" where
  "is_cont b \<longleftrightarrow> 0x80 \<le> b \<and> b < 0xc0"

lemma unicode_to_utf8_not_Nil: "unat c < 2 ^ 31 \<Longrightarrow> unicode_to_utf8 c \<noteq> []"
  using unicode_to_utf8_eq[of c] by (simp add: Let_def split: if_splits)

lemma unicode_from_utf8_shorter: "unicode_from_utf8 p n = Some (c, Some r) \<Longrightarrow> length r < length p"
proof -
  assume "unicode_from_utf8 p n = Some (c, Some r)"
  then have c: "0 \<le> c" "c < 2 ^ 31" "p = unicode_to_utf8 (word_of_int c) @ r" using utf8_encode_decode by blast+
  have "unat (word_of_int c :: u32) = nat c" using c(1,2) by (simp add: unsigned_of_int take_bit_int_eq_self)
  then have "unicode_to_utf8 (word_of_int c) \<noteq> []" using c(1,2) by (intro unicode_to_utf8_not_Nil) (simp add: nat_less_iff)
  then show ?thesis using c(3) by (cases "unicode_to_utf8 (word_of_int c)") auto
qed

lemma skip_invalid_shorter:
  "length (case dropWhile is_cont (x # p) of [] \<Rightarrow> [] | _ # q \<Rightarrow> dropWhile is_cont q) < length (x # p)"
proof (cases "dropWhile is_cont (x # p)")
  case (Cons y q)
  then have "length (y # q) \<le> length (x # p)" by (metis length_dropWhile_le)
  moreover have "length (dropWhile is_cont q) \<le> length q" by (rule length_dropWhile_le)
  ultimately show ?thesis using Cons by simp
qed simp

function new_string_loop :: "realloc_func \<Rightarrow> string_buffer \<Rightarrow> u8 list \<Rightarrow> string_buffer option" where
  "new_string_loop ra b [] = Some b"
| "new_string_loop ra b (x # p) =
     (if x < 128 then do {
        (_, b) \<leftarrow> string_buffer_putc8 ra b (unat x);
        new_string_loop ra b p }
      else
        (case unicode_from_utf8 (x # p) (int (length (x # p))) of
           None \<Rightarrow> None
         | Some (c, Some p_next) \<Rightarrow>
             (if c < 0x10000 then do {
                (_, b) \<leftarrow> string_buffer_putc16 ra b (nat c);
                new_string_loop ra b p_next }
              else if c \<le> 0x10FFFF then do {
                let c = nat c - 0x10000;
                (_, b) \<leftarrow> string_buffer_putc16 ra b (drop_bit 10 c + 0xd800);
                (_, b) \<leftarrow> string_buffer_putc16 ra b ((c AND 0x3ff) + 0xdc00);
                new_string_loop ra b p_next }
              else do {
                let q = dropWhile is_cont (x # p);
                let q = (case q of [] \<Rightarrow> [] | _ # q \<Rightarrow> dropWhile is_cont q);
                (_, b) \<leftarrow> string_buffer_putc16 ra b 0xfffd;
                new_string_loop ra b q })
         | Some (_, None) \<Rightarrow> do {
             let q = dropWhile is_cont (x # p);
             let q = (case q of [] \<Rightarrow> [] | _ # q \<Rightarrow> dropWhile is_cont q);
             (_, b) \<leftarrow> string_buffer_putc16 ra b 0xfffd;
             new_string_loop ra b q }))"
  by pat_completeness auto

termination
  by (relation "measure (\<lambda>(ra, b, p). length p)")
    (use skip_invalid_shorter unicode_from_utf8_shorter in \<open>fastforce+\<close>)

definition JS_NewStringLen :: "realloc_func \<Rightarrow> u8 list \<Rightarrow> js_string option option" where
  "JS_NewStringLen ra p =
     (let ascii = takeWhile (\<lambda>c. c < 128) p in
      if length ascii > JS_STRING_LEN_MAX then Some None
      else if ascii = p then js_new_string8 ra p
      else
        (let (r, b) = string_buffer_init ra (length p) in
         if r \<noteq> 0 then Some None
         else do {
           (_, b) \<leftarrow> string_buffer_write8 ra b ascii;
           b \<leftarrow> new_string_loop ra b (drop (length ascii) p);
           string_buffer_end ra b }))"

text \<open>The bytes that \<^verbatim>\<open>JS_ToCStringLen2\<close> stores for a narrow and for a wide string.\<close>

fun cstr8 :: "u8 list \<Rightarrow> u8 list" where
  "cstr8 [] = []"
| "cstr8 (c # cs) = (if c < 0x80 then c # cstr8 cs else (drop_bit 6 c OR 0xc0) # ((c AND 0x3f) OR 0x80) # cstr8 cs)"

definition surrogate_pair :: "u16 \<Rightarrow> u16 \<Rightarrow> u32" where
  "surrogate_pair c c1 = (push_bit 10 (ucast c AND 0x3ff) OR (ucast c1 AND 0x3ff)) + 0x10000"

fun cstr16 :: "bool \<Rightarrow> u16 list \<Rightarrow> u8 list" where
  "cstr16 cesu8 [] = []"
| "cstr16 cesu8 (c # cs) =
     (if c < 0x80 then ucast c # cstr16 cesu8 cs
      else if 0xd800 \<le> c \<and> c < 0xdc00 \<and> \<not> cesu8 then
        (case cs of
           c1 # cs' \<Rightarrow>
             (if 0xdc00 \<le> c1 \<and> c1 < 0xe000
              then unicode_to_utf8 (surrogate_pair c c1) @ cstr16 cesu8 cs'
              else unicode_to_utf8 (ucast c) @ cstr16 cesu8 cs)
         | [] \<Rightarrow> unicode_to_utf8 (ucast c))
      else unicode_to_utf8 (ucast c) @ cstr16 cesu8 cs)"

text \<open>The result is the text without its terminating zero; \<^const>\<open>None\<close> inside is the failed allocation.\<close>

definition JS_ToCStringLen2 :: "realloc_func \<Rightarrow> js_string \<Rightarrow> bool \<Rightarrow> u8 list option option" where
  "JS_ToCStringLen2 ra str cesu8 =
     (if \<not> is_wide_char str then do {
        src \<leftarrow> read8 (str_u str) 0 (str_len str);
        let cnt = sum_list (map (\<lambda>c. unat (drop_bit 7 c)) src);
        if cnt = 0 then Some (Some src)
        else case js_alloc_string ra (str_len str + cnt) False of
            None \<Rightarrow> Some None
          | Some str_new \<Rightarrow> do {
              m \<leftarrow> memcpy_at (str_u str_new) 0 (cstr8 src @ [0]);
              Some (Some (take (length (cstr8 src)) m)) } }
      else do {
        src \<leftarrow> read16 (str_u str) 0 (str_len str);
        n \<leftarrow> int_range (str_len str * 3);
        case js_alloc_string ra n False of
          None \<Rightarrow> Some None
        | Some str_new \<Rightarrow> do {
            m \<leftarrow> memcpy_at (str_u str_new) 0 (cstr16 cesu8 src @ [0]);
            Some (Some (take (length (cstr16 cesu8 src)) m)) } })"

definition JS_ConcatString3 :: "realloc_func \<Rightarrow> u8 list \<Rightarrow> js_string \<Rightarrow> u8 list \<Rightarrow> js_string option option" where
  "JS_ConcatString3 ra str1 p str3 =
     (let (r, b) = string_buffer_init2 ra (length str1 + str_len p + length str3) (is_wide_char p) in
      if r \<noteq> 0 then Some None
      else do {
        (_, b) \<leftarrow> string_buffer_write8 ra b str1;
        (_, b) \<leftarrow> string_buffer_concat ra b p 0 (str_len p);
        (_, b) \<leftarrow> string_buffer_write8 ra b str3;
        string_buffer_end ra b })"

section \<open>Comparison is the order of the units\<close>

lemma diff_loop_ucast [simp]:
  "diff_loop (map ucast (a :: u8 list) :: u16 list) bs = diff_loop a bs"
  "diff_loop bs (map ucast (a :: u8 list) :: u16 list) = diff_loop bs a"
proof -
  have u: "uint (ucast (x :: u8) :: u16) = uint x" for x
    using uint_lt2p[of x] by (simp add: unsigned_ucast_eq take_bit_int_eq_self)
  show "diff_loop (map ucast a :: u16 list) bs = diff_loop a bs"
    by (induction a bs rule: diff_loop.induct) (simp_all add: u Let_def)
  show "diff_loop bs (map ucast a :: u16 list) = diff_loop bs a"
    by (induction bs a rule: diff_loop.induct) (simp_all add: u Let_def)
qed

lemma diff_loop_swap: "diff_loop b a = - diff_loop a b"
  by (induction a b rule: diff_loop.induct) (simp_all add: Let_def)

lemma diff_loop_take: "diff_loop (take (min (length a) (length b)) a) (take (min (length a) (length b)) b) = diff_loop a b"
  by (induction a b rule: diff_loop.induct) (simp_all add: Let_def)

definition units_cmp :: "u16 list \<Rightarrow> u16 list \<Rightarrow> int" where
  "units_cmp a b =
     (let d = diff_loop a b in
      if d = 0 then (if length a = length b then 0 else if length a < length b then -1 else 1) else d)"

lemma units_cmp_Nil:
  "(units_cmp [] b < 0 \<longleftrightarrow> ord_class.lexordp [] b) \<and> (units_cmp [] b = 0 \<longleftrightarrow> [] = b)"
  "(units_cmp a [] < 0 \<longleftrightarrow> ord_class.lexordp a []) \<and> (units_cmp a [] = 0 \<longleftrightarrow> a = [])"
  by (cases b; simp add: units_cmp_def) (cases a; simp add: units_cmp_def)

lemma units_cmp_order: "(units_cmp a b < 0 \<longleftrightarrow> ord_class.lexordp a b) \<and> (units_cmp a b = 0 \<longleftrightarrow> a = b)"
proof (induction a b rule: diff_loop.induct)
  case (1 x a y b)
  have e: "uint x - uint y = 0 \<longleftrightarrow> x = y" "uint x - uint y < 0 \<longleftrightarrow> x < y"
    by (auto simp: word_less_def word_uint_eq_iff)
  show ?case
  proof (cases "x = y")
    case True
    then have "units_cmp (x # a) (y # b) = units_cmp a b" by (simp add: units_cmp_def Let_def)
    then show ?thesis using 1 True by simp
  next
    case False
    then have "units_cmp (x # a) (y # b) = uint x - uint y" using e(1) by (simp add: units_cmp_def Let_def)
    then show ?thesis using e False linorder_less_linear[of x y] by auto
  qed
qed (rule units_cmp_Nil)+

lemma js_string_memcmp_units:
  assumes p: "str_wf p1" "str_wf p2" and n: "n \<le> str_len p1" "n \<le> str_len p2"
  shows "js_string_memcmp p1 p2 n = Some (diff_loop (take n (str_units p1)) (take n (str_units p2)))"
proof -
  have w: "read16 (str_u p) 0 n = Some (take n (str_units p))" if "str_wf p" "n \<le> str_len p" "is_wide_char p" for p
    using read_units(1)[OF that(1) le0 that(2,3)] by (simp add: sub_units_def)
  have b: "\<exists>bs. read8 (str_u p) 0 n = Some bs \<and> take n (str_units p) = map ucast bs" if "str_wf p" "n \<le> str_len p" "\<not> is_wide_char p" for p
    using read_units(2)[OF that(1) le0 that(2,3)] by (auto simp: sub_units_def)
  show ?thesis
    using w[OF p(1) n(1)] w[OF p(2) n(2)] b[OF p(1) n(1)] b[OF p(2) n(2)]
    by (cases "is_wide_char p1"; cases "is_wide_char p2") (auto simp: js_string_memcmp_def memcmp16_8_def memcmp16_def intro: diff_loop_swap[symmetric])
qed

lemma js_string_compare_units:
  assumes "str_wf p1" "str_wf p2"
  shows "js_string_compare p1 p2 = Some (units_cmp (str_units p1) (str_units p2))"
  using js_string_memcmp_units[OF assms, of "min (str_len p1) (str_len p2)"] str_units_length[OF assms(1)] str_units_length[OF assms(2)]
    diff_loop_take[of "str_units p1" "str_units p2"]
  by (auto simp: js_string_compare_def units_cmp_def Let_def)

text \<open>
  C36. Comparing strings is comparing their units in lexicographic order, in each of the four
  combinations of narrow and wide strings: the result is negative, zero or positive as the first is
  before, equal to or behind the second. No comparison reads behind a string.
\<close>

theorem js_string_compare_correct:
  assumes "str_wf p1" "str_wf p2"
  shows "\<exists>r. js_string_compare p1 p2 = Some r \<and> (r < 0 \<longleftrightarrow> ord_class.lexordp (str_units p1) (str_units p2)) \<and>
    (r = 0 \<longleftrightarrow> str_units p1 = str_units p2)"
  using js_string_compare_units[OF assms] units_cmp_order by simp

definition example_narrow :: js_string where
  "example_narrow = \<lparr>ref_count = 1, str_len = 1, is_wide_char = False, str_u = [97, 0]\<rparr>"

definition example_wide :: js_string where
  "example_wide = \<lparr>ref_count = 1, str_len = 2, is_wide_char = True, str_u = [97, 0, 1, 1]\<rparr>"

theorem js_string_compare_correct_witness:
  "\<exists>r. js_string_compare example_narrow example_wide = Some r \<and>
    (r < 0 \<longleftrightarrow> ord_class.lexordp (str_units example_narrow) (str_units example_wide)) \<and>
    (r = 0 \<longleftrightarrow> str_units example_narrow = str_units example_wide)"
  by (rule js_string_compare_correct) (simp_all add: example_narrow_def example_wide_def str_wf_def)

section \<open>Substrings\<close>

lemma alloc_string_cases:
  assumes "alloc_ok ra"
  shows "js_alloc_string ra n w = None \<and> alloc_fails ra \<or>
    (\<exists>m. js_alloc_string ra n w = Some \<lparr>ref_count = 1, str_len = n, is_wide_char = w, str_u = m\<rparr> \<and>
       shl w n + of_bool (\<not> w) \<le> length m)"
proof (cases "ra None (shl w n + 1 - of_bool w)")
  case None
  then show ?thesis using alloc_failsI[of ra, OF None] by (simp add: js_alloc_string_def)
next
  case (Some m)
  then show ?thesis using alloc_okD(1)[OF assms Some] by (cases w) (simp_all add: js_alloc_string_def)
qed

lemma narrow_string:
  assumes "length bs + 1 \<le> length m"
  shows "\<exists>m'. Option.bind (memcpy_at m 0 bs) (\<lambda>m. wr m (length bs) 0) = Some m' \<and> length m' = length m \<and>
    units False m' (length bs) = map ucast bs"
  using assms by (auto simp: memcpy_at_def wr_def units_def)

text \<open>The string constructors: the units, or the exception of a failed allocation.\<close>

definition makes :: "realloc_func \<Rightarrow> js_string option option \<Rightarrow> u16 list \<Rightarrow> bool" where
  "makes ra res cs \<longleftrightarrow> res = Some None \<and> alloc_fails ra \<or> (\<exists>p. res = Some (Some p) \<and> str_wf p \<and> str_units p = cs)"

lemma makes_narrow:
  assumes "alloc_ok ra"
  shows "makes ra (case js_alloc_string ra (length bs) False of
          None \<Rightarrow> Some None
        | Some str \<Rightarrow> do {
            m \<leftarrow> memcpy_at (str_u str) 0 bs;
            m \<leftarrow> wr m (length bs) 0;
            Some (Some (str\<lparr>str_u := m\<rparr>)) }) (map ucast bs)"
  using alloc_string_cases[OF assms, of "length bs" False]
proof (elim disjE exE conjE)
  fix m assume m: "js_alloc_string ra (length bs) False = Some \<lparr>ref_count = 1, str_len = length bs, is_wide_char = False, str_u = m\<rparr>"
    "shl False (length bs) + of_bool (\<not> False) \<le> length m"
  have "length bs + 1 \<le> length m" using m(2) by simp
  from narrow_string[OF this] obtain m1 m2 where "memcpy_at m 0 bs = Some m1" "wr m1 (length bs) 0 = Some m2" "length m2 = length m"
    "units False m2 (length bs) = map ucast bs" by (auto simp: bind_eq_Some_conv)
  then show ?thesis using m by (simp add: makes_def str_wf_def str_units_def)
qed (simp add: makes_def)

lemma makes_string8: "alloc_ok ra \<Longrightarrow> makes ra (js_new_string8 ra bs) (map ucast bs)"
  using makes_narrow[of ra bs] by (simp add: js_new_string8_def makes_def)

lemma makes_string16:
  assumes "alloc_ok ra"
  shows "makes ra (js_new_string16 ra cs) cs"
  using alloc_string_cases[OF assms, of "length cs" True]
proof (elim disjE exE conjE)
  fix m assume m: "js_alloc_string ra (length cs) True = Some \<lparr>ref_count = 1, str_len = length cs, is_wide_char = True, str_u = m\<rparr>"
    "shl True (length cs) + of_bool (\<not> True) \<le> length m"
  then obtain m' where "store16 m 0 cs = Some m'" "length m' = length m" "units True m' (length cs) = cs"
    using store16_units[of 0 cs m] by auto
  then show ?thesis using m by (simp add: makes_def js_new_string16_def str_wf_def str_units_def)
qed (simp add: makes_def js_new_string16_def)

lemma unat_255: "\<not> (0xff :: u16) < c \<Longrightarrow> unat c < 256"
  by (simp add: word_less_nat_alt)

lemma makes_sub_wide:
  assumes "alloc_ok ra" "str_wf p" "start \<le> ende" "ende \<le> str_len p"
    and wide: "\<not> (start = 0 \<and> ende = str_len p)" "start < ende" "is_wide_char p"
  shows "makes ra (js_sub_string ra p start ende) (drop start (take ende (str_units p)))"
proof -
  define cs where "cs = drop start (take ende (str_units p))"
  have r: "read16 (str_u p) start (ende - start) = Some cs" "length cs = ende - start"
    using read_units(1)[OF assms(2) assms(3,4) wide(3)] str_units_length[OF assms(2)] assms(4) by (simp_all add: cs_def sub_units_def)
  have e: "js_sub_string ra p start ende = (if 0xff < foldl (OR) 0 cs then js_new_string16 ra cs
      else case js_alloc_string ra (length (map ucast cs :: u8 list)) False of
        None \<Rightarrow> Some None
      | Some str \<Rightarrow> do {
          m \<leftarrow> memcpy_at (str_u str) 0 (map ucast cs);
          m \<leftarrow> wr m (length (map ucast cs :: u8 list)) 0;
          Some (Some (str\<lparr>str_u := m\<rparr>)) })"
    using wide unfolding js_sub_string_def Let_def r(1) length_map r(2) by auto
  show ?thesis
  proof (cases "0xff < foldl (OR) 0 cs")
    case True
    then show ?thesis using e makes_string16[OF assms(1), of cs] by (simp add: cs_def)
  next
    case False
    then have "map ucast (map ucast cs :: u8 list) = cs" using map_ucast_narrow unat_255 by blast
    then show ?thesis using makes_narrow[OF assms(1), of "map ucast cs"] e False by (simp add: cs_def)
  qed
qed

text \<open>
  A substring has the units between its bounds, for every range inside the string and also
  when the units of a wide string are copied into a narrow one; the only failure is that of the
  allocator.
\<close>

theorem js_sub_string_correct:
  assumes "alloc_ok ra" "str_wf p" "start \<le> ende" "ende \<le> str_len p"
  shows "js_sub_string ra p start ende = Some None \<and> alloc_fails ra \<or>
    (\<exists>q. js_sub_string ra p start ende = Some (Some q) \<and> str_wf q \<and>
       str_units q = drop start (take ende (str_units p)))"
proof -
  consider (all) "start = 0 \<and> ende = str_len p" | (empty) "\<not> (start = 0 \<and> ende = str_len p)" "start = ende"
    | (wide) "\<not> (start = 0 \<and> ende = str_len p)" "start < ende" "is_wide_char p"
    | (narrow) "\<not> (start = 0 \<and> ende = str_len p)" "start < ende" "\<not> is_wide_char p" using assms(3) by linarith
  then have "makes ra (js_sub_string ra p start ende) (drop start (take ende (str_units p)))"
  proof cases
    case all
    then show ?thesis using assms(2) str_units_length[OF assms(2)]
      by (simp add: js_sub_string_def makes_def str_wf_def str_units_def)
  next
    case empty
    then show ?thesis using makes_string8[OF assms(1), of "[]"] by (auto simp: js_sub_string_def)
  next
    case wide
    then show ?thesis by (rule makes_sub_wide[OF assms])
  next
    case narrow
    then obtain bs where "read8 (str_u p) start (ende - start) = Some bs" "map ucast bs = drop start (take ende (str_units p))"
      using read_units(2)[OF assms(2) assms(3,4)] by (auto simp: sub_units_def)
    then show ?thesis using makes_string8[OF assms(1), of bs] narrow by (auto simp: js_sub_string_def)
  qed
  then show ?thesis by (simp add: makes_def)
qed

theorem js_sub_string_correct_witness:
  "js_sub_string example_libc example_wide 0 1 = Some None \<and> alloc_fails example_libc \<or>
    (\<exists>q. js_sub_string example_libc example_wide 0 1 = Some (Some q) \<and> str_wf q \<and>
       str_units q = drop 0 (take 1 (str_units example_wide)))"
  by (rule js_sub_string_correct) (simp_all add: example_libc_ok example_wide_def str_wf_def)

section \<open>Concatenation\<close>

lemma read_all:
  assumes "str_wf p"
  shows "is_wide_char p \<Longrightarrow> read16 (str_u p) 0 (str_len p) = Some (str_units p)"
    "\<not> is_wide_char p \<Longrightarrow> \<exists>bs. read8 (str_u p) 0 (str_len p) = Some bs \<and> map ucast bs = str_units p \<and> length bs = str_len p"
  using read_units[OF assms, of 0 "str_len p"] str_units_length[OF assms] by (auto simp: sub_units_def)

lemma copy_str16_units:
  assumes "str_wf p" "2 * (at + str_len p) \<le> length dst"
  shows "\<exists>m. copy_str16 dst at p 0 (str_len p) = Some m \<and> length m = length dst \<and> units True m (at + str_len p) = units True dst at @ str_units p"
proof -
  have l: "length (str_units p) = str_len p" by (rule str_units_length[OF assms(1)])
  have "copy_str16 dst at p 0 (str_len p) = store16 dst at (str_units p)"
    using read_all[OF assms(1)] by (cases "is_wide_char p") (auto simp: copy_str16_def)
  then show ?thesis using store16_units[of at "str_units p" dst] assms(2) l by auto
qed

lemma makes_concat1:
  assumes "alloc_ok ra" "str_wf p1" "str_wf p2" "str_len p1 + str_len p2 \<le> JS_STRING_LEN_MAX"
  shows "makes ra (JS_ConcatString1 ra p1 p2) (str_units p1 @ str_units p2)"
proof -
  let ?n = "str_len p1 + str_len p2" and ?w = "is_wide_char p1 \<or> is_wide_char p2"
  from alloc_string_cases[OF assms(1), of ?n ?w] show ?thesis
  proof (elim disjE exE conjE)
    assume "js_alloc_string ra ?n ?w = None" "alloc_fails ra"
    then show ?thesis using assms(4) by (simp add: makes_def JS_ConcatString1_def Let_def)
  next
    fix m assume m: "js_alloc_string ra ?n ?w = Some \<lparr>ref_count = 1, str_len = ?n, is_wide_char = ?w, str_u = m\<rparr>"
      "shl ?w ?n + of_bool (\<not> ?w) \<le> length m"
    show ?thesis
    proof (cases ?w)
      case True
      then have l: "2 * ?n \<le> length m" using m(2) by simp
      obtain m1 where m1: "copy_str16 m 0 p1 0 (str_len p1) = Some m1" "length m1 = length m" "units True m1 (str_len p1) = str_units p1"
        using copy_str16_units[OF assms(2), of 0 m] l by auto
      obtain m2 where "copy_str16 m1 (str_len p1) p2 0 (str_len p2) = Some m2" "length m2 = length m"
          "units True m2 ?n = str_units p1 @ str_units p2"
        using copy_str16_units[OF assms(3), of "str_len p1" m1] l m1 by auto
      then show ?thesis using True m m1 assms(4) l by (simp add: makes_def JS_ConcatString1_def Let_def str_wf_def str_units_def)
    next
      case False
      then have l: "?n + 1 \<le> length m" using m(2) by simp
      obtain b1 where b1: "read8 (str_u p1) 0 (str_len p1) = Some b1" "map ucast b1 = str_units p1" "length b1 = str_len p1"
        using read_all(2)[OF assms(2)] False by auto
      obtain b2 where b2: "read8 (str_u p2) 0 (str_len p2) = Some b2" "map ucast b2 = str_units p2" "length b2 = str_len p2"
        using read_all(2)[OF assms(3)] False by auto
      obtain m1 where m1: "memcpy_at m 0 b1 = Some m1" "length m1 = length m" "units False m1 (str_len p1) = str_units p1"
        using memcpy_units[of 0 b1 m] b1 l by auto
      obtain m2 where m2: "memcpy_at m1 (str_len p1) b2 = Some m2" "length m2 = length m" "units False m2 ?n = str_units p1 @ str_units p2"
        using memcpy_units[of "str_len p1" b2 m1] b2 m1 l by auto
      have "wr m2 ?n 0 = Some (m2[?n := 0])" "units False (m2[?n := 0]) ?n = units False m2 ?n"
        using l m2(2) by (simp_all add: wr_def units_def)
      then show ?thesis using False m b1(1) b2(1) m1(1) m2 assms(4) l
        by (simp add: makes_def JS_ConcatString1_def Let_def str_wf_def str_units_def)
    qed
  qed
qed

definition drop_ref :: "js_string option \<Rightarrow> js_string option" where
  "drop_ref x = (case x of None \<Rightarrow> None
     | Some p \<Rightarrow> if ref_count p - 1 \<le> 0 then None else Some (p\<lparr>ref_count := ref_count p - 1\<rparr>))"

lemma js_free_string_eq:
  "a < length h \<Longrightarrow> h ! a \<noteq> None \<Longrightarrow> js_free_string h a = Some (h[a := drop_ref (h ! a)])"
  by (auto simp: js_free_string_def rd_def drop_ref_def)

definition heap_ok :: "str_heap \<Rightarrow> bool" where
  "heap_ok h \<longleftrightarrow> (\<forall>a p. a < length h \<and> h ! a = Some p \<longrightarrow> str_wf p \<and> 1 \<le> ref_count p)"

lemma str_units_ref [simp]: "str_units (p\<lparr>ref_count := k\<rparr>) = str_units p" "str_wf (p\<lparr>ref_count := k\<rparr>) = str_wf p"
  by (simp_all add: str_units_def str_wf_def)

lemma heap_ok_drop: "heap_ok h \<Longrightarrow> a < length h \<Longrightarrow> heap_ok (h[a := drop_ref (h ! a)])"
  by (fastforce simp: heap_ok_def nth_list_update drop_ref_def split: option.splits if_splits)

lemma heap_ok_update: "heap_ok h \<Longrightarrow> str_wf p \<Longrightarrow> 1 \<le> ref_count p \<Longrightarrow> heap_ok (h[a := Some p])"
  by (cases "a < length h") (auto simp: heap_ok_def nth_list_update split: if_splits)

lemma heap_ok_snoc: "heap_ok h \<Longrightarrow> str_wf p \<Longrightarrow> 1 \<le> ref_count p \<Longrightarrow> heap_ok (h @ [Some p])"
  by (auto simp: heap_ok_def nth_append split: if_splits)

text \<open>The strings of other references: their counts and units after the operands are consumed.\<close>

definition others_kept :: "str_heap \<Rightarrow> str_heap \<Rightarrow> nat \<Rightarrow> nat \<Rightarrow> nat option \<Rightarrow> bool" where
  "others_kept h h' op1 op2 r \<longleftrightarrow>
     (\<forall>a p. a < length h \<and> h ! a = Some p \<longrightarrow>
       (let used = ref_count p - of_bool (a = op1) - of_bool (a = op2); k = used + of_bool (r = Some a) in
        if 1 \<le> k then \<exists>p'. h' ! a = Some p' \<and> ref_count p' = k \<and> (1 \<le> used \<longrightarrow> str_units p' = str_units p)
        else h' ! a = None))"

lemma concat_in_place:
  assumes p: "str_wf p1" "str_wf p2" "is_wide_char p1 = is_wide_char p2"
    and room: "shl (is_wide_char p1) (str_len p1 + str_len p2) + 1 - of_bool (is_wide_char p1) \<le> length (str_u p1)"
  shows "\<exists>m. (if is_wide_char p1 then do { cs \<leftarrow> read16 (str_u p2) 0 (str_len p2); store16 (str_u p1) (str_len p1) cs }
      else do { bs \<leftarrow> read8 (str_u p2) 0 (str_len p2); m \<leftarrow> memcpy_at (str_u p1) (str_len p1) bs; wr m (str_len p1 + str_len p2) 0 }) = Some m \<and>
    str_wf (p1\<lparr>str_len := str_len p1 + str_len p2, str_u := m\<rparr>) \<and>
    str_units (p1\<lparr>str_len := str_len p1 + str_len p2, str_u := m\<rparr>) = str_units p1 @ str_units p2"
proof (cases "is_wide_char p1")
  case True
  then obtain m where "store16 (str_u p1) (str_len p1) (str_units p2) = Some m" "length m = length (str_u p1)"
      "units True m (str_len p1 + str_len p2) = units True (str_u p1) (str_len p1) @ str_units p2"
    using store16_units[of "str_len p1" "str_units p2" "str_u p1"] room str_units_length[OF p(2)] by auto
  then show ?thesis using True p(3) read_all(1)[OF p(2)] room by (simp add: str_wf_def str_units_def)
next
  case False
  then obtain bs where bs: "read8 (str_u p2) 0 (str_len p2) = Some bs" "map ucast bs = str_units p2" "length bs = str_len p2"
    using read_all(2)[OF p(2)] p(3) by auto
  obtain m where m: "memcpy_at (str_u p1) (str_len p1) bs = Some m" "length m = length (str_u p1)"
      "units False m (str_len p1 + str_len p2) = units False (str_u p1) (str_len p1) @ str_units p2"
    using memcpy_units[of "str_len p1" bs "str_u p1"] room False bs by auto
  let ?n = "str_len p1 + str_len p2"
  have "wr m ?n 0 = Some (m[?n := 0])" "units False (m[?n := 0]) ?n = units False m ?n"
    using room False m(2) by (simp_all add: wr_def units_def)
  then show ?thesis using False bs(1) m room by (simp add: str_wf_def str_units_def)
qed

lemma free_both:
  assumes "op1 < length h" "op2 < length h" "h ! op1 = Some p1" "h ! op2 = Some p2" "op1 = op2 \<Longrightarrow> 2 \<le> ref_count p1"
  shows "Option.bind (js_free_string h op1) (\<lambda>h. js_free_string h op2) =
    Some (h[op1 := drop_ref (h ! op1), op2 := drop_ref (h[op1 := drop_ref (h ! op1)] ! op2)])"
proof -
  have "js_free_string h op1 = Some (h[op1 := drop_ref (h ! op1)])" using assms by (intro js_free_string_eq) auto
  moreover have "h[op1 := drop_ref (h ! op1)] ! op2 \<noteq> None"
    using assms by (cases "op1 = op2") (auto simp: drop_ref_def)
  ultimately show ?thesis using assms(1,2) by (simp add: js_free_string_eq)
qed

lemma others_free:
  assumes h: "heap_ok h" "op1 < length h" "op2 < length h" "h ! op1 = Some p1" "op1 = op2 \<longrightarrow> 2 \<le> ref_count p1"
    and h2: "length h \<le> length h2" "\<And>a. a < length h \<Longrightarrow> h2 ! a = h ! a" and r: "\<And>a. r = Some a \<Longrightarrow> length h \<le> a"
  shows "others_kept h (h2[op1 := drop_ref (h2 ! op1), op2 := drop_ref (h2[op1 := drop_ref (h2 ! op1)] ! op2)]) op1 op2 r"
proof -
  have r': "of_bool (r = Some a) = (0 :: int)" if "a < length h" for a using r[of a] that by auto
  have l: "op1 < length h2" "op2 < length h2" using h(2,3) h2(1) by auto
  have rc: "1 \<le> ref_count q" if "a < length h" "h ! a = Some q" for a q using h(1) that by (auto simp: heap_ok_def)
  show ?thesis
    unfolding others_kept_def
  proof (intro allI impI, elim conjE)
    fix a q assume a: "a < length h" "h ! a = Some q"
    show "let used = ref_count q - of_bool (a = op1) - of_bool (a = op2); k = used + of_bool (r = Some a) in
        if 1 \<le> k then \<exists>p'. h2[op1 := drop_ref (h2 ! op1), op2 := drop_ref (h2[op1 := drop_ref (h2 ! op1)] ! op2)] ! a = Some p' \<and>
            ref_count p' = k \<and> (1 \<le> used \<longrightarrow> str_units p' = str_units q)
        else h2[op1 := drop_ref (h2 ! op1), op2 := drop_ref (h2[op1 := drop_ref (h2 ! op1)] ! op2)] ! a = None"
      using a rc[OF a] l h(4,5) h2(2)[OF a(1)] h2(2)[OF h(2)] h2(2)[OF h(3)] r'[OF a(1)]
      by (cases "a = op1"; cases "a = op2") (auto simp: Let_def drop_ref_def)
  qed
qed

lemma concat1_ref: "JS_ConcatString1 ra p1 p2 = Some (Some p) \<Longrightarrow> ref_count p = 1"
  by (auto simp: JS_ConcatString1_def js_alloc_string_def Let_def bind_eq_Some_conv split: if_splits option.splits)

definition concat_ok :: "realloc_func \<Rightarrow> str_heap \<Rightarrow> nat \<Rightarrow> nat \<Rightarrow> u16 list \<Rightarrow> bool" where
  "concat_ok ra h op1 op2 us \<longleftrightarrow>
     (\<exists>r h'. JS_ConcatString ra h op1 op2 = Some (r, h') \<and> heap_ok h' \<and> others_kept h h' op1 op2 r \<and>
       (case r of None \<Rightarrow> alloc_fails ra | Some a \<Rightarrow> \<exists>p. a < length h' \<and> h' ! a = Some p \<and> str_units p = us))"

lemma concat_operands:
  assumes "heap_ok h" "op1 < length h" "h ! op1 = Some p1" "op2 < length h" "h ! op2 = Some p2"
  shows "str_wf p1" "str_wf p2" "1 \<le> ref_count p1" "1 \<le> ref_count p2"
  using assms by (auto simp: heap_ok_def)

lemma concat_empty:
  assumes "alloc_ok ra" "heap_ok h"
    and "op1 < length h" "h ! op1 = Some p1" "op2 < length h" "h ! op2 = Some p2"
    and "op1 = op2 \<longrightarrow> 2 \<le> ref_count p1" "str_len p1 + str_len p2 \<le> JS_STRING_LEN_MAX"
    and empty: "str_len p2 = 0"
  shows "concat_ok ra h op1 op2 (str_units p1 @ str_units p2)"
proof -
  from empty have u: "str_units p2 = []" by (simp add: str_units_def)
  let ?h = "h[op2 := drop_ref (h ! op2)]"
  have "JS_ConcatString ra h op1 op2 = Some (Some op1, ?h)"
    using assms(3-6) empty js_free_string_eq[of op2 h] by (simp add: JS_ConcatString_def rd_def)
  moreover have "heap_ok ?h" by (rule heap_ok_drop[OF assms(2,5)])
  moreover have "others_kept h ?h op1 op2 (Some op1)"
    using assms(2,5) by (auto simp: others_kept_def Let_def nth_list_update drop_ref_def heap_ok_def)
  moreover have "\<exists>p. op1 < length ?h \<and> ?h ! op1 = Some p \<and> str_units p = str_units p1 @ str_units p2"
    using assms(3-7) u by (auto simp: nth_list_update drop_ref_def)
  ultimately show ?thesis unfolding concat_ok_def by auto
qed

lemma concat_extend:
  assumes "alloc_ok ra" "heap_ok h"
    and "op1 < length h" "h ! op1 = Some p1" "op2 < length h" "h ! op2 = Some p2"
    and "op1 = op2 \<longrightarrow> 2 \<le> ref_count p1" "str_len p1 + str_len p2 \<le> JS_STRING_LEN_MAX"
    and in_place: "str_len p2 \<noteq> 0" "ref_count p1 = 1 \<and> is_wide_char p1 = is_wide_char p2 \<and> shl (is_wide_char p1) (str_len p1 + str_len p2) + 1 - of_bool (is_wide_char p1) \<le> length (str_u p1)"
  shows "concat_ok ra h op1 op2 (str_units p1 @ str_units p2)"
proof -
  let ?w = "is_wide_char p1" and ?n = "str_len p1 + str_len p2"
  note p = concat_operands[OF assms(2-6)]
  have ne: "op1 \<noteq> op2" using assms(7) in_place(2) by auto
  obtain m where m: "(if ?w then do { cs \<leftarrow> read16 (str_u p2) 0 (str_len p2); store16 (str_u p1) (str_len p1) cs }
    else do { bs \<leftarrow> read8 (str_u p2) 0 (str_len p2); m \<leftarrow> memcpy_at (str_u p1) (str_len p1) bs; wr m ?n 0 }) = Some m"
    "str_wf (p1\<lparr>str_len := ?n, str_u := m\<rparr>)" "str_units (p1\<lparr>str_len := ?n, str_u := m\<rparr>) = str_units p1 @ str_units p2"
    using concat_in_place[OF p(1,2)] in_place(2) by auto
  define q where "q = p1\<lparr>str_len := ?n, str_u := m\<rparr>"
  let ?h = "h[op1 := Some q, op2 := drop_ref (h ! op2)]"
  have free: "js_free_string (h[op1 := Some q]) op2 = Some ?h"
    using js_free_string_eq[of op2 "h[op1 := Some q]"] ne assms(5,6) by simp
  have "JS_ConcatString ra h op1 op2 = Some (Some op1, ?h)"
    unfolding JS_ConcatString_def rd_Some[OF assms(3)] rd_Some[OF assms(5)] assms(4,6) bind.bind_lunit Let_def
      if_P[OF in_place(2)] m(1) q_def[symmetric] free using in_place(1) by simp
  moreover have "heap_ok (h[op1 := Some q])"
    using heap_ok_update[OF assms(2)] m(2) p(3) by (simp add: q_def)
  then have "heap_ok ?h" using heap_ok_drop[of "h[op1 := Some q]" op2] ne assms(5) by simp
  moreover have "others_kept h ?h op1 op2 (Some op1)"
    using assms(2-6) in_place(2) ne by (auto simp: others_kept_def Let_def nth_list_update drop_ref_def heap_ok_def q_def)
  moreover have "\<exists>p. op1 < length ?h \<and> ?h ! op1 = Some p \<and> str_units p = str_units p1 @ str_units p2"
    using assms(3) ne m(3) by (simp add: q_def)
  ultimately show ?thesis unfolding concat_ok_def by auto
qed

lemma concat_copy:
  assumes "alloc_ok ra" "heap_ok h"
    and "op1 < length h" "h ! op1 = Some p1" "op2 < length h" "h ! op2 = Some p2"
    and "op1 = op2 \<longrightarrow> 2 \<le> ref_count p1" "str_len p1 + str_len p2 \<le> JS_STRING_LEN_MAX"
    and copy: "str_len p2 \<noteq> 0" "\<not> (ref_count p1 = 1 \<and> is_wide_char p1 = is_wide_char p2 \<and> shl (is_wide_char p1) (str_len p1 + str_len p2) + 1 - of_bool (is_wide_char p1) \<le> length (str_u p1))"
  shows "concat_ok ra h op1 op2 (str_units p1 @ str_units p2)"
proof -
  note p = concat_operands[OF assms(2-6)]
  have mk: "makes ra (JS_ConcatString1 ra p1 p2) (str_units p1 @ str_units p2)"
    by (rule makes_concat1[OF assms(1) p(1,2) assms(8)])
  obtain ret where ret: "JS_ConcatString1 ra p1 p2 = Some ret" using mk by (auto simp: makes_def)
  define h2 where "h2 = (case ret of None \<Rightarrow> h | Some q \<Rightarrow> h @ [Some q])"
  define r where "r = map_option (\<lambda>_. length h) ret"
  have h2: "length h \<le> length h2" "\<And>a. a < length h \<Longrightarrow> h2 ! a = h ! a" "heap_ok h2"
    using heap_ok_snoc[OF assms(2)] assms(2) mk ret concat1_ref[of ra p1 p2]
    by (auto simp: h2_def nth_append makes_def split: option.splits)
  have l: "op1 < length h2" "op2 < length h2" using h2(1) assms(3,5) by auto
  define h3 where "h3 = h2[op1 := drop_ref (h2 ! op1), op2 := drop_ref (h2[op1 := drop_ref (h2 ! op1)] ! op2)]"
  have "Option.bind (js_free_string h2 op1) (\<lambda>h. js_free_string h op2) = Some h3"
    unfolding h3_def using free_both[OF l, of p1 p2] assms(3-7) h2(2) by simp
  moreover have "JS_ConcatString ra h op1 op2 =
      Option.bind (js_free_string h2 op1) (\<lambda>h. Option.bind (js_free_string h op2) (\<lambda>h. Some (r, h)))"
    unfolding JS_ConcatString_def rd_Some[OF assms(3)] rd_Some[OF assms(5)] assms(4,6) bind.bind_lunit Let_def
      if_not_P[OF copy(2)] ret using copy(1) by (simp add: h2_def r_def split: option.splits)
  ultimately have "JS_ConcatString ra h op1 op2 = Some (r, h3)" by (auto simp: bind_eq_Some_conv)
  moreover have "heap_ok h3" using heap_ok_drop[OF heap_ok_drop[OF h2(3) l(1)], of op2] l(2) by (simp add: h3_def)
  moreover have "others_kept h h3 op1 op2 r"
    unfolding h3_def using assms(2-5,7) h2(1,2) by (intro others_free) (auto simp: r_def)
  moreover have "case r of None \<Rightarrow> alloc_fails ra
    | Some a \<Rightarrow> \<exists>p. a < length h3 \<and> h3 ! a = Some p \<and> str_units p = str_units p1 @ str_units p2"
    using mk ret assms(3,5) by (auto simp: r_def h3_def h2_def makes_def)
  ultimately show ?thesis unfolding concat_ok_def by blast
qed



end
