(* ===== verification/Js_Cstring.thy ===== *)
theory Js_Cstring
  imports Js_String_Conv
begin

text \<open>
  The conversions between UTF-8 text and strings are inverse: \<^verbatim>\<open>JS_NewStringLen\<close> decodes what
  \<^verbatim>\<open>JS_ToCStringLen2\<close> encodes, in both encodings of surrogate pairs; and decoding is total on
  arbitrary bytes.
\<close>

section \<open>The units of a UTF-8 text\<close>

definition skip_invalid :: "u8 list \<Rightarrow> u8 list" where
  "skip_invalid p = (case dropWhile is_cont p of [] \<Rightarrow> [] | _ # q \<Rightarrow> dropWhile is_cont q)"

lemma skip_invalid_length: "length (skip_invalid (x # p)) < length (x # p)"
  unfolding skip_invalid_def by (rule skip_invalid_shorter)

function utf8_units :: "u8 list \<Rightarrow> u16 list" where
  "utf8_units [] = []"
| "utf8_units (x # p) =
     (if x < 128 then ucast x # utf8_units p
      else
        (case unicode_from_utf8 (x # p) (int (length (x # p))) of
           Some (c, Some r) \<Rightarrow> (if c \<le> 0x10FFFF then char_units (nat c) @ utf8_units r else 0xfffd # utf8_units (skip_invalid (x # p)))
         | _ \<Rightarrow> 0xfffd # utf8_units (skip_invalid (x # p))))"
  by pat_completeness auto

termination
  by (relation "measure length") (use skip_invalid_length unicode_from_utf8_shorter in \<open>fastforce+\<close>)

declare new_string_loop.simps(2) [simp del] utf8_units.simps(2) [simp del]

lemma utf8_units_ascii: "x < 128 \<Longrightarrow> utf8_units (x # p) = ucast x # utf8_units p"
  by (simp add: utf8_units.simps(2))

lemma utf8_units_takeWhile:
  "utf8_units p = map ucast (takeWhile (\<lambda>c. c < 128) p) @ utf8_units (drop (length (takeWhile (\<lambda>c. c < 128) p)) p)"
  by (induction p) (auto simp: utf8_units_ascii)

lemma utf8_cont_None: "utf8_cont l c p = None \<Longrightarrow> length p < l"
  by (induction l c p rule: utf8_cont.induct) (auto split: if_splits)

lemma unicode_from_utf8_not_None: "p \<noteq> [] \<Longrightarrow> unicode_from_utf8 p (int (length p)) \<noteq> None"
  by (cases p) (auto simp: unicode_from_utf8_def split: option.splits dest: utf8_cont_None)

text \<open>The contract of a sequence of appends whose results are ignored.\<close>

definition fed :: "realloc_func \<Rightarrow> string_buffer \<Rightarrow> u16 list \<Rightarrow> string_buffer \<Rightarrow> bool" where
  "fed ra b cs b' \<longleftrightarrow> sb_wf b' \<and> sb_len b' \<le> sb_len b + length cs \<and>
     (sb_units b' = sb_units b @ cs \<and> error_status b' = error_status b \<or> error_status b' \<and> (error_status b \<or> alloc_fails ra))"

lemma appended_fed: "sb_wf b \<Longrightarrow> appended ra b cs r b' \<Longrightarrow> fed ra b cs b'"
  using appended_len[of b ra cs r b'] by (auto simp: appended_def fed_def)

lemma fed_trans: "fed ra b cs b1 \<Longrightarrow> fed ra b1 ds b2 \<Longrightarrow> fed ra b (cs @ ds) b2"
  by (auto simp: fed_def)

lemma putc8_fed:
  "alloc_ok ra \<Longrightarrow> sb_wf b \<Longrightarrow> sb_len b + 1 \<le> SB_LIMIT \<Longrightarrow> c < 256 \<Longrightarrow>
   \<exists>r b'. string_buffer_putc8 ra b c = Some (r, b') \<and> fed ra b [of_nat c] b'"
  using putc8_appended appended_fed by meson

lemma putc16_fed:
  "alloc_ok ra \<Longrightarrow> sb_wf b \<Longrightarrow> sb_len b + 1 \<le> SB_LIMIT \<Longrightarrow>
   \<exists>r b'. string_buffer_putc16 ra b c = Some (r, b') \<and> fed ra b [of_nat c] b'"
  using putc16_appended appended_fed by meson

lemma fed_limit: "fed ra b cs b' \<Longrightarrow> sb_len b + length cs + n \<le> SB_LIMIT \<Longrightarrow> sb_wf b' \<and> sb_len b' + n \<le> SB_LIMIT"
  by (auto simp: fed_def)

lemma new_string_loop_fed:
  assumes ra: "alloc_ok ra"
  shows "sb_wf b \<Longrightarrow> sb_len b + 2 * length p \<le> SB_LIMIT \<Longrightarrow> \<exists>b'. new_string_loop ra b p = Some b' \<and> fed ra b (utf8_units p) b'"
proof (induction "length p" arbitrary: p b rule: less_induct)
  case less
  note IH = less(1) and wf = less(2) and lim = less(3)
  have next_step: "\<exists>b'. new_string_loop ra b1 q = Some b' \<and> fed ra b (cs @ utf8_units q) b'"
    if "fed ra b cs b1" "length q < length p" "length cs \<le> 2" for q b1 cs
  proof -
    have "sb_len b + length cs + 2 * length q \<le> SB_LIMIT" using that lim by linarith
    from fed_limit[OF that(1) this] show ?thesis using IH[OF that(2), of b1] fed_trans[OF that(1)] by blast
  qed
  show ?case
  proof (cases p)
    case Nil
    then show ?thesis using wf by (simp add: fed_def)
  next
    case (Cons x p1)
    have one: "sb_len b + 1 \<le> SB_LIMIT" using lim Cons by simp
    have invalid: "\<exists>b'. Option.bind (string_buffer_putc16 ra b 0xfffd) (\<lambda>(_, b). new_string_loop ra b (skip_invalid p)) = Some b' \<and>
        fed ra b (0xfffd # utf8_units (skip_invalid p)) b'"
    proof -
      obtain r b1 where b1: "string_buffer_putc16 ra b 0xfffd = Some (r, b1)" "fed ra b [0xfffd] b1"
        using putc16_fed[OF ra wf one, of "0xfffd"] by auto
      then show ?thesis using next_step[OF b1(2), of "skip_invalid p"] skip_invalid_length[of x p1] Cons by auto
    qed
    show ?thesis
    proof (cases "x < 128")
      case True
      then have "unat x < 256" by (simp add: word_less_nat_alt)
      then obtain r b1 where b1: "string_buffer_putc8 ra b (unat x) = Some (r, b1)" "fed ra b [ucast x] b1"
        using putc8_fed[OF ra wf one, of "unat x"] by auto
      then show ?thesis using next_step[OF b1(2), of p1] True Cons by (auto simp: new_string_loop.simps(2) utf8_units_ascii)
    next
      case False
      obtain c nx where u: "unicode_from_utf8 p (int (length p)) = Some (c, nx)"
        using unicode_from_utf8_not_None[of p] Cons by auto
      consider "nx = None" | r where "nx = Some r" "c > 0x10FFFF" | r where "nx = Some r" "c < 0x10000"
        | r where "nx = Some r" "\<not> c < 0x10000" "c \<le> 0x10FFFF" by (cases nx) (auto, linarith)
      then show ?thesis
      proof cases
        case 1
        then show ?thesis using invalid u False
          by (simp add: Cons new_string_loop.simps(2) utf8_units.simps(2) skip_invalid_def Let_def)
      next
        case (2 r)
        then show ?thesis using invalid u False
          by (simp add: Cons new_string_loop.simps(2) utf8_units.simps(2) skip_invalid_def Let_def)
      next
        case (3 r)
        have r: "length r < length p" "0 \<le> c" using unicode_from_utf8_shorter utf8_encode_decode u 3(1) by blast+
        obtain k b1 where b1: "string_buffer_putc16 ra b (nat c) = Some (k, b1)" "fed ra b [of_nat (nat c)] b1"
          using putc16_fed[OF ra wf one] by blast
        then show ?thesis using next_step[OF b1(2) r(1)] u False 3 r(2)
          by (auto simp: Cons new_string_loop.simps(2) utf8_units.simps(2) char_units_def)
      next
        case (4 r)
        let ?hi = "drop_bit 10 (nat c - 0x10000) + 0xd800" and ?lo = "((nat c - 0x10000) AND 0x3ff) + 0xdc00"
        have r: "length r < length p" "0 \<le> c" using unicode_from_utf8_shorter utf8_encode_decode u 4(1) by blast+
        obtain k b1 where b1: "string_buffer_putc16 ra b ?hi = Some (k, b1)" "fed ra b [of_nat ?hi] b1"
          using putc16_fed[OF ra wf one] by blast
        have "sb_wf b1 \<and> sb_len b1 + 1 \<le> SB_LIMIT" using fed_limit[OF b1(2), of 1] lim Cons by simp
        then obtain k2 b2 where b2: "string_buffer_putc16 ra b1 ?lo = Some (k2, b2)" "fed ra b1 [of_nat ?lo] b2"
          using putc16_fed[OF ra] by blast
        have f: "fed ra b [of_nat ?hi, of_nat ?lo] b2" using fed_trans[OF b1(2) b2(2)] by simp
        show ?thesis using next_step[OF f r(1)] u False 4 r(2) b1(1) b2(1)
          by (auto simp: Cons new_string_loop.simps(2) utf8_units.simps(2) char_units_def Let_def)
      qed
    qed
  qed
qed

lemma makes_new_string:
  assumes ra: "alloc_ok ra" and n: "2 * length p \<le> SB_LIMIT"
  shows "makes ra (JS_NewStringLen ra p) (utf8_units p)"
proof -
  let ?a = "takeWhile (\<lambda>c. c < 128) p"
  let ?rest = "drop (length ?a) p"
  have la: "length ?a \<le> length p" by (rule length_takeWhile_le)
  then have max: "\<not> JS_STRING_LEN_MAX < length ?a" using n by (simp add: JS_STRING_LEN_MAX_def SB_LIMIT_def)
  note units = utf8_units_takeWhile[of p]
  show ?thesis
  proof (cases "?a = p")
    case True
    have "utf8_units p = map ucast p @ utf8_units (drop (length p) p)" using units unfolding True .
    then have "utf8_units p = map ucast p" by simp
    then show ?thesis using makes_string8[OF ra, of p] True max
      unfolding JS_NewStringLen_def Let_def if_not_P[OF max] by simp
  next
    case False
    obtain r b where i: "string_buffer_init ra (length p) = (r, b)" by (cases "string_buffer_init ra (length p)")
    have e: "JS_NewStringLen ra p = (if r \<noteq> 0 then Some None
         else do { (_, b) \<leftarrow> string_buffer_write8 ra b ?a; b \<leftarrow> new_string_loop ra b ?rest; string_buffer_end ra b })"
      unfolding JS_NewStringLen_def Let_def if_not_P[OF max] if_not_P[OF False] i by simp
    show ?thesis
    proof (cases "r = 0")
      case r: False
      then have "ra None (length p + 1) = None"
        using i by (auto simp: string_buffer_init_def string_buffer_init2_def js_alloc_string_def split: option.splits)
      then show ?thesis using e r alloc_failsI[of ra None "length p + 1"] by (simp add: makes_def)
    next
      case r: True
      have b: "sb_wf b" "sb_units b = []" "sb_len b = 0" "\<not> error_status b"
        using init_wf[OF ra, of "length p" False] n i r
        by (auto simp: string_buffer_init_def string_buffer_init2_def split: option.splits)
      obtain k b1 where b1: "string_buffer_write8 ra b ?a = Some (k, b1)" "fed ra b (map ucast ?a) b1"
        using write8_appended[OF ra b(1), of ?a] appended_fed[OF b(1)] la n b(3) by fastforce
      have "sb_len b + length (map ucast ?a :: u16 list) + 2 * length ?rest \<le> SB_LIMIT" using la n b(3) by simp
      from fed_limit[OF b1(2) this] obtain b2 where b2: "new_string_loop ra b1 ?rest = Some b2" "fed ra b1 (utf8_units ?rest) b2"
        using new_string_loop_fed[OF ra] by blast
      have f: "fed ra b (utf8_units p) b2" using fed_trans[OF b1(2) b2(2)] units by simp
      then have "sb_wf b2" by (simp add: fed_def)
      from end_string[OF ra this] show ?thesis
        using e r b1(1) b2(1) f b(2,4) by (auto simp: makes_def fed_def)
    qed
  qed
qed

section \<open>Decoding inverts encoding\<close>

lemma utf8_units_encode:
  assumes "unat c \<le> 0x10FFFF"
  shows "utf8_units (unicode_to_utf8 c @ r) = char_units (unat c) @ utf8_units r"
proof (cases "unat c < 0x80")
  case True
  then have "c < 0x80" by (simp add: word_less_nat_alt)
  then have e: "unicode_to_utf8 c = [ucast c]" by (simp add: unicode_to_utf8_def)
  have u: "unat (ucast c :: u8) = unat c" using True by (simp add: unsigned_ucast_eq take_bit_nat_eq_self)
  have "ucast (ucast c :: u8) = (of_nat (unat (ucast c :: u8)) :: u16)" by (rule of_nat_unat[symmetric])
  moreover have "(ucast c :: u8) < 128" using True u by (simp add: word_less_nat_alt)
  ultimately show ?thesis using True by (simp add: e utf8_units_ascii u char_units_def del: of_nat_unat)
next
  case False
  have lt: "unat c < 2 ^ 31" using assms by simp
  have k: "utf8_len (unat c) \<noteq> 0" using False by (simp add: utf8_len_def)
  note b = utf8_len_bounds[OF lt k]
  obtain x p where enc: "unicode_to_utf8 c = x # p" "\<not> x < 0x80"
    using unicode_to_utf8_eq[OF lt] k utf8_lead_facts(1)[OF b(1,2)] by (simp only: Let_def if_False) blast
  have d: "unicode_from_utf8 (unicode_to_utf8 c @ r) (int (length (unicode_to_utf8 c @ r))) = Some (uint c, Some r)"
    by (rule utf8_decode_encode[OF lt]) simp
  have "nat (uint c) = unat c" "uint c \<le> 0x10FFFF" using assms by (simp_all only: unat_eq_nat_uint nat_le_iff)
  then show ?thesis using enc d by (simp add: utf8_units.simps(2))
qed

lemma unat_u16: "unat (c :: u16) < 65536"
  using unsigned_less[of c] by simp

lemma unat_ucast_unit [simp]: "unat (ucast (c :: u16) :: u32) = unat c"
  using unat_u16[of c] by (simp add: unsigned_ucast_eq take_bit_nat_eq_self)

lemma char_units_unit: "char_units (unat (c :: u16)) = [c]"
proof -
  have "unat c < 0x10000" using unat_u16[of c] by simp
  then show ?thesis by (simp add: char_units_def)
qed

lemma unat_unit_le: "unat (ucast (c :: u16) :: u32) \<le> 0x10FFFF"
  using unat_u16[of c] by simp

lemma utf8_units_unit: "utf8_units (unicode_to_utf8 (ucast (c :: u16)) @ r) = c # utf8_units r"
  using utf8_units_encode[OF unat_unit_le, of c r] by (simp add: char_units_unit)

lemma surrogate_pair_unat:
  "unat (surrogate_pair c c1) = (unat c mod 1024) * 1024 + unat c1 mod 1024 + 0x10000"
proof -
  have m: "unat ((ucast x :: u32) AND 0x3ff) = unat x mod 1024" for x :: u16
    using unat_and_mask[of "ucast x :: u32" 10] by (simp add: mask_eq_exp_minus_1)
  have hi: "unat (push_bit 10 ((ucast c :: u32) AND 0x3ff)) = (unat c mod 1024) * 2 ^ 10"
  proof -
    have "unat c mod 1024 < 1024" by simp
    then have "take_bit LENGTH(32) (push_bit 10 (unat c mod 1024)) = push_bit 10 (unat c mod 1024)"
      by (intro take_bit_nat_eq_self) (simp add: push_bit_eq_mult)
    then show ?thesis unfolding unsigned_push_bit_eq m by (simp add: push_bit_eq_mult)
  qed
  have "unat ((ucast c1 :: u32) AND 0x3ff) < 2 ^ 10" using m[of c1] by simp
  from unat_or_high[OF this hi] have o: "unat (push_bit 10 ((ucast c :: u32) AND 0x3ff) OR (ucast c1 AND 0x3ff)) =
      (unat c mod 1024) * 1024 + unat c1 mod 1024"
    using hi m[of c1] by (simp add: or.commute add.commute)
  have "(unat c mod 1024) * 1024 + unat c1 mod 1024 < 1048576"
  proof -
    have "unat c mod 1024 < 1024" "unat c1 mod 1024 < 1024" by simp_all
    then show ?thesis by linarith
  qed
  then show ?thesis unfolding surrogate_pair_def using o by (subst unat_add_lem[THEN iffD1]) simp_all
qed

lemma and_3ff: "(x :: nat) AND 0x3ff = x mod 1024"
  using take_bit_eq_mask[of 10 x] by (simp add: mask_eq_exp_minus_1 take_bit_eq_mod)

lemma char_units_pair:
  assumes "0xd800 \<le> c" "c < 0xdc00" "0xdc00 \<le> c1" "c1 < 0xe000"
  shows "char_units (unat (surrogate_pair c c1)) = [c, c1]" "unat (surrogate_pair c c1) \<le> 0x10FFFF"
proof -
  have b: "0xd800 \<le> unat c" "unat c < 0xdc00" "0xdc00 \<le> unat c1" "unat c1 < 0xe000"
    using assms by (simp_all add: word_le_nat_alt word_less_nat_alt)
  define h l where "h = unat c - 0xd800" and "l = unat c1 - 0xdc00"
  have hl: "unat c = h + 0xd800" "unat c1 = l + 0xdc00" "h < 1024" "l < 1024" using b by (auto simp: h_def l_def)
  have "unat c mod 1024 = h" "unat c1 mod 1024 = l"
    using hl mod_mult_self2[of h 1024 54] mod_mult_self2[of l 1024 55] by simp_all
  then have s: "unat (surrogate_pair c c1) = h * 1024 + l + 0x10000" by (simp add: surrogate_pair_unat)
  have "drop_bit 10 (h * 1024 + l) = h" "(h * 1024 + l) AND 0x3ff = l"
    using hl by (simp_all add: drop_bit_eq_div and_3ff)
  then have "char_units (unat (surrogate_pair c c1)) = [of_nat (unat c), of_nat (unat c1)]"
    using s hl by (simp add: char_units_def)
  then show "char_units (unat (surrogate_pair c c1)) = [c, c1]" by simp
  show "unat (surrogate_pair c c1) \<le> 0x10FFFF" using s hl by simp
qed

lemma utf8_units_cstr16: "utf8_units (cstr16 cesu8 cs) = cs"
proof (induction cesu8 cs rule: cstr16.induct)
  case (2 cesu8 c cs)
  have ascii: "unicode_to_utf8 (ucast c) = [ucast c]" if "c < 0x80"
  proof -
    have "unat c < 0x80" using that by (simp add: word_less_nat_alt)
    then have "(ucast c :: u32) < 0x80" by (simp add: word_less_nat_alt)
    moreover have "ucast (ucast c :: u32) = (ucast c :: u8)" by (rule bit_word_eqI) (simp add: bit_simps)
    ultimately show ?thesis by (simp add: unicode_to_utf8_def)
  qed
  consider (ascii) "c < 0x80" | (high) "\<not> c < 0x80" "0xd800 \<le> c \<and> c < 0xdc00 \<and> \<not> cesu8"
    | (other) "\<not> c < 0x80" "\<not> (0xd800 \<le> c \<and> c < 0xdc00 \<and> \<not> cesu8)" by blast
  then show ?case
  proof cases
    case ascii
    then show ?thesis using "2.IH"(1) utf8_units_unit[of c "cstr16 cesu8 cs"] \<open>c < 0x80 \<Longrightarrow> unicode_to_utf8 (ucast c) = [ucast c]\<close> by simp
  next
    case high
    show ?thesis
    proof (cases cs)
      case Nil
      then show ?thesis using high utf8_units_unit[of c "[]"] by simp
    next
      case (Cons c1 cs')
      show ?thesis
      proof (cases "0xdc00 \<le> c1 \<and> c1 < 0xe000")
        case True
        then show ?thesis using high Cons "2.IH"(2)[OF high Cons True] char_units_pair[of c c1]
          by (simp add: utf8_units_encode)
      next
        case False
        have "cstr16 cesu8 (c # cs) = unicode_to_utf8 (ucast c) @ cstr16 cesu8 cs"
          unfolding cstr16.simps(2)[of cesu8 c cs] if_not_P[OF high(1)] if_P[OF high(2)]
          unfolding Cons list.case if_not_P[OF False] ..
        then show ?thesis using "2.IH"(3)[OF high Cons False] by (simp only: utf8_units_unit)
      qed
    qed
  next
    case other
    then show ?thesis using "2.IH"(4)[OF other] by (auto simp: utf8_units_unit)
  qed
qed simp

lemma cstr8_encode: "cstr8 cs = concat (map (\<lambda>c. unicode_to_utf8 (ucast c)) cs)"
proof (induction cs)
  case (Cons c cs)
  let ?c = "ucast c :: u32"
  have lt: "unat c < 256" using unsigned_less[of c] by simp
  then have u: "unat ?c = unat c" by (simp add: unsigned_ucast_eq take_bit_nat_eq_self)
  have cmp: "?c < 0x80 \<longleftrightarrow> c < 0x80" "?c < 0x800" "\<not> 0x80000000 \<le> ?c"
    using lt by (simp_all add: word_less_nat_alt word_le_nat_alt u)
  have "ucast ?c = c" "ucast (drop_bit 6 ?c) = drop_bit 6 c" by (rule bit_word_eqI; simp add: bit_simps)+
  then show ?case using Cons cmp by (simp add: unicode_to_utf8_def unsigned_or_eq unsigned_and_eq)
qed simp

lemma utf8_units_cstr8: "utf8_units (cstr8 cs) = map ucast cs"
proof (induction cs)
  case (Cons c cs)
  have "ucast c = (ucast (ucast c :: u16) :: u32)"
    by (rule bit_word_eqI) (use bit_imp_le_length[of c] in \<open>force simp: bit_simps\<close>)
  then show ?case using Cons utf8_units_unit[of "ucast c" "cstr8 cs"] by (simp add: cstr8_encode)
qed simp

lemma unat_top_bit: "unat (drop_bit 7 (c :: u8)) = (if c < 0x80 then 0 else 1)"
proof -
  have "unat c < 256" using unsigned_less[of c] by simp
  then have "\<not> unat c < 128 \<Longrightarrow> unat c div 128 = 1" by linarith
  then have "unat c div 128 = (if unat c < 128 then 0 else 1)" by simp
  then show ?thesis using unat_drop_bit_div[of 7 c] by (simp add: word_less_nat_alt)
qed

lemma length_cstr8: "length (cstr8 cs) = length cs + sum_list (map (\<lambda>c. unat (drop_bit 7 c)) cs)"
  by (induction cs) (simp_all add: unat_top_bit)

lemma cstr8_ascii: "sum_list (map (\<lambda>c. unat (drop_bit 7 c)) cs) = 0 \<Longrightarrow> cstr8 cs = cs"
  by (induction cs) (auto simp: unat_top_bit split: if_splits)

lemma length_to_utf8:
  "unat c < 0x10000 \<Longrightarrow> length (unicode_to_utf8 c) \<le> 3" "unat c < 0x200000 \<Longrightarrow> length (unicode_to_utf8 c) \<le> 4"
  using unicode_to_utf8_eq[of c] by (auto simp: Let_def utf8_len_def)

lemma length_cstr16: "length (cstr16 cesu8 cs) \<le> 3 * length cs"
proof (induction cesu8 cs rule: cstr16.induct)
  case (2 cesu8 c cs)
  have l: "length (unicode_to_utf8 (ucast c)) \<le> 3" for c :: u16 using unat_u16[of c] by (intro length_to_utf8) simp
  have p: "length (unicode_to_utf8 (surrogate_pair c c1)) \<le> 6" if "0xd800 \<le> c" "c < 0xdc00" "0xdc00 \<le> c1" "c1 < 0xe000" for c1
    using char_units_pair(2)[OF that] by (intro order.trans[OF length_to_utf8(2)]) simp_all
  consider (ascii) "c < 0x80" | (high) "\<not> c < 0x80" "0xd800 \<le> c \<and> c < 0xdc00 \<and> \<not> cesu8"
    | (other) "\<not> c < 0x80" "\<not> (0xd800 \<le> c \<and> c < 0xdc00 \<and> \<not> cesu8)" by blast
  then show ?case
  proof cases
    case ascii
    then show ?thesis using "2.IH"(1) by simp
  next
    case high
    note e = cstr16.simps(2)[of cesu8 c cs, unfolded if_not_P[OF high(1)] if_P[OF high(2)]]
    show ?thesis
    proof (cases cs)
      case Nil
      then show ?thesis using l[of c] by (simp only: e) simp
    next
      case (Cons c1 cs')
      show ?thesis
      proof (cases "0xdc00 \<le> c1 \<and> c1 < 0xe000")
        case True
        then show ?thesis using "2.IH"(2)[OF high Cons True] p[of c1] high(2) unfolding e by (simp add: Cons add_mono)
      next
        case False
        note "2.IH"(3)[OF high Cons False]
        moreover have "cstr16 cesu8 (c # cs) = unicode_to_utf8 (ucast c) @ cstr16 cesu8 cs"
          unfolding e unfolding Cons list.case if_not_P[OF False] ..
        ultimately show ?thesis using l[of c] by (simp del: cstr16.simps)
      qed
    qed
  next
    case other
    then have "cstr16 cesu8 (c # cs) = unicode_to_utf8 (ucast c) @ cstr16 cesu8 cs" by (simp only: cstr16.simps if_False)
    then show ?thesis using "2.IH"(4)[OF other] l[of c] by (simp del: cstr16.simps)
  qed
qed simp

section \<open>Round trip\<close>

lemma to_cstring_encodes:
  assumes "alloc_ok ra" "str_wf p" "str_len p \<le> 79000000"
  shows "JS_ToCStringLen2 ra p cesu8 = Some None \<and> alloc_fails ra \<or>
    (\<exists>bs. JS_ToCStringLen2 ra p cesu8 = Some (Some bs) \<and> utf8_units bs = str_units p \<and> length bs \<le> 3 * str_len p)"
proof (cases "is_wide_char p")
  case True
  let ?t = "cstr16 cesu8 (str_units p)"
  have l: "length ?t \<le> 3 * str_len p" using length_cstr16[of cesu8 "str_units p"] str_units_length[OF assms(2)] by simp
  have n: "int_range (str_len p * 3) = Some (3 * str_len p)" using assms(3) by (simp add: int_range_def)
  from alloc_string_cases[OF assms(1), of "3 * str_len p" False] show ?thesis
  proof (elim disjE exE conjE)
    assume "js_alloc_string ra (3 * str_len p) False = None" "alloc_fails ra"
    then show ?thesis using True read_all(1)[OF assms(2) True] n by (simp add: JS_ToCStringLen2_def)
  next
    fix m assume m: "js_alloc_string ra (3 * str_len p) False = Some \<lparr>ref_count = 1, str_len = 3 * str_len p, is_wide_char = False, str_u = m\<rparr>"
      "shl False (3 * str_len p) + of_bool (\<not> False) \<le> length m"
    then have "JS_ToCStringLen2 ra p cesu8 = Some (Some ?t)"
      using True read_all(1)[OF assms(2) True] n l by (simp add: JS_ToCStringLen2_def memcpy_at_def)
    then show ?thesis using l utf8_units_cstr16 by blast
  qed
next
  case False
  obtain bs where bs: "read8 (str_u p) 0 (str_len p) = Some bs" "map ucast bs = str_units p" "length bs = str_len p"
    using read_all(2)[OF assms(2) False] by blast
  define n where "n = sum_list (map (\<lambda>c. unat (drop_bit 7 c)) bs)"
  have e: "JS_ToCStringLen2 ra p cesu8 = (if n = 0 then Some (Some bs) else
      case js_alloc_string ra (str_len p + n) False of None \<Rightarrow> Some None
      | Some str_new \<Rightarrow> do { m \<leftarrow> memcpy_at (str_u str_new) 0 (cstr8 bs @ [0]); Some (Some (take (length (cstr8 bs)) m)) })"
    unfolding JS_ToCStringLen2_def Let_def bs(1) bind.bind_lunit n_def using False by auto
  have lc: "length (cstr8 bs) = str_len p + n" using length_cstr8[of bs] bs(3) by (simp add: n_def)
  show ?thesis
  proof (cases "n = 0")
    case True
    then have "utf8_units bs = map ucast bs" using utf8_units_cstr8[of bs] cstr8_ascii[of bs] by (simp add: n_def)
    then show ?thesis using e True bs(2,3) by simp
  next
    case n: False
    have "unat (drop_bit 7 c) \<le> 1" for c :: u8 by (simp add: unat_top_bit)
    then have "n \<le> length bs"
      using sum_list_mono[of bs "\<lambda>c. unat (drop_bit 7 c)" "\<lambda>_. 1"] by (simp add: sum_list_triv n_def)
    then have l: "length (cstr8 bs) \<le> 3 * str_len p" using lc bs(3) by simp
    from alloc_string_cases[OF assms(1), of "str_len p + n" False] show ?thesis
    proof (elim disjE exE conjE)
      assume "js_alloc_string ra (str_len p + n) False = None" "alloc_fails ra"
      then show ?thesis using e n by simp
    next
      fix m assume m: "js_alloc_string ra (str_len p + n) False = Some \<lparr>ref_count = 1, str_len = str_len p + n, is_wide_char = False, str_u = m\<rparr>"
        "shl False (str_len p + n) + of_bool (\<not> False) \<le> length m"
      then have "JS_ToCStringLen2 ra p cesu8 = Some (Some (cstr8 bs))"
        using e n lc by (simp add: memcpy_at_def)
      then show ?thesis using l utf8_units_cstr8 bs(2) by simp
    qed
  qed
qed

text \<open>
  C37. Text conversion is a round trip: the bytes of \<^verbatim>\<open>JS_ToCStringLen2\<close> fit into the block allocated
  for them, and \<^verbatim>\<open>JS_NewStringLen\<close> makes a string with the same units of them, for narrow and wide
  strings, with surrogate pairs encoded jointly or separately, and also for lone surrogates. The
  only failures are those of the allocator.
\<close>

theorem cstring_roundtrip:
  assumes "alloc_ok ra" "str_wf p" "str_len p \<le> 79000000"
  shows "JS_ToCStringLen2 ra p cesu8 = Some None \<and> alloc_fails ra \<or>
    (\<exists>bs. JS_ToCStringLen2 ra p cesu8 = Some (Some bs) \<and>
      (JS_NewStringLen ra bs = Some None \<and> alloc_fails ra \<or>
       (\<exists>q. JS_NewStringLen ra bs = Some (Some q) \<and> str_wf q \<and> str_units q = str_units p)))"
proof -
  have "makes ra (JS_NewStringLen ra bs) (str_units p)" if "utf8_units bs = str_units p" "length bs \<le> 3 * str_len p" for bs
    using makes_new_string[OF assms(1), of bs] that assms(3) by (simp add: SB_LIMIT_def)
  then show ?thesis using to_cstring_encodes[OF assms, of cesu8] unfolding makes_def by blast
qed

theorem cstring_roundtrip_witness:
  "JS_ToCStringLen2 example_libc example_wide False = Some None \<and> alloc_fails example_libc \<or>
    (\<exists>bs. JS_ToCStringLen2 example_libc example_wide False = Some (Some bs) \<and>
      (JS_NewStringLen example_libc bs = Some None \<and> alloc_fails example_libc \<or>
       (\<exists>q. JS_NewStringLen example_libc bs = Some (Some q) \<and> str_wf q \<and> str_units q = str_units example_wide)))"
  by (rule cstring_roundtrip) (simp_all add: example_libc_ok example_wide_def str_wf_def)



end
