(* ===== verification/Js_Uri.thy ===== *)
theory Js_Uri
  imports Js_Cstring
begin

text \<open>
  The global functions \<^verbatim>\<open>encodeURI\<close>, \<^verbatim>\<open>decodeURI\<close> and their component forms, \<^verbatim>\<open>escape\<close> and
  \<^verbatim>\<open>unescape\<close> of \<^verbatim>\<open>quickjs.c\<close>. A loop over a string reads its units as integers and gives the
  operations on the string buffer in their order, or the error that ends it; the function
  then runs the operations on a buffer and takes the string. (An error gives the buffer up, so
  the operations before it have no effect.)
\<close>

datatype uri_error = URIError

section \<open>Characters\<close>

definition char_in :: "int \<Rightarrow> string \<Rightarrow> bool" where
  "char_in c s \<longleftrightarrow> c \<in> set (map of_char s)"

definition isURIReserved :: "int \<Rightarrow> bool" where
  "isURIReserved c \<longleftrightarrow> c < 0x100 \<and> char_in c '';/?:@&=+$,#''"

definition isUnescaped :: "int \<Rightarrow> bool" where
  "isUnescaped c \<longleftrightarrow> c < 0x100 \<and>
     char_in c ''ABCDEFGHIJKLMNOPQRSTUVWXYZabcdefghijklmnopqrstuvwxyz0123456789@*_+-./''"

definition isURIUnescaped :: "int \<Rightarrow> bool \<Rightarrow> bool" where
  "isURIUnescaped c isComponent \<longleftrightarrow> c < 0x100 \<and>
     ((c \<ge> 0x61 \<and> c \<le> 0x7a) \<or> (c \<ge> 0x41 \<and> c \<le> 0x5a) \<or> (c \<ge> 0x30 \<and> c \<le> 0x39) \<or>
      char_in c (''-_.!~*'' @ [CHR 0x27] @ ''()'') \<or> (\<not> isComponent \<and> isURIReserved c))"

definition hex_char :: "int \<Rightarrow> int" where
  "hex_char n = map of_char ''0123456789ABCDEF'' ! nat n"

text \<open>The bytes that \<^verbatim>\<open>encodeURI_hex\<close> writes.\<close>

definition hex_bytes :: "int \<Rightarrow> int list" where
  "hex_bytes c =
     [0x25] @
     (if c \<ge> 256 then [0x75, hex_char (drop_bit 12 c AND 15), hex_char (drop_bit 8 c AND 15)] else []) @
     [hex_char (drop_bit 4 c AND 15), hex_char (c AND 15)]"

definition encodeURI_hex :: "int \<Rightarrow> sb_op" where
  "encodeURI_hex c = Write8 (map of_int (hex_bytes c))"

section \<open>Encoding\<close>

definition utf8_hex :: "int \<Rightarrow> sb_op list" where
  "utf8_hex c =
     (if c < 0x80 then [encodeURI_hex c]
      else
        (if c < 0x800 then [encodeURI_hex (drop_bit 6 c OR 0xc0)]
         else
           (if c < 0x10000 then [encodeURI_hex (drop_bit 12 c OR 0xe0)]
            else [encodeURI_hex (drop_bit 18 c OR 0xf0), encodeURI_hex ((drop_bit 12 c AND 0x3f) OR 0x80)]) @
           [encodeURI_hex ((drop_bit 6 c AND 0x3f) OR 0x80)]) @
        [encodeURI_hex ((c AND 0x3f) OR 0x80)])"

fun encode_loop :: "bool \<Rightarrow> int list \<Rightarrow> uri_error + sb_op list" where
  "encode_loop isComponent [] = Inr []"
| "encode_loop isComponent (c # p) =
     (if isURIUnescaped c isComponent then map_sum id ((#) (Putc16 (nat c))) (encode_loop isComponent p)
      else if c \<ge> 0xdc00 \<and> c \<le> 0xdfff then Inl URIError
      else if c \<ge> 0xd800 \<and> c \<le> 0xdbff then
        (case p of
           [] \<Rightarrow> Inl URIError
         | c1 # p1 \<Rightarrow>
             (if c1 < 0xdc00 \<or> c1 > 0xdfff then Inl URIError
              else map_sum id (\<lambda>ops. utf8_hex ((push_bit 10 (c AND 0x3ff) OR (c1 AND 0x3ff)) + 0x10000) @ ops)
                (encode_loop isComponent p1)))
      else map_sum id (\<lambda>ops. utf8_hex c @ ops) (encode_loop isComponent p))"

definition units_of :: "js_string \<Rightarrow> int list" where
  "units_of p = map uint (str_units p)"

text \<open>Running the operations on a new buffer and taking the string.\<close>

definition build :: "realloc_func \<Rightarrow> nat \<Rightarrow> sb_op list \<Rightarrow> js_string option option" where
  "build ra n ops = do {
     b \<leftarrow> run_ops ra (snd (string_buffer_init ra n)) ops;
     string_buffer_end ra b }"

definition js_global_encodeURI :: "realloc_func \<Rightarrow> bool \<Rightarrow> js_string \<Rightarrow> (uri_error + js_string option) option" where
  "js_global_encodeURI ra isComponent p =
     (case encode_loop isComponent (units_of p) of
        Inl e \<Rightarrow> Some (Inl e)
      | Inr ops \<Rightarrow> map_option Inr (build ra (str_len p) ops))"

section \<open>Decoding\<close>

text \<open>The value of \<open>n\<close> hexadecimal digits, -1 if one is not; the callers have checked that they are there.\<close>

fun string_get_hex :: "int list \<Rightarrow> nat \<Rightarrow> int \<Rightarrow> int" where
  "string_get_hex p 0 c = c"
| "string_get_hex (x # p) (Suc n) c = (let h = from_hex x in if h < 0 then -1 else string_get_hex p n (push_bit 4 c OR h))"
| "string_get_hex [] (Suc n) c = -1"

definition hex_decode :: "int list \<Rightarrow> uri_error + int" where
  "hex_decode p =
     (if p = [] \<or> hd p \<noteq> 0x25 then Inl URIError
      else if length p \<le> 2 then Inl URIError
      else (let c = string_get_hex (tl p) 2 0 in if c < 0 then Inl URIError else Inr c))"

text \<open>The loop over the continuation bytes: the code point and the rest of the string.\<close>

fun decode_cont :: "nat \<Rightarrow> int \<Rightarrow> int list \<Rightarrow> uri_error + int \<times> int list" where
  "decode_cont 0 c p = Inr (c, p)"
| "decode_cont (Suc n) c p =
     (case hex_decode p of
        Inl e \<Rightarrow> Inl e
      | Inr c1 \<Rightarrow>
          (if c1 AND 0xc0 \<noteq> 0x80 then Inr (0, drop 3 p)
           else decode_cont n (push_bit 6 c OR (c1 AND 0x3f)) (drop 3 p)))"

lemma decode_cont_length: "decode_cont n c p = Inr (c', p') \<Longrightarrow> length p' \<le> length p"
  by (induction n c p rule: decode_cont.induct) (fastforce split: sum.splits if_splits)+

definition lead_byte_of :: "int \<Rightarrow> nat \<times> int \<times> int" where
  "lead_byte_of c =
     (if c \<ge> 0xc0 \<and> c \<le> 0xdf then (1, 0x80, c AND 0x1f)
      else if c \<ge> 0xe0 \<and> c \<le> 0xef then (2, 0x800, c AND 0xf)
      else if c \<ge> 0xf0 \<and> c \<le> 0xf7 then (3, 0x10000, c AND 0x7)
      else (0, 1, 0))"

function decode_loop :: "bool \<Rightarrow> int list \<Rightarrow> uri_error + sb_op list" where
  "decode_loop isComponent [] = Inr []"
| "decode_loop isComponent (c # p) =
     (if c = 0x25 then
        (case hex_decode (c # p) of
           Inl e \<Rightarrow> Inl e
         | Inr b \<Rightarrow>
             (if b < 0x80 then
                (if \<not> isComponent \<and> isURIReserved b
                 then map_sum id ((#) (Putc 0x25)) (decode_loop isComponent p)
                 else map_sum id ((#) (Putc (nat b))) (decode_loop isComponent (drop 2 p)))
              else
                (case lead_byte_of b of
                   (n, c_min, c0) \<Rightarrow>
                     (case decode_cont n c0 (drop 2 p) of
                        Inl e \<Rightarrow> Inl e
                      | Inr (v, p') \<Rightarrow>
                          (if v < c_min \<or> v > 0x10FFFF \<or> (v \<ge> 0xd800 \<and> v < 0xe000) then Inl URIError
                           else map_sum id ((#) (Putc (nat v))) (decode_loop isComponent p'))))))
      else map_sum id ((#) (Putc (nat c))) (decode_loop isComponent p))"
  by pat_completeness auto

termination
proof (relation "measure (\<lambda>(isComponent, p). length p)")
  fix isComponent :: bool and c p b n y c_min c0 x2 v p'
  assume "decode_cont n c0 (drop 2 p) = Inr x2" "(v, p') = x2"
  then have "length p' \<le> length (drop 2 p)" using decode_cont_length by metis
  then show "((isComponent, p'), isComponent, c # p) \<in> measure (\<lambda>(isComponent, p). length p)" by simp
qed auto

definition js_global_decodeURI :: "realloc_func \<Rightarrow> bool \<Rightarrow> js_string \<Rightarrow> (uri_error + js_string option) option" where
  "js_global_decodeURI ra isComponent p =
     (case decode_loop isComponent (units_of p) of
        Inl e \<Rightarrow> Some (Inl e)
      | Inr ops \<Rightarrow> map_option Inr (build ra 0 ops))"

section \<open>Escape and unescape\<close>

definition js_global_escape :: "realloc_func \<Rightarrow> js_string \<Rightarrow> js_string option option" where
  "js_global_escape ra p =
     build ra (str_len p) (map (\<lambda>c. if isUnescaped c then Putc16 (nat c) else encodeURI_hex c) (units_of p))"

function unescape_loop :: "int list \<Rightarrow> sb_op list" where
  "unescape_loop [] = []"
| "unescape_loop (c # p) =
     (if c = 0x25 \<and> length p \<ge> 5 \<and> hd p = 0x75 \<and> string_get_hex (drop 1 p) 4 0 \<ge> 0
      then Putc16 (nat (string_get_hex (drop 1 p) 4 0)) # unescape_loop (drop 5 p)
      else if c = 0x25 \<and> length p \<ge> 2 \<and> string_get_hex p 2 0 \<ge> 0
      then Putc16 (nat (string_get_hex p 2 0)) # unescape_loop (drop 2 p)
      else Putc16 (nat c) # unescape_loop p)"
  by pat_completeness auto
termination by (relation "measure length") auto

definition js_global_unescape :: "realloc_func \<Rightarrow> js_string \<Rightarrow> js_string option option" where
  "js_global_unescape ra p = build ra 0 (unescape_loop (units_of p))"

section \<open>Escape sequences\<close>

lemma hex_digits:
  "\<forall>n\<in>set [0..15]. from_hex (hex_char n) = n \<and> 0 \<le> hex_char n \<and> hex_char n < 128 \<and> hex_char n \<noteq> 0x75"
  by code_simp

lemma from_hex_hex_char: "0 \<le> n \<Longrightarrow> n < 16 \<Longrightarrow> from_hex (hex_char n) = n"
  using hex_digits by simp

lemma hex_char_range: "0 \<le> n \<Longrightarrow> n < 16 \<Longrightarrow> 0 \<le> hex_char n \<and> hex_char n < 128 \<and> hex_char n \<noteq> 0x75"
  using hex_digits by simp

lemma nibble: "c AND 15 = (c :: int) mod 16"
  by (simp add: and_low_masks_int)

lemma hex_step: "0 \<le> a \<Longrightarrow> push_bit 4 a OR (b mod 16) = a * 16 + (b :: int) mod 16"
  using or_disjoint_int(2)[of "b mod 16" 4 a] by (simp add: push_bit_eq_mult)

definition H :: "int \<Rightarrow> int list" where
  "H c = [0x25, hex_char (c div 16), hex_char (c mod 16)]"

lemma H_range: "0 \<le> c \<Longrightarrow> c < 256 \<Longrightarrow> x \<in> set (H c) \<Longrightarrow> 0 \<le> x \<and> x < 128"
  using hex_char_range[of "c div 16"] hex_char_range[of "c mod 16"] by (auto simp: H_def)

lemma get_hex2:
  assumes "0 \<le> c" "c < 256"
  shows "string_get_hex (hex_char (c div 16) # hex_char (c mod 16) # r) 2 0 = c"
proof -
  have "c div 16 < 16" "0 \<le> c div 16" using assms by (simp_all add: pos_imp_zdiv_nonneg_iff)
  moreover have "\<not> c mod 16 < 0" by simp
  ultimately show ?thesis using hex_step[of "c div 16" c] by (simp add: numeral_2_eq_2 from_hex_hex_char Let_def)
qed

lemma hex_decode_H: "0 \<le> c \<Longrightarrow> c < 256 \<Longrightarrow> hex_decode (H c @ r) = Inr c"
  using get_hex2[of c r] by (simp add: hex_decode_def H_def Let_def)

lemma unit_of_byte: "0 \<le> x \<Longrightarrow> x < 256 \<Longrightarrow> uint (ucast (of_int x :: u8) :: u16) = x"
  by (simp add: unsigned_ucast_eq unsigned_of_int take_bit_int_eq_self)

lemma op_units_bytes: "(\<And>x. x \<in> set bs \<Longrightarrow> 0 \<le> x \<and> x < 256) \<Longrightarrow> map uint (op_units (Write8 (map of_int bs))) = bs"
  by (simp add: map_idI unit_of_byte)

definition ubytes :: "sb_op list \<Rightarrow> int list" where
  "ubytes ops = map uint (concat (map op_units ops))"

lemma ubytes_simps [simp]: "ubytes [] = []" "ubytes (a # ops) = map uint (op_units a) @ ubytes ops" "ubytes (xs @ ops) = ubytes xs @ ubytes ops"
  by (simp_all add: ubytes_def)

lemma encodeURI_hex_H:
  assumes "0 \<le> c" "c < 256"
  shows "map uint (op_units (encodeURI_hex c)) = H c"
proof -
  have "drop_bit 4 c AND 15 = c div 16"
    using assms by (simp add: nibble drop_bit_eq_div mod_pos_pos_trivial pos_imp_zdiv_nonneg_iff)
  then have "hex_bytes c = H c" using assms by (simp add: hex_bytes_def H_def nibble)
  then show ?thesis unfolding encodeURI_hex_def using H_range[OF assms] by (subst op_units_bytes) force+
qed

text \<open>The UTF-8 bytes of a code point as numbers.\<close>

definition utf8_ints :: "int \<Rightarrow> int list" where
  "utf8_ints c =
     (if c < 0x80 then [c]
      else if c < 0x800 then [0xc0 + c div 64, 0x80 + c mod 64]
      else if c < 0x10000 then [0xe0 + c div 4096, 0x80 + c div 64 mod 64, 0x80 + c mod 64]
      else [0xf0 + c div 262144, 0x80 + c div 4096 mod 64, 0x80 + c div 64 mod 64, 0x80 + c mod 64])"

lemma low_or: "0 \<le> x \<Longrightarrow> x < 2 ^ k \<Longrightarrow> 0 \<le> m \<Longrightarrow> x OR (m * 2 ^ k) = m * 2 ^ k + (x :: int)"
  using or_disjoint_int(1)[of x k m] by simp

lemma cont_int: "(x AND 0x3f) OR 0x80 = 0x80 + (x :: int) mod 64"
  using low_or[of "x mod 64" 6 2] by (simp add: and_low_masks_int)

lemma utf8_hex_H:
  assumes "0 \<le> c" "c < 0x110000"
  shows "ubytes (utf8_hex c) = concat (map H (utf8_ints c))"
proof -
  have d: "drop_bit k c = c div 2 ^ k" for k by (simp add: drop_bit_eq_div)
  have h: "map uint (op_units (encodeURI_hex (0x80 + x mod 64))) = H (0x80 + x mod 64)" for x
    using pos_mod_bound[of 64 x] by (intro encodeURI_hex_H) (auto simp: pos_mod_sign)
  have n: "0 \<le> c div m" if "0 < m" for m using assms(1) that by (simp add: pos_imp_zdiv_nonneg_iff)
  consider "c < 0x80" | "0x80 \<le> c" "c < 0x800" | "0x800 \<le> c" "c < 0x10000" | "0x10000 \<le> c" by linarith
  then show ?thesis
  proof cases
    case 1
    then show ?thesis using assms by (simp add: utf8_hex_def utf8_ints_def encodeURI_hex_H)
  next
    case 2
    then have b: "c div 64 < 32" by simp
    then have "drop_bit 6 c OR 0xc0 = 0xc0 + c div 64" using low_or[of "c div 64" 5 6] n[of 64] by (simp add: d)
    moreover have "map uint (op_units (encodeURI_hex (0xc0 + c div 64))) = H (0xc0 + c div 64)"
      using b n[of 64] by (intro encodeURI_hex_H) auto
    ultimately show ?thesis using 2 h[of c] by (simp add: utf8_hex_def utf8_ints_def cont_int)
  next
    case 3
    then have b: "c div 4096 < 16" by simp
    then have "drop_bit 12 c OR 0xe0 = 0xe0 + c div 4096" using low_or[of "c div 4096" 4 14] n[of 4096] by (simp add: d)
    moreover have "map uint (op_units (encodeURI_hex (0xe0 + c div 4096))) = H (0xe0 + c div 4096)"
      using b n[of 4096] by (intro encodeURI_hex_H) auto
    ultimately show ?thesis using 3 h[of c] h[of "c div 64"] by (simp add: utf8_hex_def utf8_ints_def cont_int d)
  next
    case 4
    then have b: "c div 262144 < 8" using assms(2) by simp
    then have "drop_bit 18 c OR 0xf0 = 0xf0 + c div 262144" using low_or[of "c div 262144" 3 30] n[of 262144] by (simp add: d)
    moreover have "map uint (op_units (encodeURI_hex (0xf0 + c div 262144))) = H (0xf0 + c div 262144)"
      using b n[of 262144] by (intro encodeURI_hex_H) auto
    ultimately show ?thesis using 4 h[of c] h[of "c div 64"] h[of "c div 4096"] by (simp add: utf8_hex_def utf8_ints_def cont_int d)
  qed
qed

section \<open>Decoding an escape sequence\<close>

lemma and_c0:
  assumes "0 \<le> x" "x < 64"
  shows "(0x80 + x) AND 0xc0 = (0x80 :: int)" "(0x80 + x) AND 0x3f = x"
proof -
  have "(0x80 + x) mod 64 = x" using mod_block_int[of 2 64 "0x80 + x"] assms by simp
  then show "(0x80 + x) AND 0x3f = x" by (simp add: and_low_masks_int)
  have o: "0x80 + x = x OR 0x80" using low_or[of x 6 2] assms by simp
  have "x AND 63 = x" using assms by (simp add: and_low_masks_int)
  then have "x AND 0xc0 = x AND (63 AND 0xc0)" by (metis and.assoc)
  then have "x AND 0xc0 = 0" by simp
  then show "(0x80 + x) AND 0xc0 = 0x80" unfolding o by (simp add: bit.conj_disj_distrib2)
qed

lemma decode_cont_step:
  assumes "0 \<le> x" "x < 64" "0 \<le> c"
  shows "decode_cont (Suc n) c (H (0x80 + x) @ r) = decode_cont n (c * 64 + x) r"
proof -
  have "push_bit 6 c OR ((0x80 + x) AND 0x3f) = c * 64 + x"
    using or_disjoint_int(2)[of x 6 c] assms by (simp add: and_c0 push_bit_eq_mult)
  then show ?thesis using hex_decode_H[of "0x80 + x" r] assms and_c0(1)[OF assms(1,2)] by (simp add: H_def)
qed

lemma decode_H:
  assumes "0 \<le> b" "b < 256"
  shows "decode_loop isComponent (H b @ r) =
     (if b < 0x80 then
        (if \<not> isComponent \<and> isURIReserved b
         then map_sum id ((#) (Putc 0x25)) (decode_loop isComponent (tl (H b) @ r))
         else map_sum id ((#) (Putc (nat b))) (decode_loop isComponent r))
      else
        (case lead_byte_of b of
           (n, c_min, c0) \<Rightarrow>
             (case decode_cont n c0 r of
                Inl e \<Rightarrow> Inl e
              | Inr (v, p') \<Rightarrow>
                  (if v < c_min \<or> v > 0x10FFFF \<or> (v \<ge> 0xd800 \<and> v < 0xe000) then Inl URIError
                   else map_sum id ((#) (Putc (nat v))) (decode_loop isComponent p')))))"
  using hex_decode_H[OF assms, of r] by (simp add: H_def)

lemma lead_masks:
  "0 \<le> x \<Longrightarrow> x < 32 \<Longrightarrow> lead_byte_of (0xc0 + x) = (1, 0x80, x)"
  "0 \<le> x \<Longrightarrow> x < 16 \<Longrightarrow> lead_byte_of (0xe0 + x) = (2, 0x800, x)"
  "0 \<le> x \<Longrightarrow> x < 8 \<Longrightarrow> lead_byte_of (0xf0 + x) = (3, 0x10000, x)"
  using mod_block_int[of 6 32 "0xc0 + x"] mod_block_int[of 14 16 "0xe0 + x"] mod_block_int[of 30 8 "0xf0 + x"]
  by (simp_all add: lead_byte_of_def and_low_masks_int)

lemma decode_utf8_ints:
  assumes c: "0 \<le> c" "c \<le> 0x10FFFF" "\<not> (0xd800 \<le> c \<and> c < 0xe000)" "c < 0x80 \<longrightarrow> isComponent \<or> \<not> isURIReserved c"
  shows "decode_loop isComponent (concat (map H (utf8_ints c)) @ r) = map_sum id ((#) (Putc (nat c))) (decode_loop isComponent r)"
proof -
  have n: "0 \<le> c div m" if "0 < m" for m using c(1) that by (simp add: pos_imp_zdiv_nonneg_iff)
  have m: "0 \<le> x mod 64" "x mod 64 < 64" for x :: int by simp_all
  have s64: "c div 64 * 64 + c mod 64 = c" by simp
  have s4096: "c div 4096 * 64 + c div 64 mod 64 = c div 64"
    using div_mult_mod_eq[of "c div 64" 64] by (simp add: zdiv_zmult2_eq[of 64 c 64, symmetric])
  have s18: "c div 262144 * 64 + c div 4096 mod 64 = c div 4096"
    using div_mult_mod_eq[of "c div 4096" 64] by (simp add: zdiv_zmult2_eq[of 64 c 4096, symmetric])
  consider "c < 0x80" | "0x80 \<le> c" "c < 0x800" | "0x800 \<le> c" "c < 0x10000" | "0x10000 \<le> c" by linarith
  then show ?thesis
  proof cases
    case 1
    then show ?thesis using decode_H[of c isComponent r] c by (auto simp: utf8_ints_def)
  next
    case 2
    then have b: "c div 64 < 32" by simp
    show ?thesis using 2 b n[of 64] decode_cont_step[OF m[of c], of "c div 64" 0 r] c s64
      decode_H[of "0xc0 + c div 64" isComponent "H (0x80 + c mod 64) @ r"] by (auto simp: utf8_ints_def lead_masks)
  next
    case 3
    then have b: "c div 4096 < 16" by simp
    have "decode_cont 2 (c div 4096) (H (0x80 + c div 64 mod 64) @ H (0x80 + c mod 64) @ r) = Inr (c, r)"
      using decode_cont_step[OF m[of "c div 64"] n[of 4096], of 1] decode_cont_step[OF m[of c] n[of 64], of 0 r] s4096 s64
      by (simp add: numeral_2_eq_2)
    then show ?thesis using 3 b n[of 4096] c
      decode_H[of "0xe0 + c div 4096" isComponent "H (0x80 + c div 64 mod 64) @ H (0x80 + c mod 64) @ r"]
      by (auto simp: utf8_ints_def lead_masks)
  next
    case 4
    then have b: "c div 262144 < 8" using c(2) by simp
    have "decode_cont 3 (c div 262144) (H (0x80 + c div 4096 mod 64) @ H (0x80 + c div 64 mod 64) @ H (0x80 + c mod 64) @ r) = Inr (c, r)"
      using decode_cont_step[OF m[of "c div 4096"] n[of 262144], of 2] decode_cont_step[OF m[of "c div 64"] n[of 4096], of 1]
        decode_cont_step[OF m[of c] n[of 64], of 0 r] s18 s4096 s64
      by (simp add: numeral_2_eq_2 numeral_3_eq_3)
    then show ?thesis using 4 b n[of 262144] c
      decode_H[of "0xf0 + c div 262144" isComponent "H (0x80 + c div 4096 mod 64) @ H (0x80 + c div 64 mod 64) @ H (0x80 + c mod 64) @ r"]
      by (auto simp: utf8_ints_def lead_masks)
  qed
qed

section \<open>Round trips\<close>

text \<open>Strings without lone surrogates.\<close>

fun utf16_wf :: "u16 list \<Rightarrow> bool" where
  "utf16_wf [] = True"
| "utf16_wf (c # cs) =
     (if 0xdc00 \<le> c \<and> c \<le> 0xdfff then False
      else if 0xd800 \<le> c \<and> c \<le> 0xdbff then
        (case cs of [] \<Rightarrow> False | c1 # cs' \<Rightarrow> 0xdc00 \<le> c1 \<and> c1 \<le> 0xdfff \<and> utf16_wf cs')
      else utf16_wf cs)"

lemma uint_u16: "0 \<le> uint (c :: u16)" "uint (c :: u16) < 0x10000"
  using uint_lt2p[of c] by simp_all

lemma unit_word: "of_nat (nat (uint (c :: u16))) = c"
  by simp

lemma uint_bounds:
  "uint (c :: u16) \<ge> 0xdc00 \<longleftrightarrow> 0xdc00 \<le> c" "uint (c :: u16) \<le> 0xdfff \<longleftrightarrow> c \<le> 0xdfff"
  "uint (c :: u16) \<ge> 0xd800 \<longleftrightarrow> 0xd800 \<le> c" "uint (c :: u16) \<le> 0xdbff \<longleftrightarrow> c \<le> 0xdbff"
  by (simp_all add: word_le_def)

lemma pair_int:
  fixes c c1 :: u16
  assumes "0xd800 \<le> c" "c \<le> 0xdbff" "0xdc00 \<le> c1" "c1 \<le> 0xdfff"
  defines "v \<equiv> (push_bit 10 (uint c AND 0x3ff) OR (uint c1 AND 0x3ff)) + 0x10000"
  shows "char_units (nat v) = [c, c1]" "0x10000 \<le> v" "v \<le> 0x10FFFF"
proof -
  have m: "uint x AND 0x3ff = uint x mod 1024" for x :: u16 using and_low_mask_int[of "uint x" 10] by simp
  have v: "v = (uint c mod 1024) * 1024 + uint c1 mod 1024 + 0x10000"
    unfolding v_def m using or_disjoint_int(2)[of "uint c1 mod 1024" 10 "uint c mod 1024"] by (simp add: push_bit_eq_mult)
  define n where "n = unat (surrogate_pair c c1)"
  have "v = int n"
    by (simp only: v n_def surrogate_pair_unat uint_nat of_nat_add of_nat_mult of_nat_mod of_nat_numeral zmod_int)
  moreover have "c < 0xdc00" "c1 < 0xe000" using assms(2,4) by (simp_all add: word_less_nat_alt word_le_nat_alt)
  ultimately show "char_units (nat v) = [c, c1]" "v \<le> 0x10FFFF"
    using char_units_pair[OF assms(1) _ assms(3), folded n_def] by simp_all
  show "0x10000 \<le> v" using v by simp
qed

lemma length_utf8_ints: "length (concat (map H (utf8_ints c))) \<le> (if c < 0x10000 then 9 else 12)"
  by (simp add: utf8_ints_def H_def)

lemma percent_escaped: "\<not> isURIUnescaped 0x25 isComponent"
  by (simp add: isURIUnescaped_def isURIReserved_def char_in_def)

lemma unescaped_small: "isURIUnescaped c isComponent \<Longrightarrow> c < 0x100"
  by (simp add: isURIUnescaped_def)

text \<open>What the decoder gives back for the operations of the encoder.\<close>

definition decodes :: "bool \<Rightarrow> sb_op list \<Rightarrow> u16 list \<Rightarrow> bool" where
  "decodes isComponent ops us \<longleftrightarrow>
     length (ubytes ops) \<le> 9 * length us \<and> (\<forall>a\<in>set ops. op_ok a) \<and>
     (\<exists>ops'. decode_loop isComponent (ubytes ops) = Inr ops' \<and> concat (map op_units ops') = us \<and> (\<forall>a\<in>set ops'. op_ok a))"

lemma decodes_unescaped:
  assumes "isURIUnescaped (uint c) isComponent" "decodes isComponent ops us"
  shows "decodes isComponent (Putc16 (nat (uint c)) # ops) (c # us)"
proof -
  have "uint c \<noteq> 0x25" using assms(1) percent_escaped by metis
  moreover have "char_units (nat (uint c)) = [c]" using char_units_unit[of c] by (simp only: unat_eq_nat_uint)
  ultimately show ?thesis using assms(2) by (auto simp: decodes_def)
qed

lemma utf8_hex_ok: "a \<in> set (utf8_hex c) \<Longrightarrow> op_ok a"
  by (auto simp: utf8_hex_def encodeURI_hex_def split: if_splits)

lemma decodes_hex:
  assumes c: "0 \<le> c" "c \<le> 0x10FFFF" "\<not> (0xd800 \<le> c \<and> c < 0xe000)" "\<not> isURIUnescaped c isComponent"
    and d: "decodes isComponent ops us" and u: "char_units (nat c) = vs"
  shows "decodes isComponent (utf8_hex c @ ops) (vs @ us)"
proof -
  have r: "c < 0x80 \<longrightarrow> isComponent \<or> \<not> isURIReserved c" using c(4) by (auto simp: isURIUnescaped_def)
  have b: "ubytes (utf8_hex c) = concat (map H (utf8_ints c))" using c by (intro utf8_hex_H) auto
  have "length (concat (map H (utf8_ints c))) \<le> 9 * length vs"
    using length_utf8_ints[of c] c(1) by (auto simp: u[symmetric] char_units_def split: if_splits)
  moreover obtain ops' where "decode_loop isComponent (ubytes ops) = Inr ops'" "concat (map op_units ops') = us" "\<forall>a\<in>set ops'. op_ok a"
    using d by (auto simp: decodes_def)
  ultimately show ?thesis using d u utf8_hex_ok[of _ c] decode_utf8_ints[OF c(1-3) r, of "ubytes ops"]
    by (auto simp: decodes_def b)
qed

lemma encode_loop_decodes:
  "if utf16_wf us then \<exists>ops. encode_loop isComponent (map uint us) = Inr ops \<and> decodes isComponent ops us
   else encode_loop isComponent (map uint us) = Inl URIError"
proof (induction us rule: utf16_wf.induct)
  case 1
  then show ?case by (simp add: decodes_def)
next
  case (2 c cs)
  note b = uint_bounds[of c] uint_u16[of c]
  consider (low) "0xdc00 \<le> c \<and> c \<le> 0xdfff" | (high) "\<not> (0xdc00 \<le> c \<and> c \<le> 0xdfff)" "0xd800 \<le> c \<and> c \<le> 0xdbff"
    | (other) "\<not> (0xdc00 \<le> c \<and> c \<le> 0xdfff)" "\<not> (0xd800 \<le> c \<and> c \<le> 0xdbff)" by blast
  then show ?case
  proof cases
    case low
    then have "\<not> isURIUnescaped (uint c) isComponent" using unescaped_small b(1) by force
    then show ?thesis using low b by simp
  next
    case high
    then have ue: "\<not> isURIUnescaped (uint c) isComponent" using unescaped_small b(3) by force
    have e: "encode_loop isComponent (map uint (c # cs)) = (case map uint cs of
           [] \<Rightarrow> Inl URIError
         | c1 # p1 \<Rightarrow>
             (if c1 < 0xdc00 \<or> c1 > 0xdfff then Inl URIError
              else map_sum id (\<lambda>ops. utf8_hex ((push_bit 10 (uint c AND 0x3ff) OR (c1 AND 0x3ff)) + 0x10000) @ ops)
                (encode_loop isComponent p1)))"
      using high b ue by simp
    show ?thesis
    proof (cases cs)
      case Nil
      then show ?thesis using e high by simp
    next
      case (Cons c1 cs')
      note IH = "2.IH"(1)[OF high Cons]
      have c1: "uint c1 < 0xdc00 \<or> uint c1 > 0xdfff \<longleftrightarrow> \<not> (0xdc00 \<le> c1 \<and> c1 \<le> 0xdfff)" using uint_bounds(1,2)[of c1] by linarith
      show ?thesis
      proof (cases "0xdc00 \<le> c1 \<and> c1 \<le> 0xdfff \<and> utf16_wf cs'")
        case True
        obtain ops where ops: "encode_loop isComponent (map uint cs') = Inr ops" "decodes isComponent ops cs'" using IH True by auto
        let ?v = "(push_bit 10 (uint c AND 0x3ff) OR (uint c1 AND 0x3ff)) + 0x10000"
        have p: "char_units (nat ?v) = [c, c1]" "0x10000 \<le> ?v" "?v \<le> 0x10FFFF"
          by (rule pair_int; simp only: high True)+
        moreover have "\<not> isURIUnescaped ?v isComponent" using unescaped_small[of ?v isComponent] p(2) by linarith
        ultimately have "decodes isComponent (utf8_hex ?v @ ops) ([c, c1] @ cs')"
          using ops(2) by (intro decodes_hex) linarith+
        moreover have "encode_loop isComponent (map uint (c # cs)) = Inr (utf8_hex ?v @ ops)"
          unfolding e using Cons True c1 ops(1) by simp
        moreover have "utf16_wf (c # cs)" using high True Cons by simp
        ultimately show ?thesis using Cons by simp
      next
        case False
        then have "\<not> utf16_wf (c # cs)" using high Cons by auto
        moreover have "encode_loop isComponent (map uint (c # cs)) = Inl URIError"
          unfolding e using Cons False c1 IH by auto
        ultimately show ?thesis by simp
      qed
    qed
  next
    case other
    note IH = "2.IH"(2)[OF other]
    have wf: "utf16_wf (c # cs) = utf16_wf cs" by (simp only: utf16_wf.simps if_not_P[OF other(1)] if_not_P[OF other(2)])
    have n: "\<not> (uint c \<ge> 0xdc00 \<and> uint c \<le> 0xdfff)" "\<not> (uint c \<ge> 0xd800 \<and> uint c \<le> 0xdbff)"
      by (simp_all only: b other not_False_eq_True)
    have e: "encode_loop isComponent (map uint (c # cs)) =
        (if isURIUnescaped (uint c) isComponent then map_sum id ((#) (Putc16 (nat (uint c)))) (encode_loop isComponent (map uint cs))
         else map_sum id (\<lambda>ops. utf8_hex (uint c) @ ops) (encode_loop isComponent (map uint cs)))"
      by (simp only: list.map encode_loop.simps if_not_P[OF n(1)] if_not_P[OF n(2)])
    show ?thesis
    proof (cases "utf16_wf cs")
      case True
      then obtain ops where ops: "encode_loop isComponent (map uint cs) = Inr ops" "decodes isComponent ops cs" using IH by auto
      have "decodes isComponent (utf8_hex (uint c) @ ops) ([c] @ cs)" if "\<not> isURIUnescaped (uint c) isComponent"
        using that ops(2) b(5,6) n char_units_unit[of c, unfolded unat_eq_nat_uint] by (intro decodes_hex) linarith+
      then show ?thesis using True wf e ops decodes_unescaped[of c isComponent ops cs] by auto
    next
      case False
      then show ?thesis using wf e IH by auto
    qed
  qed
qed

lemma makes_build:
  assumes "alloc_ok ra" "n \<le> SB_LIMIT" "\<forall>a\<in>set ops. op_ok a" "length (concat (map op_units ops)) < SB_LIMIT"
  shows "makes ra (build ra n ops) (concat (map op_units ops))"
proof -
  obtain s res where "run_ops ra (snd (string_buffer_init2 ra n False)) ops = Some s" "string_buffer_end ra s = Some res"
    "case res of None \<Rightarrow> alloc_fails ra | Some p \<Rightarrow> str_wf p \<and> str_units p = concat (map op_units ops)"
    using builds_string[OF assms, of False] by blast
  then show ?thesis by (cases res) (auto simp: makes_def build_def string_buffer_init_def)
qed

lemma length_ubytes: "length (concat (map op_units ops)) = length (ubytes ops)"
  by (simp add: ubytes_def)

text \<open>
  C39. \<^verbatim>\<open>decodeURI\<close> inverts \<^verbatim>\<open>encodeURI\<close>, and \<^verbatim>\<open>decodeURIComponent\<close> inverts \<^verbatim>\<open>encodeURIComponent\<close>: encoding
  fails with a \<^verbatim>\<open>URIError\<close> exactly on the strings with a lone surrogate, and on every other string
  decoding the result gives the string back; otherwise only the allocator fails.
\<close>

theorem uri_roundtrip:
  assumes "alloc_ok ra" "str_wf p" "9 * str_len p < SB_LIMIT"
  shows "if utf16_wf (str_units p) then
      js_global_encodeURI ra isComponent p = Some (Inr None) \<and> alloc_fails ra \<or>
      (\<exists>q. js_global_encodeURI ra isComponent p = Some (Inr (Some q)) \<and>
        (js_global_decodeURI ra isComponent q = Some (Inr None) \<and> alloc_fails ra \<or>
         (\<exists>p'. js_global_decodeURI ra isComponent q = Some (Inr (Some p')) \<and> str_units p' = str_units p)))
    else js_global_encodeURI ra isComponent p = Some (Inl URIError)"
proof (cases "utf16_wf (str_units p)")
  case True
  have len: "length (str_units p) = str_len p" by (rule str_units_length[OF assms(2)])
  obtain ops where ops: "encode_loop isComponent (units_of p) = Inr ops" "decodes isComponent ops (str_units p)"
    using encode_loop_decodes[of "str_units p" isComponent] True by (auto simp: units_of_def)
  obtain ops' where ops': "decode_loop isComponent (ubytes ops) = Inr ops'" "concat (map op_units ops') = str_units p" "\<forall>a\<in>set ops'. op_ok a"
    using ops(2) by (auto simp: decodes_def)
  have "makes ra (build ra (str_len p) ops) (concat (map op_units ops))"
    using assms ops(2) len by (intro makes_build) (auto simp: decodes_def length_ubytes)
  moreover have "makes ra (build ra 0 ops') (str_units p)"
    using makes_build[OF assms(1) _ ops'(3), of 0] assms(3) len ops'(2) by (simp add: SB_LIMIT_def)
  ultimately show ?thesis using True ops(1) ops'(1)
    by (auto simp: js_global_encodeURI_def js_global_decodeURI_def makes_def units_of_def ubytes_def)
next
  case False
  then show ?thesis using encode_loop_decodes[of "str_units p" isComponent]
    by (simp add: js_global_encodeURI_def units_of_def)
qed

theorem uri_roundtrip_witness:
  "if utf16_wf (str_units example_wide) then
      js_global_encodeURI example_libc True example_wide = Some (Inr None) \<and> alloc_fails example_libc \<or>
      (\<exists>q. js_global_encodeURI example_libc True example_wide = Some (Inr (Some q)) \<and>
        (js_global_decodeURI example_libc True q = Some (Inr None) \<and> alloc_fails example_libc \<or>
         (\<exists>p'. js_global_decodeURI example_libc True q = Some (Inr (Some p')) \<and> str_units p' = str_units example_wide)))
    else js_global_encodeURI example_libc True example_wide = Some (Inl URIError)"
  by (rule uri_roundtrip) (simp_all add: example_libc_ok example_wide_def str_wf_def SB_LIMIT_def)

section \<open>The round trip of escape\<close>

lemma get_hex4:
  assumes "0 \<le> c" "c < 0x10000"
  shows "string_get_hex (hex_char (drop_bit 12 c AND 15) # hex_char (drop_bit 8 c AND 15) #
    hex_char (drop_bit 4 c AND 15) # hex_char (c AND 15) # r) 4 0 = c"
proof -
  have n: "from_hex (hex_char (x mod 16)) = x mod 16" "\<not> x mod 16 < 0" for x :: int by (simp_all add: from_hex_hex_char)
  have d: "drop_bit 12 c = drop_bit 4 (drop_bit 8 c)" "drop_bit 8 c = drop_bit 4 (drop_bit 4 c)" by simp_all
  have s: "push_bit 4 (drop_bit 4 x) OR (x mod 16) = x" if "0 \<le> x" for x :: int
    using hex_step[of "drop_bit 4 x" x] that by (simp add: drop_bit_eq_div pos_imp_zdiv_nonneg_iff mult.commute)
  have t: "drop_bit 12 c mod 16 = drop_bit 12 c" using assms by (simp add: drop_bit_eq_div pos_imp_zdiv_nonneg_iff)
  have p: "0 \<le> drop_bit 8 c" "0 \<le> drop_bit 4 c" using assms(1) by simp_all
  have "push_bit 4 (push_bit 4 (push_bit 4 (drop_bit 12 c mod 16) OR (drop_bit 8 c mod 16)) OR (drop_bit 4 c mod 16)) OR (c mod 16) = c"
    unfolding t s[OF p(1), folded d(1)] s[OF p(2), folded d(2)] by (rule s[OF assms(1)])
  then show ?thesis by (simp only: eval_nat_numeral BitM.simps string_get_hex.simps Let_def nibble n if_False push_bit_of_0 or.left_neutral)
qed

lemma unescaped_not_percent: "isUnescaped c \<Longrightarrow> c \<noteq> 0x25 \<and> c < 0x100"
  by (auto simp: isUnescaped_def char_in_def)

definition escape_op :: "int \<Rightarrow> sb_op" where
  "escape_op c = (if isUnescaped c then Putc16 (nat c) else encodeURI_hex c)"

lemma hex_bytes_range:
  assumes "0 \<le> c" "x \<in> set (hex_bytes c)"
  shows "0 \<le> x \<and> x < 256"
proof -
  have "0 \<le> hex_char (y AND 15) \<and> hex_char (y AND 15) < 256" for y using hex_char_range[of "y mod 16"] by (simp add: nibble)
  then show ?thesis using assms(2) by (auto simp: hex_bytes_def split: if_splits)
qed

lemma unescape_one:
  fixes c :: u16
  shows "concat (map op_units (unescape_loop (map uint (op_units (escape_op (uint c))) @ r))) = c # concat (map op_units (unescape_loop r))"
proof (cases "isUnescaped (uint c)")
  case True
  then show ?thesis using unescaped_not_percent[OF True] by (simp add: escape_op_def)
next
  case False
  have e: "map uint (op_units (escape_op (uint c))) = hex_bytes (uint c)"
    using False hex_bytes_range[OF uint_u16(1)[of c]] by (simp only: escape_op_def encodeURI_hex_def if_False op_units_bytes)
  show ?thesis
  proof (cases "uint c \<ge> 256")
    case True
    then show ?thesis unfolding e using get_hex4[OF uint_u16(1,2)[of c], of r] by (simp add: hex_bytes_def)
  next
    case False
    have q: "0 \<le> uint c div 16" "uint c div 16 < 16" using False uint_u16(1)[of c] by (simp_all add: pos_imp_zdiv_nonneg_iff)
    then have "drop_bit 4 (uint c) AND 15 = uint c div 16" "uint c AND 15 = uint c mod 16"
      by (simp_all add: nibble drop_bit_eq_div)
    then have b: "hex_bytes (uint c) = H (uint c)" using False by (simp add: hex_bytes_def H_def)
    have "hex_char (uint c div 16) \<noteq> 0x75" using hex_char_range[OF q] by blast
    then show ?thesis unfolding e b using get_hex2[of "uint c" r] False uint_u16(1)[of c] by (simp add: H_def)
  qed
qed

lemma unescape_all:
  "concat (map op_units (unescape_loop (ubytes (map escape_op (map uint us))))) = us"
  by (induction us) (simp_all add: unescape_one)

lemma escape_op_ok: "op_ok (escape_op (uint (c :: u16)))"
  using uint_u16[of c] by (simp add: escape_op_def encodeURI_hex_def nat_less_iff)

lemma unescape_ops_ok: "a \<in> set (unescape_loop p) \<Longrightarrow> op_ok a"
  by (induction p rule: unescape_loop.induct) (auto split: if_splits)

lemma escape_op_length: "length (op_units (escape_op c)) \<le> 6"
  by (simp add: escape_op_def encodeURI_hex_def hex_bytes_def)

text \<open>
  C40. \<^verbatim>\<open>unescape\<close> inverts \<^verbatim>\<open>escape\<close> on every string, lone surrogates included: the two-digit and
  the four-digit forms are read back as the units they were written for, and a unit that is not
  escaped is never taken for the start of an escape.
\<close>

theorem escape_roundtrip:
  assumes "alloc_ok ra" "str_wf p" "6 * str_len p < SB_LIMIT"
  shows "js_global_escape ra p = Some None \<and> alloc_fails ra \<or>
    (\<exists>q. js_global_escape ra p = Some (Some q) \<and>
      (js_global_unescape ra q = Some None \<and> alloc_fails ra \<or>
       (\<exists>p'. js_global_unescape ra q = Some (Some p') \<and> str_units p' = str_units p)))"
proof -
  have len: "length (str_units p) = str_len p" by (rule str_units_length[OF assms(2)])
  let ?ops = "map escape_op (map uint (str_units p))"
  have "length (concat (map op_units (map escape_op cs))) \<le> 6 * length cs" for cs
    by (induction cs) (use escape_op_length in \<open>auto intro: add_mono\<close>)
  from this[of "map uint (str_units p)"] have "length (concat (map op_units ?ops)) < SB_LIMIT" using assms(3) len by simp
  then have "makes ra (build ra (str_len p) ?ops) (concat (map op_units ?ops))"
    using assms(1,3) by (intro makes_build) (auto simp: escape_op_ok)
  moreover have "makes ra (build ra 0 (unescape_loop (ubytes ?ops))) (str_units p)"
    using makes_build[OF assms(1), of 0 "unescape_loop (ubytes ?ops)"] unescape_ops_ok unescape_all[of "str_units p"] assms(3) len
    by (auto simp: SB_LIMIT_def)
  ultimately show ?thesis
    by (auto simp: js_global_escape_def js_global_unescape_def makes_def units_of_def ubytes_def escape_op_def[abs_def])
qed

theorem escape_roundtrip_witness:
  "js_global_escape example_libc example_wide = Some None \<and> alloc_fails example_libc \<or>
    (\<exists>q. js_global_escape example_libc example_wide = Some (Some q) \<and>
      (js_global_unescape example_libc q = Some None \<and> alloc_fails example_libc \<or>
       (\<exists>p'. js_global_unescape example_libc q = Some (Some p') \<and> str_units p' = str_units example_wide)))"
  by (rule escape_roundtrip) (simp_all add: example_libc_ok example_wide_def str_wf_def SB_LIMIT_def)

end
