(* ===== verification/Js_Gc.thy ===== *)
theory Js_Gc
  imports Qjs_Prelude "HOL-Library.Multiset"
begin

text \<open>
  The objects of the reference counting memory management of \<^verbatim>\<open>quickjs.c\<close> and its cycle collector:
  headers with their counts, the six kinds of counted objects with the references they hold, the
  operations that release a reference, and the collector \<^verbatim>\<open>JS_RunGC\<close>. The three lists that link
  the headers are the sequences of their elements (\<^verbatim>\<open>list.h\<close> is the subject of another theory); an
  access to a freed object, a failed assertion and a call of \<^verbatim>\<open>abort\<close> are \<open>None\<close>. What the objects
  hold besides counted references is left out: atoms, the hash table of shapes, weak references,
  the list of contexts and the memory blocks of tables.
\<close>

type_synonym addr = nat

section \<open>Objects\<close>

text \<open>A value, as far as the collector sees it: numbers, strings and other values are \<open>Plain\<close>.\<close>

datatype gval = Obj addr | Bytecode addr | Plain

datatype prop_u = PValue gval | PGetset "addr option" "addr option" | PVarref addr | PAutoinit addr

text \<open>
  The data of a class. The flag of a property tells that its atom is not \<^verbatim>\<open>JS_ATOM_NULL\<close>. The last
  constructor stands for the classes with no constructor of their own: the values their \<^verbatim>\<open>gc_mark\<close>
  function marks and their finalizer frees.
\<close>

datatype class_data =
    NoData
  | ArrayData "gval list"
  | ObjectData gval
  | CFunction "addr option"
  | CFunctionDataRecord "gval list"
  | BytecodeFunction "addr option" "(addr \<times> addr option list) option"
  | BoundFunction gval gval "gval list"
  | ForInIterator gval
  | AsyncFunctionResolve "addr option"
  | ClassValues "gval list"

text \<open>
  An asynchronous function has its function object, its \<open>this\<close> value and the values on its stack,
  which are not known while it runs; a context has its modules, each with the variables of its
  local exports and its four values, the values of the context and the shape of arrays.
\<close>

datatype gc_data =
    JS_OBJECT addr "(bool \<times> prop_u) list" class_data
  | FUNCTION_BYTECODE "gval list" "addr option"
  | SHAPE "addr option"
  | VAR_REF bool gval
  | ASYNC_FUNCTION bool gval gval "gval list option" gval gval
  | JS_CONTEXT "(addr option list \<times> gval list) list" "gval list" "addr option"

record gc_object =
  ref_count :: int
  gc_mark :: bool
  gc_data :: gc_data

datatype gc_phase = PHASE_NONE | PHASE_DECREF | PHASE_REMOVE_CYCLES

type_synonym gc_heap = "addr \<rightharpoonup> gc_object"

record gc_runtime =
  gc_heap :: gc_heap
  gc_obj_list :: "addr list"
  gc_zero_ref_count_list :: "addr list"
  tmp_obj_list :: "addr list"
  gc_phase :: gc_phase

definition list_unlink :: "addr \<Rightarrow> gc_runtime \<Rightarrow> gc_runtime" where
  "list_unlink p rt = rt\<lparr>gc_obj_list := removeAll p (gc_obj_list rt),
     gc_zero_ref_count_list := removeAll p (gc_zero_ref_count_list rt), tmp_obj_list := removeAll p (tmp_obj_list rt)\<rparr>"

definition js_free_rt :: "addr \<Rightarrow> gc_runtime \<Rightarrow> gc_runtime" where
  "js_free_rt p rt = rt\<lparr>gc_heap := (gc_heap rt)(p := None)\<rparr>"

definition add_gc_object :: "gc_runtime \<Rightarrow> addr \<Rightarrow> gc_data \<Rightarrow> gc_runtime" where
  "add_gc_object rt p d = rt\<lparr>gc_heap := (gc_heap rt)(p \<mapsto> \<lparr>ref_count = 1, gc_mark = False, gc_data = d\<rparr>),
     gc_obj_list := gc_obj_list rt @ [p]\<rparr>"

definition set_object :: "gc_runtime \<Rightarrow> addr \<Rightarrow> gc_object \<Rightarrow> gc_runtime" where
  "set_object rt p x = rt\<lparr>gc_heap := (gc_heap rt)(p \<mapsto> x)\<rparr>"

primrec fold_opt :: "('s \<Rightarrow> 'a \<Rightarrow> 's option) \<Rightarrow> 'a list \<Rightarrow> 's \<Rightarrow> 's option" where
  "fold_opt f [] s = Some s"
| "fold_opt f (x # xs) s = Option.bind (f s x) (fold_opt f xs)"

section \<open>Marking the children of an object\<close>

fun mark_value :: "gval \<Rightarrow> addr list" where
  "mark_value (Obj p) = [p]"
| "mark_value (Bytecode p) = [p]"
| "mark_value Plain = []"

fun opt_list :: "'a option \<Rightarrow> 'a list" where
  "opt_list None = []"
| "opt_list (Some x) = [x]"

definition is_detached :: "gc_heap \<Rightarrow> addr \<Rightarrow> bool" where
  "is_detached h p = (case h p of Some x \<Rightarrow> (case gc_data x of VAR_REF d _ \<Rightarrow> d | _ \<Rightarrow> False) | None \<Rightarrow> False)"

fun mark_prop :: "gc_heap \<Rightarrow> bool \<times> prop_u \<Rightarrow> addr list" where
  "mark_prop h (False, _) = []"
| "mark_prop h (True, PValue v) = mark_value v"
| "mark_prop h (True, PGetset g s) = opt_list g @ opt_list s"
| "mark_prop h (True, PVarref r) = (if is_detached h r then [r] else [])"
| "mark_prop h (True, PAutoinit r) = [r]"

definition js_array_mark :: "gval list \<Rightarrow> addr list" where
  "js_array_mark vs = concat (map mark_value vs)"

definition js_object_data_mark :: "gval \<Rightarrow> addr list" where
  "js_object_data_mark v = mark_value v"

definition js_c_function_mark :: "addr option \<Rightarrow> addr list" where
  "js_c_function_mark realm = opt_list realm"

definition js_c_function_data_mark :: "gval list \<Rightarrow> addr list" where
  "js_c_function_data_mark vs = concat (map mark_value vs)"

definition js_bytecode_function_mark :: "gc_heap \<Rightarrow> addr option \<Rightarrow> (addr \<times> addr option list) option \<Rightarrow> addr list" where
  "js_bytecode_function_mark h home_object b =
     opt_list home_object @
     (case b of None \<Rightarrow> []
      | Some (b, var_refs) \<Rightarrow> filter (is_detached h) (concat (map opt_list var_refs)) @ [b])"

definition js_bound_function_mark :: "gval \<Rightarrow> gval \<Rightarrow> gval list \<Rightarrow> addr list" where
  "js_bound_function_mark func_obj this_val argv =
     mark_value func_obj @ mark_value this_val @ concat (map mark_value argv)"

definition js_for_in_iterator_mark :: "gval \<Rightarrow> addr list" where
  "js_for_in_iterator_mark v = mark_value v"

definition js_async_function_resolve_mark :: "addr option \<Rightarrow> addr list" where
  "js_async_function_resolve_mark s = opt_list s"

fun class_gc_mark :: "gc_heap \<Rightarrow> class_data \<Rightarrow> addr list" where
  "class_gc_mark h NoData = []"
| "class_gc_mark h (ArrayData vs) = js_array_mark vs"
| "class_gc_mark h (ObjectData v) = js_object_data_mark v"
| "class_gc_mark h (CFunction realm) = js_c_function_mark realm"
| "class_gc_mark h (CFunctionDataRecord vs) = js_c_function_data_mark vs"
| "class_gc_mark h (BytecodeFunction home_object b) = js_bytecode_function_mark h home_object b"
| "class_gc_mark h (BoundFunction f t vs) = js_bound_function_mark f t vs"
| "class_gc_mark h (ForInIterator v) = js_for_in_iterator_mark v"
| "class_gc_mark h (AsyncFunctionResolve s) = js_async_function_resolve_mark s"
| "class_gc_mark h (ClassValues vs) = concat (map mark_value vs)"

definition async_func_mark :: "gval \<Rightarrow> gval \<Rightarrow> gval list option \<Rightarrow> addr list" where
  "async_func_mark cur_func this_val stack =
     mark_value cur_func @ mark_value this_val @ (case stack of None \<Rightarrow> [] | Some vs \<Rightarrow> concat (map mark_value vs))"

definition js_mark_module_def :: "addr option list \<times> gval list \<Rightarrow> addr list" where
  "js_mark_module_def m = (case m of (exports, vs) \<Rightarrow> concat (map opt_list exports) @ concat (map mark_value vs))"

definition JS_MarkContext :: "(addr option list \<times> gval list) list \<Rightarrow> gval list \<Rightarrow> addr option \<Rightarrow> addr list" where
  "JS_MarkContext modules vs array_shape =
     concat (map js_mark_module_def modules) @ concat (map mark_value vs) @ opt_list array_shape"

fun mark_children :: "gc_heap \<Rightarrow> gc_data \<Rightarrow> addr list option" where
  "mark_children h (JS_OBJECT sh props c) = Some ([sh] @ concat (map (mark_prop h) props) @ class_gc_mark h c)"
| "mark_children h (FUNCTION_BYTECODE cpool realm) = Some (concat (map mark_value cpool) @ opt_list realm)"
| "mark_children h (SHAPE proto) = Some (opt_list proto)"
| "mark_children h (VAR_REF d v) = (if d then Some (mark_value v) else None)"
| "mark_children h (ASYNC_FUNCTION is_active f t stack r0 r1) =
     Some ((if is_active then async_func_mark f t stack else []) @ mark_value r0 @ mark_value r1)"
| "mark_children h (JS_CONTEXT modules vs array_shape) = Some (JS_MarkContext modules vs array_shape)"

section \<open>The passes of the collector that find the cycles\<close>

definition gc_decref_child :: "gc_runtime \<Rightarrow> addr \<Rightarrow> gc_runtime option" where
  "gc_decref_child rt p = do {
     x \<leftarrow> gc_heap rt p;
     if ref_count x > 0 then
       (let rt = set_object rt p (x\<lparr>ref_count := ref_count x - 1\<rparr>) in
        if ref_count x - 1 = 0 \<and> gc_mark x
        then (let rt = list_unlink p rt in Some (rt\<lparr>tmp_obj_list := tmp_obj_list rt @ [p]\<rparr>))
        else Some rt)
     else None }"

definition gc_decref_visit :: "gc_runtime \<Rightarrow> addr \<Rightarrow> gc_runtime option" where
  "gc_decref_visit rt p = do {
     x \<leftarrow> gc_heap rt p;
     if gc_mark x then None else do {
       xs \<leftarrow> mark_children (gc_heap rt) (gc_data x);
       rt \<leftarrow> fold_opt gc_decref_child xs rt;
       x \<leftarrow> gc_heap rt p;
       let rt = set_object rt p (x\<lparr>gc_mark := True\<rparr>);
       if ref_count x = 0
       then (let rt = list_unlink p rt in Some (rt\<lparr>tmp_obj_list := tmp_obj_list rt @ [p]\<rparr>))
       else Some rt } }"

partial_function (option) gc_decref_loop :: "gc_runtime \<Rightarrow> addr option \<Rightarrow> gc_runtime option" where
  "gc_decref_loop rt el = (case el of
     None \<Rightarrow> Some rt
   | Some p \<Rightarrow> do {
       el1 \<leftarrow> next_in (gc_obj_list rt) p;
       rt \<leftarrow> gc_decref_visit rt p;
       gc_decref_loop rt el1 })"

definition gc_decref :: "gc_runtime \<Rightarrow> gc_runtime option" where
  "gc_decref rt = (let rt = rt\<lparr>tmp_obj_list := []\<rparr> in gc_decref_loop rt (first_in (gc_obj_list rt)))"

definition gc_scan_incref_child :: "gc_runtime \<Rightarrow> addr \<Rightarrow> gc_runtime option" where
  "gc_scan_incref_child rt p = do {
     x \<leftarrow> gc_heap rt p;
     let x = x\<lparr>ref_count := ref_count x + 1\<rparr>;
     if ref_count x = 1
     then (let rt = list_unlink p rt in
       Some (set_object (rt\<lparr>gc_obj_list := gc_obj_list rt @ [p]\<rparr>) p (x\<lparr>gc_mark := False\<rparr>)))
     else Some (set_object rt p x) }"

definition gc_scan_incref_child2 :: "gc_runtime \<Rightarrow> addr \<Rightarrow> gc_runtime option" where
  "gc_scan_incref_child2 rt p = do {
     x \<leftarrow> gc_heap rt p;
     Some (set_object rt p (x\<lparr>ref_count := ref_count x + 1\<rparr>)) }"

definition gc_scan_visit :: "gc_runtime \<Rightarrow> addr \<Rightarrow> gc_runtime option" where
  "gc_scan_visit rt p = do {
     x \<leftarrow> gc_heap rt p;
     if ref_count x > 0 then do {
       let rt = set_object rt p (x\<lparr>gc_mark := False\<rparr>);
       xs \<leftarrow> mark_children (gc_heap rt) (gc_data x);
       fold_opt gc_scan_incref_child xs rt }
     else None }"

partial_function (option) gc_scan_keep :: "gc_runtime \<Rightarrow> addr option \<Rightarrow> gc_runtime option" where
  "gc_scan_keep rt el = (case el of
     None \<Rightarrow> Some rt
   | Some p \<Rightarrow> do {
       rt \<leftarrow> gc_scan_visit rt p;
       el \<leftarrow> next_in (gc_obj_list rt) p;
       gc_scan_keep rt el })"

definition gc_scan_restore_visit :: "gc_runtime \<Rightarrow> addr \<Rightarrow> gc_runtime option" where
  "gc_scan_restore_visit rt p = do {
     x \<leftarrow> gc_heap rt p;
     xs \<leftarrow> mark_children (gc_heap rt) (gc_data x);
     fold_opt gc_scan_incref_child2 xs rt }"

partial_function (option) gc_scan_restore :: "gc_runtime \<Rightarrow> addr option \<Rightarrow> gc_runtime option" where
  "gc_scan_restore rt el = (case el of
     None \<Rightarrow> Some rt
   | Some p \<Rightarrow> do {
       rt \<leftarrow> gc_scan_restore_visit rt p;
       el \<leftarrow> next_in (tmp_obj_list rt) p;
       gc_scan_restore rt el })"

definition gc_scan :: "gc_runtime \<Rightarrow> gc_runtime option" where
  "gc_scan rt = do {
     rt \<leftarrow> gc_scan_keep rt (first_in (gc_obj_list rt));
     gc_scan_restore rt (first_in (tmp_obj_list rt)) }"

section \<open>Releasing references\<close>

text \<open>The count of \<open>p\<close> after one reference is given up.\<close>

definition dec_ref :: "gc_runtime \<Rightarrow> addr \<Rightarrow> (int \<times> gc_runtime) option" where
  "dec_ref rt p = do {
     x \<leftarrow> gc_heap rt p;
     Some (ref_count x - 1, set_object rt p (x\<lparr>ref_count := ref_count x - 1\<rparr>)) }"

text \<open>
  \<^verbatim>\<open>__JS_FreeValueRT\<close> inside the two phases in which objects are freed; the call from outside of them,
  which starts the first of these phases, is below.
\<close>

definition free_value_ptr :: "gc_runtime \<Rightarrow> addr \<Rightarrow> gc_runtime" where
  "free_value_ptr rt p =
     (if gc_phase rt \<noteq> PHASE_REMOVE_CYCLES
      then (let rt = list_unlink p rt in rt\<lparr>gc_zero_ref_count_list := p # gc_zero_ref_count_list rt\<rparr>)
      else rt)"

definition free_ptr :: "gc_runtime \<Rightarrow> addr \<Rightarrow> gc_runtime option" where
  "free_ptr rt p = do {
     (n, rt) \<leftarrow> dec_ref rt p;
     Some (if n \<le> 0 then free_value_ptr rt p else rt) }"

fun free_value :: "gc_runtime \<Rightarrow> gval \<Rightarrow> gc_runtime option" where
  "free_value rt (Obj p) = free_ptr rt p"
| "free_value rt (Bytecode p) = free_ptr rt p"
| "free_value rt Plain = Some rt"

fun free_opt :: "(gc_runtime \<Rightarrow> addr \<Rightarrow> gc_runtime option) \<Rightarrow> gc_runtime \<Rightarrow> addr option \<Rightarrow> gc_runtime option" where
  "free_opt f rt None = Some rt"
| "free_opt f rt (Some p) = f rt p"

definition js_free_shape0 :: "gc_runtime \<Rightarrow> addr \<Rightarrow> gc_runtime option" where
  "js_free_shape0 rt sh = do {
     x \<leftarrow> gc_heap rt sh;
     if ref_count x \<noteq> 0 then None else
     (case gc_data x of
        SHAPE proto \<Rightarrow> do {
          rt \<leftarrow> free_opt free_ptr rt proto;
          Some (js_free_rt sh (list_unlink sh rt)) }
      | _ \<Rightarrow> None) }"

definition js_free_shape :: "gc_runtime \<Rightarrow> addr \<Rightarrow> gc_runtime option" where
  "js_free_shape rt sh = do {
     (n, rt) \<leftarrow> dec_ref rt sh;
     if n \<le> 0 then js_free_shape0 rt sh else Some rt }"

definition js_free_shape_null :: "gc_runtime \<Rightarrow> addr option \<Rightarrow> gc_runtime option" where
  "js_free_shape_null rt sh = free_opt js_free_shape rt sh"

definition free_var_ref :: "gc_runtime \<Rightarrow> addr \<Rightarrow> gc_runtime option" where
  "free_var_ref rt r = do {
     (n, rt) \<leftarrow> dec_ref rt r;
     x \<leftarrow> gc_heap rt r;
     if n < 0 then None
     else if n = 0 then
       (case gc_data x of
          VAR_REF True v \<Rightarrow> do {
            rt \<leftarrow> free_value rt v;
            Some (js_free_rt r (list_unlink r rt)) }
        | VAR_REF False v \<Rightarrow> Some (js_free_rt r rt)
        | _ \<Rightarrow> None)
     else Some rt }"

text \<open>
  A frame that runs has no known stack pointer and is not freed. The frames of this model have no
  variables captured by reference, so that closing them has no effect.
\<close>

definition async_func_free :: "gc_runtime \<Rightarrow> gval \<Rightarrow> gval \<Rightarrow> gval list option \<Rightarrow> gc_runtime option" where
  "async_func_free rt cur_func this_val stack = do {
     vs \<leftarrow> stack;
     rt \<leftarrow> fold_opt free_value vs rt;
     rt \<leftarrow> free_value rt cur_func;
     free_value rt this_val }"

definition js_async_function_free0 :: "gc_runtime \<Rightarrow> addr \<Rightarrow> gc_runtime option" where
  "js_async_function_free0 rt s = do {
     x \<leftarrow> gc_heap rt s;
     (case gc_data x of
        ASYNC_FUNCTION is_active f t stack r0 r1 \<Rightarrow> do {
          rt \<leftarrow> (if is_active then async_func_free rt f t stack else Some rt);
          rt \<leftarrow> free_value rt r0;
          rt \<leftarrow> free_value rt r1;
          Some (js_free_rt s (list_unlink s rt)) }
      | _ \<Rightarrow> None) }"

definition js_async_function_free :: "gc_runtime \<Rightarrow> addr \<Rightarrow> gc_runtime option" where
  "js_async_function_free rt s = do {
     (n, rt) \<leftarrow> dec_ref rt s;
     if n = 0 then js_async_function_free0 rt s else Some rt }"

definition js_free_module_def :: "gc_runtime \<Rightarrow> addr option list \<times> gval list \<Rightarrow> gc_runtime option" where
  "js_free_module_def rt m = (case m of (exports, vs) \<Rightarrow> do {
     rt \<leftarrow> fold_opt (free_opt free_var_ref) exports rt;
     fold_opt free_value vs rt })"

definition JS_FreeContext :: "gc_runtime \<Rightarrow> addr \<Rightarrow> gc_runtime option" where
  "JS_FreeContext rt ctx = do {
     (n, rt) \<leftarrow> dec_ref rt ctx;
     x \<leftarrow> gc_heap rt ctx;
     if n > 0 then Some rt
     else if n \<noteq> 0 then None
     else
       (case gc_data x of
          JS_CONTEXT modules vs array_shape \<Rightarrow> do {
            rt \<leftarrow> fold_opt js_free_module_def modules rt;
            rt \<leftarrow> fold_opt free_value vs rt;
            rt \<leftarrow> js_free_shape_null rt array_shape;
            Some (js_free_rt ctx (list_unlink ctx rt)) }
        | _ \<Rightarrow> None) }"

fun free_property :: "gc_runtime \<Rightarrow> bool \<times> prop_u \<Rightarrow> gc_runtime option" where
  "free_property rt (_, PValue v) = free_value rt v"
| "free_property rt (_, PGetset g s) = Option.bind (free_opt free_ptr rt g) (\<lambda>rt. free_opt free_ptr rt s)"
| "free_property rt (_, PVarref r) = free_var_ref rt r"
| "free_property rt (_, PAutoinit r) = JS_FreeContext rt r"

definition js_array_finalizer :: "gc_runtime \<Rightarrow> gval list \<Rightarrow> gc_runtime option" where
  "js_array_finalizer rt vs = fold_opt free_value vs rt"

definition js_object_data_finalizer :: "gc_runtime \<Rightarrow> gval \<Rightarrow> gc_runtime option" where
  "js_object_data_finalizer rt v = free_value rt v"

definition js_c_function_finalizer :: "gc_runtime \<Rightarrow> addr option \<Rightarrow> gc_runtime option" where
  "js_c_function_finalizer rt realm = free_opt JS_FreeContext rt realm"

definition js_c_function_data_finalizer :: "gc_runtime \<Rightarrow> gval list \<Rightarrow> gc_runtime option" where
  "js_c_function_data_finalizer rt vs = fold_opt free_value vs rt"

definition js_bytecode_function_finalizer ::
  "gc_runtime \<Rightarrow> addr option \<Rightarrow> (addr \<times> addr option list) option \<Rightarrow> gc_runtime option" where
  "js_bytecode_function_finalizer rt home_object b = do {
     rt \<leftarrow> free_opt free_ptr rt home_object;
     (case b of None \<Rightarrow> Some rt
      | Some (b, var_refs) \<Rightarrow> do {
          rt \<leftarrow> fold_opt (free_opt free_var_ref) var_refs rt;
          free_ptr rt b }) }"

definition js_bound_function_finalizer :: "gc_runtime \<Rightarrow> gval \<Rightarrow> gval \<Rightarrow> gval list \<Rightarrow> gc_runtime option" where
  "js_bound_function_finalizer rt func_obj this_val argv = do {
     rt \<leftarrow> free_value rt func_obj;
     rt \<leftarrow> free_value rt this_val;
     fold_opt free_value argv rt }"

definition js_for_in_iterator_finalizer :: "gc_runtime \<Rightarrow> gval \<Rightarrow> gc_runtime option" where
  "js_for_in_iterator_finalizer rt v = free_value rt v"

definition js_async_function_resolve_finalizer :: "gc_runtime \<Rightarrow> addr option \<Rightarrow> gc_runtime option" where
  "js_async_function_resolve_finalizer rt s = free_opt js_async_function_free rt s"

fun class_finalizer :: "gc_runtime \<Rightarrow> class_data \<Rightarrow> gc_runtime option" where
  "class_finalizer rt NoData = Some rt"
| "class_finalizer rt (ArrayData vs) = js_array_finalizer rt vs"
| "class_finalizer rt (ObjectData v) = js_object_data_finalizer rt v"
| "class_finalizer rt (CFunction realm) = js_c_function_finalizer rt realm"
| "class_finalizer rt (CFunctionDataRecord vs) = js_c_function_data_finalizer rt vs"
| "class_finalizer rt (BytecodeFunction home_object b) = js_bytecode_function_finalizer rt home_object b"
| "class_finalizer rt (BoundFunction f t vs) = js_bound_function_finalizer rt f t vs"
| "class_finalizer rt (ForInIterator v) = js_for_in_iterator_finalizer rt v"
| "class_finalizer rt (AsyncFunctionResolve s) = js_async_function_resolve_finalizer rt s"
| "class_finalizer rt (ClassValues vs) = fold_opt free_value vs rt"

text \<open>The end of freeing an object: it stays allocated while other objects of a cycle refer to it.\<close>

definition free_object_end :: "gc_runtime \<Rightarrow> addr \<Rightarrow> gc_runtime option" where
  "free_object_end rt p = do {
     let rt = list_unlink p rt;
     x \<leftarrow> gc_heap rt p;
     if gc_phase rt = PHASE_REMOVE_CYCLES \<and> ref_count x \<noteq> 0
     then Some (rt\<lparr>gc_zero_ref_count_list := gc_zero_ref_count_list rt @ [p]\<rparr>)
     else Some (js_free_rt p rt) }"

definition free_object :: "gc_runtime \<Rightarrow> addr \<Rightarrow> addr \<Rightarrow> (bool \<times> prop_u) list \<Rightarrow> class_data \<Rightarrow> gc_runtime option" where
  "free_object rt p sh props c = do {
     rt \<leftarrow> fold_opt free_property props rt;
     rt \<leftarrow> js_free_shape rt sh;
     rt \<leftarrow> class_finalizer rt c;
     free_object_end rt p }"

definition free_function_bytecode :: "gc_runtime \<Rightarrow> addr \<Rightarrow> gval list \<Rightarrow> addr option \<Rightarrow> gc_runtime option" where
  "free_function_bytecode rt p cpool realm = do {
     rt \<leftarrow> fold_opt free_value cpool rt;
     rt \<leftarrow> free_opt JS_FreeContext rt realm;
     free_object_end rt p }"

definition free_gc_object :: "gc_runtime \<Rightarrow> addr \<Rightarrow> gc_runtime option" where
  "free_gc_object rt p = do {
     x \<leftarrow> gc_heap rt p;
     (case gc_data x of
        JS_OBJECT sh props c \<Rightarrow> free_object rt p sh props c
      | FUNCTION_BYTECODE cpool realm \<Rightarrow> free_function_bytecode rt p cpool realm
      | _ \<Rightarrow> None) }"

partial_function (option) free_zero_loop :: "gc_runtime \<Rightarrow> gc_runtime option" where
  "free_zero_loop rt = (case gc_zero_ref_count_list rt of
     [] \<Rightarrow> Some rt
   | p # _ \<Rightarrow> do {
       x \<leftarrow> gc_heap rt p;
       if ref_count x = 0 then Option.bind (free_gc_object rt p) free_zero_loop else None })"

definition free_zero_refcount :: "gc_runtime \<Rightarrow> gc_runtime option" where
  "free_zero_refcount rt = do {
     rt \<leftarrow> free_zero_loop (rt\<lparr>gc_phase := PHASE_DECREF\<rparr>);
     Some (rt\<lparr>gc_phase := PHASE_NONE\<rparr>) }"

text \<open>Giving up a reference from outside the collector.\<close>

definition JS_FreeValueRT :: "gc_runtime \<Rightarrow> addr \<Rightarrow> gc_runtime option" where
  "JS_FreeValueRT rt p = do {
     (n, rt) \<leftarrow> dec_ref rt p;
     if n \<le> 0 then
       (let rt = free_value_ptr rt p in
        if gc_phase rt = PHASE_NONE then free_zero_refcount rt else Some rt)
     else Some rt }"

definition JS_DupValue :: "gc_runtime \<Rightarrow> addr \<Rightarrow> gc_runtime option" where
  "JS_DupValue rt p = do {
     x \<leftarrow> gc_heap rt p;
     Some (set_object rt p (x\<lparr>ref_count := ref_count x + 1\<rparr>)) }"

section \<open>Freeing the cycles\<close>

partial_function (option) gc_free_loop :: "gc_runtime \<Rightarrow> gc_runtime option" where
  "gc_free_loop rt = (case tmp_obj_list rt of
     [] \<Rightarrow> Some rt
   | p # _ \<Rightarrow> do {
       x \<leftarrow> gc_heap rt p;
       rt \<leftarrow> (case gc_data x of
          JS_OBJECT _ _ _ \<Rightarrow> free_gc_object rt p
        | FUNCTION_BYTECODE _ _ \<Rightarrow> free_gc_object rt p
        | _ \<Rightarrow> (let rt = list_unlink p rt in Some (rt\<lparr>gc_zero_ref_count_list := gc_zero_ref_count_list rt @ [p]\<rparr>)));
       gc_free_loop rt })"

definition is_js_value :: "gc_data \<Rightarrow> bool" where
  "is_js_value d = (case d of JS_OBJECT _ _ _ \<Rightarrow> True | FUNCTION_BYTECODE _ _ \<Rightarrow> True | _ \<Rightarrow> False)"

text \<open>The last loop of \<^verbatim>\<open>gc_free_cycles\<close>: it only frees, and does not change the list it walks.\<close>

definition gc_free_zombie :: "gc_runtime \<Rightarrow> addr \<Rightarrow> gc_runtime option" where
  "gc_free_zombie rt p = do {
     x \<leftarrow> gc_heap rt p;
     if is_js_value (gc_data x) then Some (js_free_rt p rt) else None }"

definition gc_free_cycles :: "gc_runtime \<Rightarrow> gc_runtime option" where
  "gc_free_cycles rt = do {
     rt \<leftarrow> gc_free_loop (rt\<lparr>gc_phase := PHASE_REMOVE_CYCLES\<rparr>);
     let rt = rt\<lparr>gc_phase := PHASE_NONE\<rparr>;
     rt \<leftarrow> fold_opt gc_free_zombie (gc_zero_ref_count_list rt) rt;
     Some (rt\<lparr>gc_zero_ref_count_list := []\<rparr>) }"

definition JS_RunGC :: "gc_runtime \<Rightarrow> gc_runtime option" where
  "JS_RunGC rt = do {
     rt \<leftarrow> gc_decref rt;
     rt \<leftarrow> gc_scan rt;
     gc_free_cycles rt }"

end
