(* ===== verification/Js_Gc_Mark.thy ===== *)
theory Js_Gc_Mark
  imports Js_Gc
begin

text \<open>
  The marking passes of the collector: subtracting the references between objects leaves the
  external ones, and scanning from the objects that keep some finds exactly the objects reachable
  from outside; every count is restored.
\<close>

section \<open>Lists\<close>

lemma next_in_append: "p \<notin> set xs \<Longrightarrow> next_in (xs @ p # ys) p = Some (first_in ys)"
  by (induction xs) (auto simp: first_in_def)

lemma fold_opt_append: "fold_opt f (xs @ ys) s = Option.bind (fold_opt f xs s) (fold_opt f ys)"
  by (induction xs arbitrary: s) (auto split: bind_splits)

lemma first_in_simps [simp]: "first_in [] = None" "first_in (x # xs) = Some x"
  by (simp_all add: first_in_def)

section \<open>States of the marking passes\<close>

text \<open>Only counts and marks change: the heap is that of the start with other counts and marks.\<close>

definition marked :: "gc_heap \<Rightarrow> (addr \<Rightarrow> int) \<Rightarrow> (addr \<Rightarrow> bool) \<Rightarrow> gc_heap" where
  "marked h rc mk = (\<lambda>a. map_option (\<lambda>x. x\<lparr>ref_count := rc a, gc_mark := mk a\<rparr>) (h a))"

definition mstate :: "gc_heap \<Rightarrow> (addr \<Rightarrow> int) \<Rightarrow> (addr \<Rightarrow> bool) \<Rightarrow> addr list \<Rightarrow> addr list \<Rightarrow> gc_phase \<Rightarrow> gc_runtime" where
  "mstate h rc mk gl tmp ph = \<lparr>gc_heap = marked h rc mk, gc_obj_list = gl, gc_zero_ref_count_list = [], tmp_obj_list = tmp, gc_phase = ph\<rparr>"

definition children :: "gc_heap \<Rightarrow> addr \<Rightarrow> addr list" where
  "children h a = (case h a of None \<Rightarrow> [] | Some x \<Rightarrow> (case mark_children h (gc_data x) of None \<Rightarrow> [] | Some xs \<Rightarrow> xs))"

text \<open>The references to \<open>a\<close> from the objects of a list.\<close>

definition refs_from :: "gc_heap \<Rightarrow> addr list \<Rightarrow> addr \<Rightarrow> int" where
  "refs_from h bs a = (\<Sum>b\<leftarrow>bs. int (count_list (children h b) a))"

lemma refs_from_simps [simp]:
  "refs_from h [] a = 0" "refs_from h (b # bs) a = int (count_list (children h b) a) + refs_from h bs a"
  "refs_from h (xs @ ys) a = refs_from h xs a + refs_from h ys a"
  by (simp_all add: refs_from_def)

lemma refs_from_nonneg: "0 \<le> refs_from h bs a"
  unfolding refs_from_def by (rule sum_list_nonneg) auto

lemma refs_from_pos: "b \<in> set bs \<Longrightarrow> a \<in> set (children h b) \<Longrightarrow> 0 < refs_from h bs a"
proof (induction bs)
  case (Cons c bs)
  have "0 < count_list (children h c) a" if "a \<in> set (children h c)" using that by (metis count_list_0_iff gr0I)
  then show ?case using Cons refs_from_nonneg[of h bs a] by (auto intro: add_pos_nonneg add_nonneg_pos)
qed simp

lemma refs_from_mset: "mset xs = mset ys \<Longrightarrow> refs_from h xs a = refs_from h ys a"
  unfolding refs_from_def by (metis mset_map sum_mset_sum_list)

lemma mark_prop_cong: "is_detached h = is_detached h' \<Longrightarrow> mark_prop h x = mark_prop h' x"
  by (induction h x rule: mark_prop.induct) auto

lemma mark_children_cong:
  assumes "is_detached h = is_detached h'"
  shows "mark_children h d = mark_children h' d"
proof -
  have "mark_prop h = mark_prop h'" using mark_prop_cong[OF assms] by blast
  moreover have "class_gc_mark h c = class_gc_mark h' c" for c
    by (cases c) (simp_all add: js_bytecode_function_mark_def assms split: option.split)
  ultimately show ?thesis by (cases d) simp_all
qed

lemma is_detached_marked: "is_detached (marked h rc mk) = is_detached h"
  by (auto simp: is_detached_def marked_def fun_eq_iff split: option.splits)

lemmas mark_children_marked = mark_children_cong[OF is_detached_marked]

lemma marked_at: "h a = Some x \<Longrightarrow> marked h rc mk a = Some (x\<lparr>ref_count := rc a, gc_mark := mk a\<rparr>)"
  by (simp add: marked_def)

lemma set_object_mstate:
  "h a = Some x \<Longrightarrow> gc_data y = gc_data x \<Longrightarrow>
     set_object (mstate h rc mk gl tmp ph) a y = mstate h (rc(a := ref_count y)) (mk(a := gc_mark y)) gl tmp ph"
  by (auto simp: set_object_def mstate_def marked_def fun_eq_iff)

lemma list_unlink_mstate: "list_unlink a (mstate h rc mk gl tmp ph) = mstate h rc mk (removeAll a gl) (removeAll a tmp) ph"
  by (simp add: list_unlink_def mstate_def)

lemma mstate_sel [simp]:
  "gc_heap (mstate h rc mk gl tmp ph) = marked h rc mk" "gc_obj_list (mstate h rc mk gl tmp ph) = gl"
  "tmp_obj_list (mstate h rc mk gl tmp ph) = tmp" "gc_phase (mstate h rc mk gl tmp ph) = ph"
  "(mstate h rc mk gl tmp ph)\<lparr>tmp_obj_list := tmp'\<rparr> = mstate h rc mk gl tmp' ph"
  "(mstate h rc mk gl tmp ph)\<lparr>gc_obj_list := gl'\<rparr> = mstate h rc mk gl' tmp ph"
  by (simp_all add: mstate_def)

text \<open>The objects of the collector: the children of a listed object are listed.\<close>

definition closed_list :: "gc_heap \<Rightarrow> addr list \<Rightarrow> bool" where
  "closed_list h L \<longleftrightarrow> distinct L \<and>
     (\<forall>a\<in>set L. \<exists>x xs. h a = Some x \<and> mark_children h (gc_data x) = Some xs \<and> set xs \<subseteq> set L)"

lemma closed_list_at:
  assumes "closed_list h L" "a \<in> set L"
  obtains x where "h a = Some x" "mark_children h (gc_data x) = Some (children h a)" "set (children h a) \<subseteq> set L"
  using assms by (auto simp: closed_list_def children_def)

section \<open>Subtracting the internal references\<close>

lemma decref_child_eq:
  assumes "h a = Some x" "0 < rc a"
  shows "gc_decref_child (mstate h rc mk gl tmp ph) a =
    Some (if rc a = 1 \<and> mk a then mstate h (rc(a := rc a - 1)) mk (removeAll a gl) (removeAll a tmp @ [a]) ph
      else mstate h (rc(a := rc a - 1)) mk gl tmp ph)"
  using assms by (simp add: gc_decref_child_def marked_at Let_def list_unlink_mstate set_object_mstate)

text \<open>Between two objects: the visited ones are marked, and those without a count left are moved.\<close>

definition decref_inv :: "gc_heap \<Rightarrow> gc_phase \<Rightarrow> addr list \<Rightarrow> addr list \<Rightarrow> (addr \<Rightarrow> int) \<Rightarrow> gc_runtime \<Rightarrow> bool" where
  "decref_inv h ph V U rc rt \<longleftrightarrow>
     (\<exists>tmp. rt = mstate h rc (\<lambda>a. a \<in> set V) (filter (\<lambda>a. rc a \<noteq> 0) V @ U) tmp ph \<and>
       distinct tmp \<and> set tmp = {a \<in> set V. rc a = 0})"

lemma decref_children:
  assumes L: "distinct (V @ U)" "set (V @ U) \<subseteq> dom h"
  shows "decref_inv h ph V U rc rt \<Longrightarrow> set xs \<subseteq> set (V @ U) \<Longrightarrow> (\<And>a. int (count_list xs a) \<le> rc a) \<Longrightarrow>
    \<exists>rt'. fold_opt gc_decref_child xs rt = Some rt' \<and> decref_inv h ph V U (\<lambda>a. rc a - int (count_list xs a)) rt'"
proof (induction xs arbitrary: rc rt)
  case (Cons a xs)
  obtain tmp where tmp: "rt = mstate h rc (\<lambda>a. a \<in> set V) (filter (\<lambda>a. rc a \<noteq> 0) V @ U) tmp ph"
      "distinct tmp" "set tmp = {a \<in> set V. rc a = 0}"
    using Cons.prems(1) by (auto simp: decref_inv_def)
  obtain x where x: "h a = Some x" using Cons.prems(2) L(2) by auto
  have pos: "0 < rc a" using Cons.prems(3)[of a] by simp
  let ?rc = "rc(a := rc a - 1)"
  have "\<exists>rt1. gc_decref_child rt a = Some rt1 \<and> decref_inv h ph V U ?rc rt1"
  proof (cases "rc a = 1 \<and> a \<in> set V")
    case True
    then have "removeAll a U = U" "removeAll a (filter (\<lambda>a. rc a \<noteq> 0) V) = filter (\<lambda>a. ?rc a \<noteq> 0) V"
      using L(1) by (auto simp: removeAll_filter_not_eq filter_id_conv intro!: filter_cong)
    then have "removeAll a (filter (\<lambda>a. rc a \<noteq> 0) V @ U) = filter (\<lambda>a. ?rc a \<noteq> 0) V @ U" by simp
    moreover have "a \<notin> set tmp" using tmp(3) pos by simp
    ultimately show ?thesis using decref_child_eq[of h a x rc, OF x pos] True tmp by (auto simp: decref_inv_def)
  next
    case False
    then have "filter (\<lambda>a. rc a \<noteq> 0) V = filter (\<lambda>a. ?rc a \<noteq> 0) V" "{a \<in> set V. rc a = 0} = {b \<in> set V. ?rc b = 0}"
      using pos by (auto intro!: filter_cong)
    then show ?thesis using decref_child_eq[of h a x rc, OF x pos] False tmp by (auto simp: decref_inv_def)
  qed
  then obtain rt1 where rt1: "gc_decref_child rt a = Some rt1" "decref_inv h ph V U ?rc rt1" by blast
  have "int (count_list xs b) \<le> ?rc b" for b using Cons.prems(3)[of b] by (auto split: if_splits)
  then obtain rt' where "fold_opt gc_decref_child xs rt1 = Some rt'" "decref_inv h ph V U (\<lambda>b. ?rc b - int (count_list xs b)) rt'"
    using Cons.IH[OF rt1(2)] Cons.prems(2) by auto
  moreover have "(\<lambda>b. ?rc b - int (count_list xs b)) = (\<lambda>b. rc b - int (count_list (a # xs) b))" by auto
  ultimately show ?case using rt1(1) by auto
qed simp

lemma decref_visit:
  assumes L: "closed_list h (V @ p # U)" and i: "decref_inv h ph V (p # U) rc rt"
    and rc: "\<And>a. int (count_list (children h p) a) \<le> rc a"
  shows "\<exists>rt'. gc_decref_visit rt p = Some rt' \<and> decref_inv h ph (V @ [p]) U (\<lambda>a. rc a - int (count_list (children h p) a)) rt'"
proof -
  define rc1 where "rc1 = (\<lambda>a. rc a - int (count_list (children h p) a))"
  obtain x where x: "h p = Some x" "mark_children h (gc_data x) = Some (children h p)" "set (children h p) \<subseteq> set (V @ p # U)"
    using closed_list_at[OF L, of p] by auto
  have d: "distinct (V @ p # U)" "set (V @ p # U) \<subseteq> dom h" using L by (auto simp: closed_list_def)
  obtain rt1 where rt1: "fold_opt gc_decref_child (children h p) rt = Some rt1" "decref_inv h ph V (p # U) rc1 rt1"
    using decref_children[OF d i x(3) rc] unfolding rc1_def by blast
  obtain tmp where tmp: "rt1 = mstate h rc1 (\<lambda>a. a \<in> set V) (filter (\<lambda>a. rc1 a \<noteq> 0) V @ p # U) tmp ph"
      "distinct tmp" "set tmp = {a \<in> set V. rc1 a = 0}"
    using rt1(2) by (auto simp: decref_inv_def)
  have rt: "\<exists>gl tmp. rt = mstate h rc (\<lambda>a. a \<in> set V) gl tmp ph" using i by (auto simp: decref_inv_def)
  have mk: "(\<lambda>a. a \<in> set V)(p := True) = (\<lambda>a. a \<in> set (V @ [p]))" by (auto simp: fun_eq_iff)
  have so: "set_object rt1 p y = mstate h rc1 (\<lambda>a. a \<in> set (V @ [p])) (filter (\<lambda>a. rc1 a \<noteq> 0) V @ p # U) tmp ph"
    if "gc_data y = gc_data x" "ref_count y = rc1 p" "gc_mark y" for y
    unfolding mk[symmetric] using that x(1) by (simp add: tmp(1) set_object_mstate)
  have np: "p \<notin> set V" "p \<notin> set U" "p \<notin> set tmp" using d(1) tmp(3) by auto
  have "gc_decref_visit rt p = Some (if rc1 p = 0
      then mstate h rc1 (\<lambda>a. a \<in> set (V @ [p])) (filter (\<lambda>a. rc1 a \<noteq> 0) V @ U) (tmp @ [p]) ph
      else mstate h rc1 (\<lambda>a. a \<in> set (V @ [p])) (filter (\<lambda>a. rc1 a \<noteq> 0) V @ p # U) tmp ph)"
    using rt np x(1,2) rt1(1) so
    by (auto simp: gc_decref_visit_def marked_at mark_children_marked Let_def tmp(1) list_unlink_mstate removeAll_id)
  then show ?thesis unfolding rc1_def[symmetric] using tmp(2,3) np by (auto simp: decref_inv_def)
qed

lemma decref_loop:
  "closed_list h (V @ U) \<Longrightarrow> decref_inv h ph V U rc rt \<Longrightarrow> (\<And>a. refs_from h U a \<le> rc a) \<Longrightarrow>
    \<exists>rt'. gc_decref_loop rt (first_in U) = Some rt' \<and> decref_inv h ph (V @ U) [] (\<lambda>a. rc a - refs_from h U a) rt'"
proof (induction U arbitrary: V rc rt)
  case Nil
  then show ?case by (simp add: gc_decref_loop.simps)
next
  case (Cons p U)
  let ?rc = "\<lambda>a. rc a - int (count_list (children h p) a)"
  have "int (count_list (children h p) a) \<le> rc a" for a using Cons.prems(3)[of a] refs_from_nonneg[of h U a] by simp
  then obtain rt1 where rt1: "gc_decref_visit rt p = Some rt1" "decref_inv h ph (V @ [p]) U ?rc rt1"
    using decref_visit[OF Cons.prems(1,2)] by blast
  have "refs_from h U a \<le> ?rc a" for a using Cons.prems(3)[of a] by simp
  then obtain rt' where rt': "gc_decref_loop rt1 (first_in U) = Some rt'"
      "decref_inv h ph ((V @ [p]) @ U) [] (\<lambda>a. ?rc a - refs_from h U a) rt'"
    using Cons.IH[of "V @ [p]" ?rc rt1] Cons.prems(1) rt1(2) by auto
  have "next_in (gc_obj_list rt) p = Some (first_in U)"
    using Cons.prems(1,2) by (auto simp: decref_inv_def closed_list_def next_in_append)
  then have "gc_decref_loop rt (first_in (p # U)) = Some rt'" using rt1(1) rt'(1) by (simp add: gc_decref_loop.simps[of rt])
  then show ?case using rt'(2) by (simp add: algebra_simps)
qed

section \<open>Scanning from the external references\<close>

lemma incref_child_eq:
  assumes "h a = Some x"
  shows "gc_scan_incref_child (mstate h rc mk gl tmp ph) a =
    Some (if rc a = 0 then mstate h (rc(a := 1)) (mk(a := False)) (removeAll a gl @ [a]) (removeAll a tmp) ph
      else mstate h (rc(a := rc a + 1)) mk gl tmp ph)"
  using assms by (simp add: gc_scan_incref_child_def marked_at Let_def list_unlink_mstate set_object_mstate)

lemma incref_child2_eq:
  assumes "h a = Some x"
  shows "gc_scan_incref_child2 (mstate h rc mk gl tmp ph) a = Some (mstate h (rc(a := rc a + 1)) mk gl tmp ph)"
  using assms by (simp add: gc_scan_incref_child2_def marked_at set_object_mstate)

text \<open>
  While the first loop runs, the objects with a count are in the list of the live ones, the others
  wait in the temporary list and are marked.
\<close>

definition scan_inv :: "addr list \<Rightarrow> (addr \<Rightarrow> int) \<Rightarrow> (addr \<Rightarrow> bool) \<Rightarrow> addr list \<Rightarrow> addr list \<Rightarrow> bool" where
  "scan_inv L rc mk gl tmp \<longleftrightarrow>
     distinct (gl @ tmp) \<and> set (gl @ tmp) = set L \<and> (\<forall>a\<in>set gl. 0 < rc a) \<and> (\<forall>a\<in>set tmp. rc a = 0 \<and> mk a)"

lemma scan_inv_incref:
  assumes i: "scan_inv L rc mk gl tmp" and a: "a \<in> set L"
  shows "rc a = 0 \<Longrightarrow> a \<notin> set gl \<and> scan_inv L (rc(a := 1)) (mk(a := False)) (gl @ [a]) (removeAll a tmp)"
    "rc a \<noteq> 0 \<Longrightarrow> scan_inv L (rc(a := rc a + 1)) mk gl tmp"
  using assms by (auto simp: scan_inv_def distinct_removeAll)

lemma incref_children:
  assumes L: "set L \<subseteq> dom h"
  shows "scan_inv L rc mk gl tmp \<Longrightarrow> set xs \<subseteq> set L \<Longrightarrow>
    \<exists>ns mk' tmp'. fold_opt gc_scan_incref_child xs (mstate h rc mk gl tmp ph) =
        Some (mstate h (\<lambda>a. rc a + int (count_list xs a)) mk' (gl @ ns) tmp' ph) \<and>
      scan_inv L (\<lambda>a. rc a + int (count_list xs a)) mk' (gl @ ns) tmp' \<and> set ns \<subseteq> set xs \<and>
      (\<forall>a. \<not> mk a \<or> a \<in> set ns \<longrightarrow> \<not> mk' a)"
proof (induction xs arbitrary: rc mk gl tmp)
  case Nil
  then show ?case by (intro exI[of _ "[]"] exI[of _ mk] exI[of _ tmp]) simp
next
  case (Cons a xs)
  obtain x where x: "h a = Some x" using Cons.prems(2) L by auto
  have a: "a \<in> set L" "set xs \<subseteq> set L" using Cons.prems(2) by auto
  define rc1 where "rc1 = rc(a := rc a + 1)"
  have rc: "(\<lambda>b. rc1 b + int (count_list xs b)) = (\<lambda>b. rc b + int (count_list (a # xs) b))" by (auto simp: rc1_def)
  show ?case
  proof (cases "rc a = 0")
    case True
    then have rc1: "rc1 = rc(a := 1)" by (simp add: rc1_def)
    have i: "a \<notin> set gl" "scan_inv L rc1 (mk(a := False)) (gl @ [a]) (removeAll a tmp)"
      using scan_inv_incref(1)[OF Cons.prems(1) a(1) True] by (simp_all add: rc1)
    obtain ns mk' tmp' where "fold_opt gc_scan_incref_child xs (mstate h rc1 (mk(a := False)) (gl @ [a]) (removeAll a tmp) ph) =
          Some (mstate h (\<lambda>b. rc1 b + int (count_list xs b)) mk' ((gl @ [a]) @ ns) tmp' ph)"
        "scan_inv L (\<lambda>b. rc1 b + int (count_list xs b)) mk' ((gl @ [a]) @ ns) tmp'" "set ns \<subseteq> set xs"
        "\<forall>b. \<not> (mk(a := False)) b \<or> b \<in> set ns \<longrightarrow> \<not> mk' b"
      using Cons.IH[OF i(2) a(2)] by blast
    then show ?thesis unfolding rc using incref_child_eq[of h a x rc mk gl tmp ph, OF x] True i(1) rc1
      by (intro exI[of _ "a # ns"] exI[of _ mk'] exI[of _ tmp']) (auto simp: fun_upd_def)
  next
    case False
    have i: "scan_inv L rc1 mk gl tmp" using scan_inv_incref(2)[OF Cons.prems(1) a(1) False] by (simp add: rc1_def)
    obtain ns mk' tmp' where "fold_opt gc_scan_incref_child xs (mstate h rc1 mk gl tmp ph) =
          Some (mstate h (\<lambda>b. rc1 b + int (count_list xs b)) mk' (gl @ ns) tmp' ph)"
        "scan_inv L (\<lambda>b. rc1 b + int (count_list xs b)) mk' (gl @ ns) tmp'" "set ns \<subseteq> set xs"
        "\<forall>b. \<not> mk b \<or> b \<in> set ns \<longrightarrow> \<not> mk' b"
      using Cons.IH[OF i a(2)] by blast
    then show ?thesis unfolding rc using incref_child_eq[of h a x rc mk gl tmp ph, OF x] False
      by (intro exI[of _ ns] exI[of _ mk'] exI[of _ tmp']) (auto simp: rc1_def)
  qed
qed

lemma scan_visit:
  assumes L: "closed_list h L" and i: "scan_inv L rc mk (P @ p # R) tmp"
  shows "\<exists>ns mk' tmp'. gc_scan_visit (mstate h rc mk (P @ p # R) tmp ph) p =
        Some (mstate h (\<lambda>a. rc a + int (count_list (children h p) a)) mk' (P @ p # R @ ns) tmp' ph) \<and>
      scan_inv L (\<lambda>a. rc a + int (count_list (children h p) a)) mk' (P @ p # R @ ns) tmp' \<and> set ns \<subseteq> set (children h p) \<and>
      (\<forall>a. \<not> mk a \<or> a = p \<or> a \<in> set ns \<longrightarrow> \<not> mk' a)"
proof -
  have p: "p \<in> set L" "0 < rc p" using i by (auto simp: scan_inv_def)
  obtain x where x: "h p = Some x" "mark_children h (gc_data x) = Some (children h p)" "set (children h p) \<subseteq> set L"
    using closed_list_at[OF L p(1)] by blast
  have "scan_inv L rc (mk(p := False)) (P @ p # R) tmp" using i p(2) by (auto simp: scan_inv_def)
  moreover have "set L \<subseteq> dom h" using L by (auto simp: closed_list_def)
  ultimately obtain ns mk' tmp' where "fold_opt gc_scan_incref_child (children h p) (mstate h rc (mk(p := False)) (P @ p # R) tmp ph) =
        Some (mstate h (\<lambda>a. rc a + int (count_list (children h p) a)) mk' ((P @ p # R) @ ns) tmp' ph)"
      "scan_inv L (\<lambda>a. rc a + int (count_list (children h p) a)) mk' ((P @ p # R) @ ns) tmp'" "set ns \<subseteq> set (children h p)"
      "\<forall>a. \<not> (mk(p := False)) a \<or> a \<in> set ns \<longrightarrow> \<not> mk' a"
    using incref_children[of L h rc "mk(p := False)"] x(3) by blast
  moreover have "gc_scan_visit (mstate h rc mk (P @ p # R) tmp ph) p =
      fold_opt gc_scan_incref_child (children h p) (mstate h rc (mk(p := False)) (P @ p # R) tmp ph)"
    using x(1,2) p(2) by (simp add: gc_scan_visit_def marked_at Let_def set_object_mstate mark_children_marked)
  ultimately show ?thesis by (intro exI[of _ ns] exI[of _ mk'] exI[of _ tmp']) (auto simp: fun_upd_def)
qed

text \<open>The objects that the rest of the program can still reach: those with an external reference and their descendants.\<close>

inductive gc_reachable :: "gc_heap \<Rightarrow> (addr \<Rightarrow> int) \<Rightarrow> addr \<Rightarrow> bool" for h ext where
  root: "0 < ext a \<Longrightarrow> gc_reachable h ext a"
| child: "gc_reachable h ext b \<Longrightarrow> a \<in> set (children h b) \<Longrightarrow> gc_reachable h ext a"

lemma scan_keep_loop:
  assumes L: "closed_list h L"
  shows "scan_inv L rc mk (P @ R) tmp \<Longrightarrow> (\<And>a. rc a = ext a + refs_from h P a) \<Longrightarrow> (\<forall>a\<in>set (P @ R). gc_reachable h ext a) \<Longrightarrow>
      (\<forall>a\<in>set P. \<not> mk a) \<Longrightarrow>
    \<exists>rc' mk' P' tmp'. gc_scan_keep (mstate h rc mk (P @ R) tmp ph) (first_in R) = Some (mstate h rc' mk' P' tmp' ph) \<and>
      scan_inv L rc' mk' P' tmp' \<and> (\<forall>a. rc' a = ext a + refs_from h P' a) \<and> (\<forall>a\<in>set P'. gc_reachable h ext a \<and> \<not> mk' a) \<and>
      (\<forall>a. \<not> mk a \<longrightarrow> \<not> mk' a)"
proof (induction "length L - length P" arbitrary: P R rc mk tmp rule: less_induct)
  case less
  show ?case
  proof (cases R)
    case Nil
    then show ?thesis using less.prems
      by (intro exI[of _ rc] exI[of _ mk] exI[of _ P] exI[of _ tmp]) (simp add: gc_scan_keep.simps)
  next
    case (Cons p R')
    define rc1 where "rc1 = (\<lambda>a. rc a + int (count_list (children h p) a))"
    obtain ns mk1 tmp1 where v: "gc_scan_visit (mstate h rc mk (P @ p # R') tmp ph) p = Some (mstate h rc1 mk1 (P @ p # R' @ ns) tmp1 ph)"
        "scan_inv L rc1 mk1 (P @ p # R' @ ns) tmp1" "set ns \<subseteq> set (children h p)"
        "\<forall>a. \<not> mk a \<or> a = p \<or> a \<in> set ns \<longrightarrow> \<not> mk1 a"
      using scan_visit[OF L less.prems(1)[unfolded Cons]] unfolding rc1_def by blast
    have d: "distinct (P @ p # R' @ ns)" "set (P @ p # R' @ ns) \<subseteq> set L" using v(2) by (auto simp: scan_inv_def)
    have "card (set (P @ [p])) \<le> card (set L)" using d(2) by (intro card_mono) auto
    then have "length (P @ [p]) \<le> card (set L)" using d(1) by (simp add: distinct_card[symmetric])
    then have m: "length L - length (P @ [p]) < length L - length P" using card_length[of L] by simp
    have "\<forall>a\<in>set ((P @ [p]) @ R' @ ns). gc_reachable h ext a"
      using less.prems(3) Cons v(3) by (auto intro: gc_reachable.child)
    moreover have "rc1 a = ext a + refs_from h (P @ [p]) a" for a using less.prems(2)[of a] by (simp add: rc1_def)
    moreover have "\<forall>a\<in>set (P @ [p]). \<not> mk1 a" using v(4) less.prems(4) by auto
    ultimately obtain rc' mk' P' tmp' where
        "gc_scan_keep (mstate h rc1 mk1 ((P @ [p]) @ R' @ ns) tmp1 ph) (first_in (R' @ ns)) = Some (mstate h rc' mk' P' tmp' ph)"
        "scan_inv L rc' mk' P' tmp' \<and> (\<forall>a. rc' a = ext a + refs_from h P' a) \<and> (\<forall>a\<in>set P'. gc_reachable h ext a \<and> \<not> mk' a) \<and>
          (\<forall>a. \<not> mk1 a \<longrightarrow> \<not> mk' a)"
      using less.hyps[OF m, of rc1 mk1 "R' @ ns" tmp1] v(2) by auto
    moreover have "next_in (P @ p # R' @ ns) p = Some (first_in (R' @ ns))" using d(1) by (intro next_in_append) auto
    ultimately show ?thesis using v(1,4) Cons
      by (intro exI[of _ rc'] exI[of _ mk'] exI[of _ P'] exI[of _ tmp']) (simp add: gc_scan_keep.simps[of "mstate h rc mk (P @ p # R') tmp ph"])
  qed
qed

lemma incref_children2:
  "set xs \<subseteq> dom h \<Longrightarrow> fold_opt gc_scan_incref_child2 xs (mstate h rc mk gl tmp ph) =
     Some (mstate h (\<lambda>a. rc a + int (count_list xs a)) mk gl tmp ph)"
proof (induction xs arbitrary: rc)
  case (Cons a xs)
  then obtain x where x: "h a = Some x" by auto
  have "(\<lambda>b. (rc(a := rc a + 1)) b + int (count_list xs b)) = (\<lambda>b. rc b + int (count_list (a # xs) b))" by auto
  then show ?case using Cons incref_child2_eq[of h a x rc mk gl tmp ph, OF x] by simp
qed simp

lemma scan_restore_loop:
  assumes L: "closed_list h L"
  shows "distinct (P @ R) \<Longrightarrow> set R \<subseteq> set L \<Longrightarrow>
    gc_scan_restore (mstate h rc mk gl (P @ R) ph) (first_in R) = Some (mstate h (\<lambda>a. rc a + refs_from h R a) mk gl (P @ R) ph)"
proof (induction R arbitrary: P rc)
  case Nil
  then show ?case by (simp add: gc_scan_restore.simps)
next
  case (Cons p R)
  obtain x where x: "h p = Some x" "mark_children h (gc_data x) = Some (children h p)" "set (children h p) \<subseteq> set L"
    using closed_list_at[OF L, of p] Cons.prems(2) by auto
  have "set (children h p) \<subseteq> dom h" using x(3) L by (force simp: closed_list_def)
  then have "gc_scan_restore_visit (mstate h rc mk gl (P @ p # R) ph) p =
      Some (mstate h (\<lambda>a. rc a + int (count_list (children h p) a)) mk gl (P @ p # R) ph)"
    using x(1,2) by (simp add: gc_scan_restore_visit_def marked_at mark_children_marked incref_children2)
  moreover have "next_in (P @ p # R) p = Some (first_in R)" using Cons.prems(1) by (intro next_in_append) auto
  moreover have "(\<lambda>a. rc a + int (count_list (children h p) a) + refs_from h R a) = (\<lambda>a. rc a + refs_from h (p # R) a)" by auto
  ultimately show ?case using Cons.IH[of "P @ [p]" "\<lambda>a. rc a + int (count_list (children h p) a)"] Cons.prems
    by (simp add: gc_scan_restore.simps[of _ "Some p"])
qed

section \<open>The two passes together\<close>

text \<open>
  The external references to an object: its count without the references from the objects of the
  collector. A heap is ready for the collector if no count is smaller than the internal references;
  the only objects outside its list are the variables that still are in a stack frame.
\<close>

definition rc_of :: "gc_heap \<Rightarrow> addr \<Rightarrow> int" where
  "rc_of h a = (case h a of None \<Rightarrow> 0 | Some x \<Rightarrow> ref_count x)"

definition external :: "gc_runtime \<Rightarrow> addr \<Rightarrow> int" where
  "external rt a = rc_of (gc_heap rt) a - refs_from (gc_heap rt) (gc_obj_list rt) a"

definition gc_ready :: "gc_runtime \<Rightarrow> bool" where
  "gc_ready rt \<longleftrightarrow> closed_list (gc_heap rt) (gc_obj_list rt) \<and> gc_zero_ref_count_list rt = [] \<and>
     (\<forall>a x. gc_heap rt a = Some x \<longrightarrow> \<not> gc_mark x \<and> 0 \<le> external rt a \<and>
       (a \<in> set (gc_obj_list rt) \<or> (\<exists>v. gc_data x = VAR_REF False v)))"

lemma refs_from_outside:
  assumes "closed_list h L" "a \<notin> set L"
  shows "refs_from h L a = 0"
proof -
  have "count_list (children h b) a = 0" if "b \<in> set L" for b
    using closed_list_at[OF assms(1) that] assms(2) by (metis count_list_0_iff subsetD)
  then have "map (\<lambda>b. int (count_list (children h b) a)) L = map (\<lambda>_. 0) L" by simp
  then show ?thesis unfolding refs_from_def by (simp only: sum_list_0)
qed

lemma external_nonneg:
  assumes "gc_ready rt"
  shows "0 \<le> external rt a"
proof (cases "gc_heap rt a")
  case None
  then have "a \<notin> set (gc_obj_list rt)" using assms by (auto simp: gc_ready_def closed_list_def)
  then show ?thesis using assms None refs_from_outside by (simp add: gc_ready_def external_def rc_of_def)
qed (use assms in \<open>auto simp: gc_ready_def\<close>)

lemma gc_ready_mstate:
  assumes "gc_ready rt"
  shows "rt\<lparr>tmp_obj_list := []\<rparr> = mstate (gc_heap rt) (rc_of (gc_heap rt)) (\<lambda>_. False) (gc_obj_list rt) [] (gc_phase rt)"
proof -
  have "marked (gc_heap rt) (rc_of (gc_heap rt)) (\<lambda>_. False) = gc_heap rt"
    using assms by (auto simp: marked_def rc_of_def gc_ready_def fun_eq_iff split: option.splits)
  then show ?thesis using assms by (simp add: mstate_def gc_ready_def)
qed

lemma gc_decref_ready:
  assumes "gc_ready rt"
  shows "\<exists>rt'. gc_decref rt = Some rt' \<and> decref_inv (gc_heap rt) (gc_phase rt) (gc_obj_list rt) [] (external rt) rt'"
proof -
  let ?h = "gc_heap rt" and ?L = "gc_obj_list rt"
  have "decref_inv ?h (gc_phase rt) [] ?L (rc_of ?h) (rt\<lparr>tmp_obj_list := []\<rparr>)"
    using gc_ready_mstate[OF assms] by (simp add: decref_inv_def)
  moreover have "refs_from ?h ?L a \<le> rc_of ?h a" for a using external_nonneg[OF assms, of a] by (simp add: external_def)
  ultimately show ?thesis using decref_loop[of ?h "[]" ?L "gc_phase rt" "rc_of ?h"] assms
    by (simp add: gc_decref_def Let_def gc_ready_def external_def[abs_def])
qed

lemma reachable_in:
  assumes "closed_list h L" "set P \<subseteq> set L" "\<And>a. a \<in> set L \<Longrightarrow> 0 < ext a + refs_from h P a \<Longrightarrow> a \<in> set P"
    and "\<And>a. 0 \<le> ext a" "\<And>a. 0 < ext a \<Longrightarrow> a \<in> set L \<or> children h a = []"
  shows "gc_reachable h ext a \<Longrightarrow> a \<in> set P \<or> a \<notin> set L \<and> children h a = []"
proof (induction rule: gc_reachable.induct)
  case (root a)
  then show ?case using assms(3)[of a] assms(5)[of a] refs_from_nonneg[of h P a] by auto
next
  case (child b a)
  then have b: "b \<in> set P" by auto
  have "set (children h b) \<subseteq> set L" using closed_list_at[OF assms(1)] b assms(2) by blast
  then have "a \<in> set L" using child.hyps(2) by blast
  then show ?case using assms(3)[of a] assms(4)[of a] refs_from_pos[OF b child.hyps(2)] by auto
qed

text \<open>The state after the two passes.\<close>

definition gc_split :: "gc_runtime \<Rightarrow> gc_runtime \<Rightarrow> bool" where
  "gc_split rt rt' \<longleftrightarrow>
     gc_heap rt' = marked (gc_heap rt) (rc_of (gc_heap rt)) (\<lambda>a. a \<in> set (tmp_obj_list rt')) \<and>
     gc_zero_ref_count_list rt' = [] \<and> gc_phase rt' = gc_phase rt \<and> distinct (gc_obj_list rt' @ tmp_obj_list rt') \<and>
     set (gc_obj_list rt') = {a \<in> set (gc_obj_list rt). gc_reachable (gc_heap rt) (external rt) a} \<and>
     set (tmp_obj_list rt') = {a \<in> set (gc_obj_list rt). \<not> gc_reachable (gc_heap rt) (external rt) a}"

lemma children_unlisted:
  assumes "gc_ready rt" "a \<notin> set (gc_obj_list rt)"
  shows "children (gc_heap rt) a = []"
proof (cases "gc_heap rt a")
  case (Some x)
  then obtain v where "gc_data x = VAR_REF False v" using assms by (auto simp: gc_ready_def)
  then show ?thesis using Some by (simp add: children_def)
qed (simp add: children_def)

lemma gc_marks:
  assumes ready: "gc_ready rt"
  shows "\<exists>rt1 rt2. gc_decref rt = Some rt1 \<and> gc_scan rt1 = Some rt2 \<and> gc_split rt rt2"
proof -
  let ?h = "gc_heap rt" and ?L = "gc_obj_list rt" and ?ph = "gc_phase rt" and ?ext = "external rt"
  have L: "closed_list ?h ?L" using ready by (simp add: gc_ready_def)
  note ext0 = external_nonneg[OF ready]
  obtain rt1 tmp where rt1: "gc_decref rt = Some rt1" "rt1 = mstate ?h ?ext (\<lambda>a. a \<in> set ?L) ([] @ filter (\<lambda>a. ?ext a \<noteq> 0) ?L) tmp ?ph"
      "distinct tmp" "set tmp = {a \<in> set ?L. ?ext a = 0}"
    using gc_decref_ready[OF ready] by (auto simp: decref_inv_def)
  have i: "scan_inv ?L ?ext (\<lambda>a. a \<in> set ?L) ([] @ filter (\<lambda>a. ?ext a \<noteq> 0) ?L) tmp"
    using rt1(3,4) L ext0 by (auto simp: scan_inv_def closed_list_def less_le)
  have roots: "\<forall>a\<in>set ([] @ filter (\<lambda>a. ?ext a \<noteq> 0) ?L). gc_reachable ?h ?ext a"
    using ext0 by (auto simp: less_le intro: gc_reachable.root)
  obtain rc mk P tmp' where k: "gc_scan_keep rt1 (first_in (gc_obj_list rt1)) = Some (mstate ?h rc mk P tmp' ?ph)"
      "scan_inv ?L rc mk P tmp'" "\<And>a. rc a = ?ext a + refs_from ?h P a" "\<forall>a\<in>set P. gc_reachable ?h ?ext a \<and> \<not> mk a"
      "\<And>a. a \<notin> set ?L \<Longrightarrow> \<not> mk a"
    using scan_keep_loop[OF L i _ roots, where ph = "gc_phase rt"] rt1(2) by auto
  have P: "distinct (P @ tmp')" "set (P @ tmp') = set ?L" "\<And>a. a \<in> set tmp' \<Longrightarrow> rc a = 0 \<and> mk a" using k(2) by (auto simp: scan_inv_def)
  have keep: "a \<in> set P" if "a \<in> set ?L" "0 < ?ext a + refs_from ?h P a" for a
    using that P(2) P(3)[of a] k(3)[of a] by (cases "a \<in> set P") auto
  have "gc_reachable ?h ?ext a \<Longrightarrow> a \<in> set P \<or> a \<notin> set ?L \<and> children ?h a = []" for a
    by (rule reachable_in[OF L _ keep ext0]) (use P(2) children_unlisted[OF ready] in auto)
  then have sets: "set P = {a \<in> set ?L. gc_reachable ?h ?ext a}" "set tmp' = {a \<in> set ?L. \<not> gc_reachable ?h ?ext a}"
    using P k(4) by auto
  have "mset (P @ tmp') = mset ?L" using P(1,2) L by (metis closed_list_def set_eq_iff_mset_eq_distinct)
  then have rc: "rc a + refs_from ?h tmp' a = rc_of ?h a" for a
    using refs_from_mset[of "P @ tmp'" ?L ?h a] k(3)[of a] by (simp add: external_def)
  have mk: "mk = (\<lambda>a. a \<in> set tmp')" 
  proof (intro ext iffI)
    fix a
    show "mk a \<Longrightarrow> a \<in> set tmp'" using k(4) k(5)[of a] P(2) by (cases "a \<in> set P") auto
    show "a \<in> set tmp' \<Longrightarrow> mk a" using P(3) by blast
  qed
  have "set tmp' \<subseteq> set ?L" using P(2) by auto
  then have "gc_scan rt1 = Some (mstate ?h (rc_of ?h) (\<lambda>a. a \<in> set tmp') P tmp' ?ph)"
    using k(1) scan_restore_loop[OF L, of "[]" tmp'] P(1) rc by (simp add: gc_scan_def mk)
  then show ?thesis using rt1(1) sets P(1) by (auto simp: gc_split_def mstate_def)
qed

end
