(* ===== verification/Js_Gc_Free.thy ===== *)
theory Js_Gc_Free
  imports Js_Gc_Mark
begin

text \<open>
  Releasing references inside the two phases in which objects are freed. Every count is the number
  of the external references, of the references of the objects that still own theirs and of the
  references that the operations under way still have to give up. An operation that gives up
  some references keeps this invariant; so it never reaches a freed object, and no
  assertion fails.
\<close>

section \<open>The references an object owns\<close>

datatype gkind = KValue | KShape | KVarRef | KContext | KAsync

fun kind_of :: "gc_data \<Rightarrow> gkind" where
  "kind_of (JS_OBJECT _ _ _) = KValue"
| "kind_of (FUNCTION_BYTECODE _ _) = KValue"
| "kind_of (SHAPE _) = KShape"
| "kind_of (VAR_REF _ _) = KVarRef"
| "kind_of (ASYNC_FUNCTION _ _ _ _ _ _) = KAsync"
| "kind_of (JS_CONTEXT _ _ _) = KContext"

type_synonym ref = "gkind \<times> addr"

definition opt_refs :: "gkind \<Rightarrow> addr option \<Rightarrow> ref list" where
  "opt_refs k p = map (Pair k) (opt_list p)"

definition value_refs :: "gval \<Rightarrow> ref list" where
  "value_refs v = map (Pair KValue) (mark_value v)"

fun prop_refs :: "prop_u \<Rightarrow> ref list" where
  "prop_refs (PValue v) = value_refs v"
| "prop_refs (PGetset g s) = opt_refs KValue g @ opt_refs KValue s"
| "prop_refs (PVarref r) = [(KVarRef, r)]"
| "prop_refs (PAutoinit r) = [(KContext, r)]"

fun class_refs :: "class_data \<Rightarrow> ref list" where
  "class_refs NoData = []"
| "class_refs (ArrayData vs) = concat (map value_refs vs)"
| "class_refs (ObjectData v) = value_refs v"
| "class_refs (CFunction realm) = opt_refs KContext realm"
| "class_refs (CFunctionDataRecord vs) = concat (map value_refs vs)"
| "class_refs (BytecodeFunction home_object b) = opt_refs KValue home_object @
     (case b of None \<Rightarrow> [] | Some (b, var_refs) \<Rightarrow> concat (map (opt_refs KVarRef) var_refs) @ [(KValue, b)])"
| "class_refs (BoundFunction f t vs) = value_refs f @ value_refs t @ concat (map value_refs vs)"
| "class_refs (ForInIterator v) = value_refs v"
| "class_refs (AsyncFunctionResolve s) = opt_refs KAsync s"
| "class_refs (ClassValues vs) = concat (map value_refs vs)"

definition module_refs :: "addr option list \<times> gval list \<Rightarrow> ref list" where
  "module_refs m = concat (map (opt_refs KVarRef) (fst m)) @ concat (map value_refs (snd m))"

text \<open>A variable in a stack frame owns nothing: its value belongs to the frame.\<close>

fun owned :: "gc_data \<Rightarrow> ref list" where
  "owned (JS_OBJECT sh props c) = [(KShape, sh)] @ concat (map (prop_refs \<circ> snd) props) @ class_refs c"
| "owned (FUNCTION_BYTECODE cpool realm) = concat (map value_refs cpool) @ opt_refs KContext realm"
| "owned (SHAPE proto) = opt_refs KValue proto"
| "owned (VAR_REF d v) = (if d then value_refs v else [])"
| "owned (ASYNC_FUNCTION is_active f t stack r0 r1) =
     (if is_active then value_refs f @ value_refs t @ (case stack of None \<Rightarrow> [] | Some vs \<Rightarrow> concat (map value_refs vs)) else []) @
     value_refs r0 @ value_refs r1"
| "owned (JS_CONTEXT modules vs array_shape) =
     concat (map module_refs modules) @ concat (map value_refs vs) @ opt_refs KShape array_shape"

definition own :: "gc_heap \<Rightarrow> addr \<Rightarrow> ref list" where
  "own h b = (case h b of None \<Rightarrow> [] | Some x \<Rightarrow> owned (gc_data x))"

definition has_kind :: "gc_heap \<Rightarrow> gkind \<Rightarrow> addr \<Rightarrow> bool" where
  "has_kind h k a \<longleftrightarrow> (\<exists>x. h a = Some x \<and> kind_of (gc_data x) = k)"

lemma has_kind_unique: "has_kind h k a \<Longrightarrow> has_kind h k' a \<Longrightarrow> k = k'"
  by (auto simp: has_kind_def)

fun is_running :: "gc_data \<Rightarrow> bool" where
  "is_running (ASYNC_FUNCTION is_active _ _ stack _ _) = (is_active \<and> stack = None)"
| "is_running _ = False"

fun on_stack :: "gc_data \<Rightarrow> bool" where
  "on_stack (VAR_REF d _) = (\<not> d)"
| "on_stack _ = False"

definition refs :: "gc_heap \<Rightarrow> addr set \<Rightarrow> addr \<Rightarrow> int" where
  "refs h bs a = (\<Sum>b\<in>bs. int (count_list (map snd (own h b)) a))"

definition pending :: "ref multiset \<Rightarrow> addr \<Rightarrow> int" where
  "pending M a = int (count (image_mset snd M) a)"

lemma refs_nonneg: "0 \<le> refs h bs a"
  by (simp add: refs_def sum_nonneg)

lemma pending_nonneg: "0 \<le> pending M a"
  by (simp add: pending_def)

lemma refs_remove:
  "finite bs \<Longrightarrow> b \<in> bs \<Longrightarrow> refs h bs a = refs h (bs - {b}) a + int (count_list (map snd (own h b)) a)"
  unfolding refs_def by (simp add: sum.remove)

lemma pending_add: "pending (M + N) a = pending M a + pending N a" "pending {#} a = 0"
    "pending (add_mset r M) a = pending M a + of_bool (snd r = a)"
  by (simp_all add: pending_def)

lemma pending_mset: "pending (mset xs) a = int (count_list (map snd xs) a)"
  by (induction xs) (auto simp: pending_add)

lemma refs_pos: "finite bs \<Longrightarrow> b \<in> bs \<Longrightarrow> a \<in> snd ` set (own h b) \<Longrightarrow> 0 < refs h bs a"
  using refs_remove[of bs b h a] refs_nonneg[of h "bs - {b}" a] count_list_0_iff[of "map snd (own h b)" a] by auto

lemma pending_pos: "(k, a) \<in># M \<Longrightarrow> 0 < pending M a"
  by (force simp: pending_def)

section \<open>The invariant of releases\<close>

text \<open>
  The heap at the start of the phase, the external references, the objects that must survive, and
  the objects in the lists of the collector.
\<close>

record gc_view =
  orig :: gc_heap
  extr :: "addr \<Rightarrow> int"
  live :: "addr set"
  listed :: "addr set"

definition js :: "gc_view \<Rightarrow> addr \<Rightarrow> bool" where
  "js S a \<longleftrightarrow> has_kind (orig S) KValue a"

definition view_ok :: "gc_view \<Rightarrow> bool" where
  "view_ok S \<longleftrightarrow>
     (\<forall>b k a. (k, a) \<in> set (own (orig S) b) \<longrightarrow> has_kind (orig S) k a) \<and> (\<forall>a. 0 \<le> extr S a) \<and> live S \<subseteq> listed S \<and>
     (\<forall>a\<in>live S. 0 < extr S a \<or> (\<exists>b\<in>live S. a \<in> snd ` set (own (orig S) b))) \<and>
     (\<forall>a x. orig S a = Some x \<longrightarrow> (is_running (gc_data x) \<longrightarrow> a \<in> live S) \<and> (a \<in> listed S \<longleftrightarrow> \<not> on_stack (gc_data x)))"

text \<open>
  The allocated objects, their counts, the owners of their references, the objects being freed
  and the references still to be given up. Only values (objects and bytecode) can stay allocated
  with a count of zero.
\<close>

definition core :: "gc_view \<Rightarrow> addr set \<Rightarrow> addr set \<Rightarrow> ref multiset \<Rightarrow> addr set \<Rightarrow> (addr \<Rightarrow> int) \<Rightarrow> bool" where
  "core S W B M A rc \<longleftrightarrow>
     A \<subseteq> dom (orig S) \<and> finite W \<and> W \<union> B \<subseteq> A \<and> W \<inter> B = {} \<and> live S \<subseteq> W \<and>
     (\<forall>b\<in>W. snd ` set (own (orig S) b) \<subseteq> A) \<and> (\<forall>k a. (k, a) \<in># M \<longrightarrow> a \<in> A \<and> has_kind (orig S) k a) \<and>
     (\<forall>a\<in>A. rc a = extr S a + refs (orig S) W a + pending M a) \<and>
     (\<forall>a\<in>A. \<not> js S a \<longrightarrow> a \<in> W \<and> 0 < rc a \<or> a \<in> B \<and> rc a = 0)"

lemma view_okD:
  assumes "view_ok S"
  shows "(k, a) \<in> set (own (orig S) b) \<Longrightarrow> has_kind (orig S) k a" "0 \<le> extr S a" "live S \<subseteq> listed S"
    "a \<in> live S \<Longrightarrow> 0 < extr S a \<or> (\<exists>b\<in>live S. a \<in> snd ` set (own (orig S) b))"
    "orig S a = Some x \<Longrightarrow> is_running (gc_data x) \<Longrightarrow> a \<in> live S"
    "orig S a = Some x \<Longrightarrow> a \<in> listed S \<longleftrightarrow> \<not> on_stack (gc_data x)"
  using assms unfolding view_ok_def by blast+

lemma coreD:
  assumes "core S W B M A rc"
  shows "A \<subseteq> dom (orig S)" "finite W" "W \<subseteq> A" "B \<subseteq> A" "W \<inter> B = {}" "live S \<subseteq> W"
    "b \<in> W \<Longrightarrow> snd ` set (own (orig S) b) \<subseteq> A" "(k, a) \<in># M \<Longrightarrow> a \<in> A" "(k, a) \<in># M \<Longrightarrow> has_kind (orig S) k a"
    "a \<in> A \<Longrightarrow> rc a = extr S a + refs (orig S) W a + pending M a"
    "a \<in> A \<Longrightarrow> \<not> js S a \<Longrightarrow> a \<in> W \<and> 0 < rc a \<or> a \<in> B \<and> rc a = 0"
  using assms unfolding core_def by blast+

lemma coreI:
  assumes "A \<subseteq> dom (orig S)" "finite W" "W \<subseteq> A" "B \<subseteq> A" "W \<inter> B = {}" "live S \<subseteq> W"
    "\<And>b. b \<in> W \<Longrightarrow> snd ` set (own (orig S) b) \<subseteq> A" "\<And>k a. (k, a) \<in># M \<Longrightarrow> a \<in> A \<and> has_kind (orig S) k a"
    "\<And>a. a \<in> A \<Longrightarrow> rc a = extr S a + refs (orig S) W a + pending M a"
    "\<And>a. a \<in> A \<Longrightarrow> \<not> js S a \<Longrightarrow> a \<in> W \<and> 0 < rc a \<or> a \<in> B \<and> rc a = 0"
  shows "core S W B M A rc"
  using assms unfolding core_def by blast

lemma core_live_pos:
  assumes "view_ok S" "core S W B M A rc" "a \<in> live S"
  shows "0 < rc a"
proof -
  note c = coreD[OF assms(2)] and v = view_okD[OF assms(1)]
  have "a \<in> A" using c(3,6) assms(3) by blast
  then have e: "rc a = extr S a + refs (orig S) W a + pending M a" by (rule c(10))
  from v(4)[OF assms(3)] have "0 < extr S a \<or> 0 < refs (orig S) W a"
    using refs_pos[OF c(2)] c(6) by blast
  then show ?thesis using e v(2)[of a] refs_nonneg[of "orig S" W a] pending_nonneg[of M a] by linarith
qed

lemma core_zero:
  assumes "view_ok S" "core S W B M A rc" "a \<in> A" "rc a = 0"
  shows "a \<notin> live S" "b \<in> W \<Longrightarrow> a \<notin> snd ` set (own (orig S) b)" "(k, a) \<notin># M"
proof -
  note c = coreD[OF assms(2)]
  show "a \<notin> live S" using core_live_pos[OF assms(1,2), of a] assms(4) by linarith
  have z: "refs (orig S) W a = 0" "pending M a = 0"
    using c(10)[OF assms(3)] view_okD(2)[OF assms(1), of a] assms(4) refs_nonneg[of "orig S" W a] pending_nonneg[of M a] by linarith+
  show "a \<notin> snd ` set (own (orig S) b)" if "b \<in> W" using refs_pos[OF c(2) that, of a "orig S"] z(1) by linarith
  show "(k, a) \<notin># M" using z(2) pending_pos[of k a M] by linarith
qed

lemma core_pending:
  assumes "view_ok S" "core S W B (add_mset (k, a) M) A rc"
  shows "a \<in> A" "0 < rc a" "has_kind (orig S) k a" "\<not> js S a \<Longrightarrow> a \<in> W"
proof -
  note c = coreD[OF assms(2)]
  show a: "a \<in> A" "has_kind (orig S) k a" using c(8,9)[of k a] by simp_all
  show r: "0 < rc a" using core_zero(3)[OF assms a(1), of k] c(10)[OF a(1)] view_okD(2)[OF assms(1), of a]
      refs_nonneg[of "orig S" W a] pending_nonneg[of "add_mset (k, a) M" a] by force
  show "a \<in> W" if "\<not> js S a" using c(11)[OF a(1) that] r by simp
qed

text \<open>Giving up one reference, when the object stays.\<close>

lemma core_dec:
  assumes v: "view_ok S" and c: "core S W B (add_mset (k, a) M) A rc" and a: "js S a \<or> rc a \<noteq> 1"
  shows "core S W B M A (rc(a := rc a - 1))"
proof (rule coreI[OF coreD(1-7)[OF c]])
  note p = core_pending[OF v c]
  fix b assume b: "b \<in> A"
  show "(rc(a := rc a - 1)) b = extr S b + refs (orig S) W b + pending M b"
    using coreD(10)[OF c b] by (auto simp: pending_add)
  show "\<not> js S b \<Longrightarrow> b \<in> W \<and> 0 < (rc(a := rc a - 1)) b \<or> b \<in> B \<and> (rc(a := rc a - 1)) b = 0"
    using coreD(11)[OF c b] a p(2) by auto
qed (use coreD(8,9)[OF c] in auto)

text \<open>Handing the references of an object over to the operation that frees it.\<close>

lemma refs_hand_over:
  "finite W \<Longrightarrow> a \<in> W \<Longrightarrow> refs h W b + pending M b = refs h (W - {a}) b + pending (M + mset (own h a)) b"
  by (simp add: refs_remove pending_add pending_mset)

lemma core_hand_over:
  assumes v: "view_ok S" and c: "core S W B M A rc" and a: "a \<in> W" "a \<notin> live S" "js S a \<or> rc a = 0"
  shows "core S (W - {a}) (insert a B) (M + mset (own (orig S) a)) A rc"
proof (rule coreI)
  note d = coreD[OF c]
  show "A \<subseteq> dom (orig S)" "finite (W - {a})" "W - {a} \<subseteq> A" "insert a B \<subseteq> A" "(W - {a}) \<inter> insert a B = {}" "live S \<subseteq> W - {a}"
    using d(1-6) a by blast+
  show "snd ` set (own (orig S) b) \<subseteq> A" if "b \<in> W - {a}" for b using d(7) that by blast
  show "b \<in> A \<and> has_kind (orig S) k b" if "(k, b) \<in># M + mset (own (orig S) a)" for k b
    using that d(7)[OF a(1)] d(8,9)[of k b] view_okD(1)[OF v, of k b a] by force
  show "rc b = extr S b + refs (orig S) (W - {a}) b + pending (M + mset (own (orig S) a)) b" if "b \<in> A" for b
    using d(10)[OF that] refs_hand_over[OF d(2) a(1), of "orig S" b M] by linarith
  show "b \<in> W - {a} \<and> 0 < rc b \<or> b \<in> insert a B \<and> rc b = 0" if "b \<in> A" "\<not> js S b" for b
    using d(11)[OF that] a that by auto
qed

lemma core_destroy:
  assumes v: "view_ok S" and c: "core S W B (add_mset (k, a) M) A rc" and a: "\<not> js S a" "rc a = 1"
  shows "a \<notin> live S" "core S (W - {a}) (insert a B) (M + mset (own (orig S) a)) A (rc(a := 0))"
proof -
  note p = core_pending[OF v c] and d = coreD[OF c]
  have z: "extr S a = 0" "refs (orig S) W a = 0"
    using d(10)[OF p(1)] a(2) view_okD(2)[OF v, of a] refs_nonneg[of "orig S" W a] pending_nonneg[of M a]
    by (auto simp: pending_add)
  show l: "a \<notin> live S"
  proof
    assume "a \<in> live S"
    then show False using view_okD(4)[OF v] z refs_pos[OF d(2), of _ a "orig S"] d(6) by fastforce
  qed
  have W: "a \<in> W" using p(4) a(1) by blast
  show "core S (W - {a}) (insert a B) (M + mset (own (orig S) a)) A (rc(a := 0))"
  proof (rule coreI)
    show "A \<subseteq> dom (orig S)" "finite (W - {a})" "W - {a} \<subseteq> A" "insert a B \<subseteq> A" "(W - {a}) \<inter> insert a B = {}" "live S \<subseteq> W - {a}"
      using d(1-6) p(1) l by blast+
    show "snd ` set (own (orig S) b) \<subseteq> A" if "b \<in> W - {a}" for b using d(7) that by blast
    show "b \<in> A \<and> has_kind (orig S) k b" if "(k, b) \<in># M + mset (own (orig S) a)" for k b
      using that d(7)[OF W] d(8,9)[of k b] view_okD(1)[OF v, of k b a] by force
    show "(rc(a := 0)) b = extr S b + refs (orig S) (W - {a}) b + pending (M + mset (own (orig S) a)) b" if "b \<in> A" for b
      using d(10)[OF that] refs_hand_over[OF d(2) W, of "orig S" b M] a(2) by (auto simp: pending_add)
    show "b \<in> W - {a} \<and> 0 < (rc(a := 0)) b \<or> b \<in> insert a B \<and> (rc(a := 0)) b = 0" if "b \<in> A" "\<not> js S b" for b
      using d(11)[OF that] that by auto
  qed
qed

lemma core_finish:
  assumes v: "view_ok S" and c: "core S W (insert a B) M A rc" and a: "a \<notin> B" "rc a = 0"
  shows "core S W B M (A - {a}) rc"
proof (rule coreI)
  note d = coreD[OF c]
  have A: "a \<in> A" "a \<notin> W" using d(4,5) by blast+
  note z = core_zero[OF v c A(1) a(2)]
  show "A - {a} \<subseteq> dom (orig S)" "finite W" "W \<subseteq> A - {a}" "B \<subseteq> A - {a}" "W \<inter> B = {}" "live S \<subseteq> W" using d(1-6) A a(1) by blast+
  show "snd ` set (own (orig S) b) \<subseteq> A - {a}" if "b \<in> W" for b using d(7)[OF that] z(2)[OF that] by blast
  show "b \<in> A - {a} \<and> has_kind (orig S) k b" if "(k, b) \<in># M" for k b using d(8,9)[OF that] z(3)[of k] that by blast
  show "rc b = extr S b + refs (orig S) W b + pending M b" if "b \<in> A - {a}" for b using d(10) that by blast
  show "b \<in> W \<and> 0 < rc b \<or> b \<in> B \<and> rc b = 0" if "b \<in> A - {a}" "\<not> js S b" for b using d(11) that by blast
qed

lemma core_zombie: "core S W (insert a B) M A rc \<Longrightarrow> js S a \<Longrightarrow> core S W B M A rc"
  unfolding core_def by blast

section \<open>The lists in the two phases\<close>

text \<open>
  While cycles are removed, the surviving objects are in the list of the collector, the garbage that
  waits in the temporary list, and the third list holds the values already freed that still have
  a count, and the objects that are not values. While counts that reached zero are handled, the third list
  holds exactly the values with a count of zero.
\<close>

fun links :: "gc_view \<Rightarrow> gc_phase \<Rightarrow> addr set \<Rightarrow> addr set \<Rightarrow> addr set \<Rightarrow> (addr \<Rightarrow> int) \<Rightarrow> addr list \<Rightarrow> addr list \<Rightarrow> addr list \<Rightarrow> bool" where
  "links S PHASE_NONE W B A rc gl zl tmp = False"
| "links S PHASE_REMOVE_CYCLES W B A rc gl zl tmp =
     (distinct (gl @ tmp @ zl) \<and> set gl = live S \<and> set tmp \<union> set zl = A \<inter> listed S - live S \<and>
      (\<forall>a\<in>set tmp. js S a \<longrightarrow> a \<in> W \<union> B) \<and> (\<forall>a\<in>set zl. js S a \<longrightarrow> a \<notin> W \<union> B))"
| "links S PHASE_DECREF W B A rc gl zl tmp =
     (tmp = [] \<and> distinct (gl @ zl) \<and> set gl \<union> set zl = A \<inter> listed S \<and> (\<forall>a\<in>set zl. js S a \<and> rc a = 0) \<and>
      (\<forall>a\<in>A. js S a \<longrightarrow> a \<in> W \<union> B) \<and> (\<forall>a\<in>set gl. js S a \<longrightarrow> 0 < rc a \<and> a \<notin> B))"

definition fheap :: "gc_heap \<Rightarrow> addr set \<Rightarrow> (addr \<Rightarrow> int) \<Rightarrow> gc_heap" where
  "fheap h A rc = (\<lambda>a. if a \<in> A then map_option (\<lambda>x. x\<lparr>ref_count := rc a\<rparr>) (h a) else None)"

definition fstate :: "gc_heap \<Rightarrow> addr set \<Rightarrow> (addr \<Rightarrow> int) \<Rightarrow> addr list \<Rightarrow> addr list \<Rightarrow> addr list \<Rightarrow> gc_phase \<Rightarrow> gc_runtime" where
  "fstate h A rc gl zl tmp ph =
     \<lparr>gc_heap = fheap h A rc, gc_obj_list = gl, gc_zero_ref_count_list = zl, tmp_obj_list = tmp, gc_phase = ph\<rparr>"

lemma fstate_sel [simp]:
  "gc_heap (fstate h A rc gl zl tmp ph) = fheap h A rc" "gc_obj_list (fstate h A rc gl zl tmp ph) = gl"
  "gc_zero_ref_count_list (fstate h A rc gl zl tmp ph) = zl" "tmp_obj_list (fstate h A rc gl zl tmp ph) = tmp"
  "gc_phase (fstate h A rc gl zl tmp ph) = ph"
  "(fstate h A rc gl zl tmp ph)\<lparr>gc_zero_ref_count_list := zl'\<rparr> = fstate h A rc gl zl' tmp ph"
  "(fstate h A rc gl zl tmp ph)\<lparr>gc_phase := ph'\<rparr> = fstate h A rc gl zl tmp ph'"
  by (simp_all add: fstate_def)

lemma fheap_at: "a \<in> A \<Longrightarrow> h a = Some x \<Longrightarrow> fheap h A rc a = Some (x\<lparr>ref_count := rc a\<rparr>)"
  by (simp add: fheap_def)

lemma list_unlink_fstate:
  "list_unlink a (fstate h A rc gl zl tmp ph) = fstate h A rc (removeAll a gl) (removeAll a zl) (removeAll a tmp) ph"
  by (simp add: list_unlink_def fstate_def)

lemma js_free_rt_fstate: "js_free_rt a (fstate h A rc gl zl tmp ph) = fstate h (A - {a}) rc gl zl tmp ph"
  by (auto simp: js_free_rt_def fstate_def fheap_def)

lemma dec_ref_fstate:
  assumes "a \<in> A" "h a = Some x"
  shows "dec_ref (fstate h A rc gl zl tmp ph) a = Some (rc a - 1, fstate h A (rc(a := rc a - 1)) gl zl tmp ph)"
  using assms by (auto simp: dec_ref_def fheap_at set_object_def) (auto simp: fstate_def fheap_def fun_eq_iff)

definition inv :: "gc_view \<Rightarrow> gc_phase \<Rightarrow> addr set \<Rightarrow> addr set \<Rightarrow> ref multiset \<Rightarrow> gc_runtime \<Rightarrow> bool" where
  "inv S ph W B M rt \<longleftrightarrow> view_ok S \<and>
     (\<exists>A rc gl zl tmp. rt = fstate (orig S) A rc gl zl tmp ph \<and> core S W B M A rc \<and> links S ph W B A rc gl zl tmp)"

lemma invI:
  "view_ok S \<Longrightarrow> core S W B M A rc \<Longrightarrow> links S ph W B A rc gl zl tmp \<Longrightarrow> inv S ph W B M (fstate (orig S) A rc gl zl tmp ph)"
  unfolding inv_def by blast

lemma js_iff: "has_kind (orig S) k a \<Longrightarrow> js S a \<longleftrightarrow> k = KValue"
  by (auto simp: js_def dest: has_kind_unique)

lemma js_listed: "view_ok S \<Longrightarrow> js S a \<Longrightarrow> a \<in> listed S"
  using view_okD(6)[of S a] by (auto simp: js_def has_kind_def elim!: kind_of.elims)

lemma removeAll_fresh: "a \<notin> set xs \<Longrightarrow> removeAll a xs = xs"
  by simp

text \<open>The count of an object that stays, or of a value, changes.\<close>

lemma links_dec:
  assumes "links S ph W B A rc gl zl tmp" "0 < rc a" "rc a \<noteq> 1 \<or> \<not> js S a \<or> ph = PHASE_REMOVE_CYCLES"
  shows "links S ph W B A (rc(a := rc a - 1)) gl zl tmp"
  using assms by (cases ph) auto

lemma links_zero:
  assumes "view_ok S" "links S PHASE_DECREF W B A rc gl zl tmp" "a \<in> A" "js S a" "rc a = 1"
  shows "links S PHASE_DECREF W B A (rc(a := 0)) (removeAll a gl) (a # removeAll a zl) (removeAll a tmp)"
  using assms js_listed[OF assms(1,4)] by (auto simp: distinct_removeAll)

text \<open>An object that is not a value is being freed, and is freed.\<close>

lemma links_destroy:
  assumes "links S ph W B A rc gl zl tmp" "\<not> js S a" "0 < rc a"
  shows "links S ph (W - {a}) (insert a B) A (rc(a := 0)) gl zl tmp"
  using assms by (cases ph) auto

lemma links_free:
  assumes "links S ph W (insert a B) A rc gl zl tmp" "a \<notin> B" "a \<notin> live S" "a \<notin> W" "\<not> js S a \<or> rc a = 0"
  shows "links S ph W B (A - {a}) rc (removeAll a gl) (removeAll a zl) (removeAll a tmp)"
  using assms by (cases ph) (auto simp: distinct_removeAll)

lemma links_free_unlisted:
  assumes "links S ph W (insert a B) A rc gl zl tmp" "a \<notin> listed S" "\<not> js S a"
  shows "links S ph W B (A - {a}) rc gl zl tmp"
  using assms by (cases ph) auto

section \<open>Operations that give up references\<close>

definition gives_up :: "gc_view \<Rightarrow> gc_phase \<Rightarrow> (gc_runtime \<Rightarrow> gc_runtime option) \<Rightarrow> ref list \<Rightarrow> bool" where
  "gives_up S ph f xs \<longleftrightarrow>
     (\<forall>W B M rt. inv S ph W B (M + mset xs) rt \<longrightarrow> (\<exists>W' rt'. f rt = Some rt' \<and> inv S ph W' B M rt' \<and> W' \<subseteq> W))"

lemma gives_upD:
  assumes "gives_up S ph f xs" "inv S ph W B (M + mset xs) rt"
  obtains W' rt' where "f rt = Some rt'" "inv S ph W' B M rt'" "W' \<subseteq> W"
  using assms unfolding gives_up_def by blast

lemma gives_up_skip: "gives_up S ph Some []"
  by (auto simp: gives_up_def)

lemma gives_up_mset: "gives_up S ph f xs \<Longrightarrow> mset ys = mset xs \<Longrightarrow> gives_up S ph f ys"
  by (simp add: gives_up_def)

lemma gives_up_bind:
  assumes f: "gives_up S ph f xs" and g: "gives_up S ph g ys"
  shows "gives_up S ph (\<lambda>rt. Option.bind (f rt) g) (xs @ ys)"
  unfolding gives_up_def
proof (intro allI impI)
  fix W B M rt assume "inv S ph W B (M + mset (xs @ ys)) rt"
  then have "inv S ph W B ((M + mset ys) + mset xs) rt" by (simp add: ac_simps)
  then obtain W1 rt1 where 1: "f rt = Some rt1" "inv S ph W1 B (M + mset ys) rt1" "W1 \<subseteq> W" by (rule gives_upD[OF f])
  obtain W2 rt2 where "g rt1 = Some rt2" "inv S ph W2 B M rt2" "W2 \<subseteq> W1" using 1(2) by (rule gives_upD[OF g])
  then show "\<exists>W' rt'. Option.bind (f rt) g = Some rt' \<and> inv S ph W' B M rt' \<and> W' \<subseteq> W" using 1 by auto
qed

lemma gives_up_fold: "(\<And>v. gives_up S ph (\<lambda>rt. f rt v) (r v)) \<Longrightarrow> gives_up S ph (fold_opt f vs) (concat (map r vs))"
proof (induction vs)
  case (Cons v vs)
  have "fold_opt f (v # vs) = (\<lambda>rt. Option.bind (f rt v) (fold_opt f vs))" by auto
  then show ?case using gives_up_bind[OF Cons.prems Cons.IH[OF Cons.prems]] by simp
qed (simp add: gives_up_skip fold_opt.simps(1)[abs_def])

lemma gives_up_opt: "(\<And>a. gives_up S ph (\<lambda>rt. f rt a) [(k, a)]) \<Longrightarrow> gives_up S ph (\<lambda>rt. free_opt f rt p) (opt_refs k p)"
  by (cases p) (simp_all add: opt_refs_def gives_up_skip)

lemma inv_kind: "inv S ph W B M rt \<Longrightarrow> (k, a) \<in># M \<Longrightarrow> has_kind (orig S) k a"
  by (auto simp: inv_def dest: coreD(9))

lemma gives_up_ptr: "gives_up S ph (\<lambda>rt. free_ptr rt a) [(KValue, a)]"
  unfolding gives_up_def
proof (intro allI impI)
  fix W B M rt assume "inv S ph W B (M + mset [(KValue, a)]) rt"
  then obtain A rc gl zl tmp where v: "view_ok S" and rt: "rt = fstate (orig S) A rc gl zl tmp ph"
      and c: "core S W B (add_mset (KValue, a) M) A rc" and l: "links S ph W B A rc gl zl tmp"
    by (auto simp: inv_def)
  note p = core_pending[OF v c]
  have js: "js S a" using p(3) by (simp add: js_def)
  obtain x where x: "orig S a = Some x" using coreD(1)[OF c] p(1) by auto
  have c': "core S W B M A (rc(a := rc a - 1))" using core_dec[OF v c] js by blast
  note dec = dec_ref_fstate[of a A "orig S" x rc gl zl tmp ph, OF p(1) x]
  show "\<exists>W' rt'. free_ptr rt a = Some rt' \<and> inv S ph W' B M rt' \<and> W' \<subseteq> W"
  proof (cases "rc a \<noteq> 1 \<or> ph = PHASE_REMOVE_CYCLES")
    case True
    then have "links S ph W B A (rc(a := rc a - 1)) gl zl tmp" using links_dec[OF l p(2)] by blast
    moreover have "free_ptr rt a = Some (fstate (orig S) A (rc(a := rc a - 1)) gl zl tmp ph)"
      using True p(2) dec by (auto simp: free_ptr_def rt free_value_ptr_def)
    ultimately show ?thesis using c' v unfolding inv_def by blast
  next
    case False
    then have ph: "ph = PHASE_DECREF" "rc a = 1" using l by (cases ph; simp)+
    have "links S ph W B A (rc(a := rc a - 1)) (removeAll a gl) (a # removeAll a zl) (removeAll a tmp)"
      using links_zero[OF v l[unfolded ph(1)] p(1) js ph(2)] by (simp only: ph diff_self)
    moreover have "free_ptr rt a = Some (fstate (orig S) A (rc(a := rc a - 1)) (removeAll a gl) (a # removeAll a zl) (removeAll a tmp) ph)"
      using ph dec by (simp add: free_ptr_def rt free_value_ptr_def list_unlink_fstate Let_def)
    ultimately show ?thesis using c' v unfolding inv_def by blast
  qed
qed

lemma gives_up_value: "gives_up S ph (\<lambda>rt. free_value rt v) (value_refs v)"
  by (cases v) (simp_all add: value_refs_def gives_up_ptr gives_up_skip)

lemma gives_up_values: "gives_up S ph (fold_opt free_value vs) (concat (map value_refs vs))"
  by (rule gives_up_fold) (rule gives_up_value)

lemma gives_up_opt_ptr: "gives_up S ph (\<lambda>rt. free_opt free_ptr rt p) (opt_refs KValue p)"
  by (rule gives_up_opt) (rule gives_up_ptr)

lemma release_object:
  assumes i: "inv S ph W B (M + mset [(k, a)]) rt" and k: "k \<noteq> KValue"
  obtains x n rt1 where "orig S a = Some x" "kind_of (gc_data x) = k" "dec_ref rt a = Some (n, rt1)"
    "gc_heap rt1 a = Some (x\<lparr>ref_count := n\<rparr>)"
    "0 < n \<and> inv S ph W B M rt1 \<or> n = 0 \<and> a \<notin> B \<and> a \<notin> live S \<and> inv S ph (W - {a}) (insert a B) (M + mset (owned (gc_data x))) rt1"
proof -
  obtain A rc gl zl tmp where v: "view_ok S" and rt: "rt = fstate (orig S) A rc gl zl tmp ph"
      and c: "core S W B (add_mset (k, a) M) A rc" and l: "links S ph W B A rc gl zl tmp"
    using i by (auto simp: inv_def)
  note p = core_pending[OF v c]
  have js: "\<not> js S a" using js_iff[OF p(3)] k by simp
  obtain x where x: "orig S a = Some x" "kind_of (gc_data x) = k" using p(3) by (auto simp: has_kind_def)
  let ?rt1 = "fstate (orig S) A (rc(a := rc a - 1)) gl zl tmp ph"
  have h: "gc_heap ?rt1 a = Some (x\<lparr>ref_count := rc a - 1\<rparr>)" using p(1) x(1) by (simp add: fheap_at)
  have "0 < rc a - 1 \<and> inv S ph W B M ?rt1 \<or>
      rc a - 1 = 0 \<and> a \<notin> B \<and> a \<notin> live S \<and> inv S ph (W - {a}) (insert a B) (M + mset (owned (gc_data x))) ?rt1"
  proof (cases "rc a = 1")
    case True
    have "a \<notin> B" using p(4)[OF js] coreD(5)[OF c] by blast
    moreover have "own (orig S) a = owned (gc_data x)" using x by (simp add: own_def)
    ultimately show ?thesis using core_destroy[OF v c js True] links_destroy[OF l js p(2)] True v by (auto intro!: invI)
  next
    case False
    then show ?thesis using core_dec[OF v c] links_dec[OF l p(2)] js p(2) v by (auto intro!: invI)
  qed
  moreover have "dec_ref rt a = Some (rc a - 1, ?rt1)" using dec_ref_fstate[of a A "orig S" x] p(1) x(1) by (simp add: rt)
  ultimately show ?thesis using that x h by blast
qed

lemma finish_object:
  assumes "inv S ph W (insert a B) M rt" "a \<notin> B" "a \<notin> live S" "has_kind (orig S) k a" "k \<noteq> KValue"
  shows "inv S ph W B M (js_free_rt a (list_unlink a rt))"
    "a \<notin> listed S \<Longrightarrow> inv S ph W B M (js_free_rt a rt)"
proof -
  obtain A rc gl zl tmp where v: "view_ok S" and rt: "rt = fstate (orig S) A rc gl zl tmp ph"
      and c: "core S W (insert a B) M A rc" and l: "links S ph W (insert a B) A rc gl zl tmp"
    using assms(1) by (auto simp: inv_def)
  have js: "\<not> js S a" using js_iff[OF assms(4)] assms(5) by simp
  have W: "a \<notin> W" "a \<in> A" using coreD(4,5)[OF c] by blast+
  then have "rc a = 0" using coreD(11)[OF c W(2) js] by blast
  then have c': "core S W B M (A - {a}) rc" by (rule core_finish[OF v c assms(2)])
  show "inv S ph W B M (js_free_rt a (list_unlink a rt))"
    using c' links_free[OF l assms(2,3) W(1)] js v unfolding inv_def rt list_unlink_fstate js_free_rt_fstate by blast
  show "a \<notin> listed S \<Longrightarrow> inv S ph W B M (js_free_rt a rt)"
    using c' links_free_unlisted[OF l _ js] v unfolding inv_def rt js_free_rt_fstate by blast
qed

text \<open>Releasing an object that is not a value: its references are given up once its count is zero.\<close>

lemma gives_up_object:
  assumes k: "k \<noteq> KValue"
    and pos: "\<And>rt n rt1 x. dec_ref rt a = Some (n, rt1) \<Longrightarrow> gc_heap rt1 a = Some x \<Longrightarrow> 0 < n \<Longrightarrow> f rt = Some rt1"
    and zero: "\<And>rt rt1 x. orig S a = Some x \<Longrightarrow> kind_of (gc_data x) = k \<Longrightarrow> (is_running (gc_data x) \<longrightarrow> a \<in> live S) \<Longrightarrow> a \<notin> live S \<Longrightarrow>
      dec_ref rt a = Some (0, rt1) \<Longrightarrow> gc_heap rt1 a = Some (x\<lparr>ref_count := 0\<rparr>) \<Longrightarrow>
      \<exists>g. gives_up S ph g (owned (gc_data x)) \<and>
        f rt = Option.bind (g rt1) (\<lambda>rt. Some (js_free_rt a (if on_stack (gc_data x) then rt else list_unlink a rt)))"
  shows "gives_up S ph f [(k, a)]"
  unfolding gives_up_def
proof (intro allI impI)
  fix W B M rt assume i: "inv S ph W B (M + mset [(k, a)]) rt"
  then have v: "view_ok S" by (simp add: inv_def)
  from release_object[OF i k] obtain x n rt1 where x: "orig S a = Some x" "kind_of (gc_data x) = k" and d: "dec_ref rt a = Some (n, rt1)"
      "gc_heap rt1 a = Some (x\<lparr>ref_count := n\<rparr>)"
    and c: "0 < n \<and> inv S ph W B M rt1 \<or> n = 0 \<and> a \<notin> B \<and> a \<notin> live S \<and> inv S ph (W - {a}) (insert a B) (M + mset (owned (gc_data x))) rt1" .
  from c show "\<exists>W' rt'. f rt = Some rt' \<and> inv S ph W' B M rt' \<and> W' \<subseteq> W"
  proof (elim disjE conjE)
    assume "0 < n" "inv S ph W B M rt1"
    then show ?thesis using pos[OF d] by auto
  next
    assume n: "n = 0" "a \<notin> B" "a \<notin> live S" and i1: "inv S ph (W - {a}) (insert a B) (M + mset (owned (gc_data x))) rt1"
    obtain g where g: "gives_up S ph g (owned (gc_data x))"
        "f rt = Option.bind (g rt1) (\<lambda>rt. Some (js_free_rt a (if on_stack (gc_data x) then rt else list_unlink a rt)))"
      using zero[OF x _ n(3)] d n(1) view_okD(5)[OF v x(1)] by auto
    obtain W2 rt2 where 2: "g rt1 = Some rt2" "inv S ph W2 (insert a B) M rt2" "W2 \<subseteq> W - {a}" by (rule gives_upD[OF g(1) i1])
    have "has_kind (orig S) k a" using x by (simp add: has_kind_def)
    note fin = finish_object[OF 2(2) n(2,3) this k]
    have "inv S ph W2 B M (js_free_rt a (if on_stack (gc_data x) then rt2 else list_unlink a rt2))"
      using fin view_okD(6)[OF v x(1)] by simp
    then show ?thesis using g(2) 2 by auto
  qed
qed

lemma gives_up_shape: "gives_up S ph (\<lambda>rt. js_free_shape rt sh) [(KShape, sh)]"
proof (rule gives_up_object)
  fix rt rt1 x
  assume a: "kind_of (gc_data x) = KShape" "dec_ref rt sh = Some (0, rt1)" "gc_heap rt1 sh = Some (x\<lparr>ref_count := 0\<rparr>)"
  obtain proto where d: "gc_data x = SHAPE proto" using a(1) by (cases "gc_data x") auto
  then show "\<exists>g. gives_up S ph g (owned (gc_data x)) \<and>
      js_free_shape rt sh = Option.bind (g rt1) (\<lambda>rt. Some (js_free_rt sh (if on_stack (gc_data x) then rt else list_unlink sh rt)))"
    using a gives_up_opt_ptr[of S ph proto]
    by (intro exI[of _ "\<lambda>rt. free_opt free_ptr rt proto"]) (simp add: js_free_shape_def js_free_shape0_def)
qed (simp_all add: js_free_shape_def)

lemma gives_up_var_ref: "gives_up S ph (\<lambda>rt. free_var_ref rt r) [(KVarRef, r)]"
proof (rule gives_up_object)
  fix rt rt1 x
  assume a: "kind_of (gc_data x) = KVarRef" "dec_ref rt r = Some (0, rt1)" "gc_heap rt1 r = Some (x\<lparr>ref_count := 0\<rparr>)"
  obtain d v where d: "gc_data x = VAR_REF d v" using a(1) by (cases "gc_data x") auto
  show "\<exists>g. gives_up S ph g (owned (gc_data x)) \<and>
      free_var_ref rt r = Option.bind (g rt1) (\<lambda>rt. Some (js_free_rt r (if on_stack (gc_data x) then rt else list_unlink r rt)))"
    using a d gives_up_value[of S ph v] gives_up_skip[of S ph]
    by (intro exI[of _ "if d then (\<lambda>rt. free_value rt v) else Some"]) (cases d; simp add: free_var_ref_def)
qed (auto simp: free_var_ref_def)

lemma gives_up_async_frame:
  "gives_up S ph (\<lambda>rt. async_func_free rt f t (Some vs)) (value_refs f @ value_refs t @ concat (map value_refs vs))"
proof -
  have "(\<lambda>rt. async_func_free rt f t (Some vs)) =
      (\<lambda>rt. Option.bind (fold_opt free_value vs rt) (\<lambda>rt. Option.bind (free_value rt f) (\<lambda>rt. free_value rt t)))"
    by (simp add: async_func_free_def)
  moreover have "gives_up S ph \<dots> (concat (map value_refs vs) @ value_refs f @ value_refs t)"
    by (intro gives_up_bind gives_up_values gives_up_value)
  ultimately show ?thesis by (auto intro: gives_up_mset simp: ac_simps)
qed

lemma gives_up_async: "gives_up S ph (\<lambda>rt. js_async_function_free rt s) [(KAsync, s)]"
proof (rule gives_up_object)
  fix rt rt1 x
  assume a: "kind_of (gc_data x) = KAsync" "is_running (gc_data x) \<longrightarrow> s \<in> live S" "s \<notin> live S"
    "dec_ref rt s = Some (0, rt1)" "gc_heap rt1 s = Some (x\<lparr>ref_count := 0\<rparr>)"
  obtain is_active f t stack r0 r1 where d: "gc_data x = ASYNC_FUNCTION is_active f t stack r0 r1" using a(1) by (cases "gc_data x") auto
  let ?g = "\<lambda>rt. if is_active then async_func_free rt f t stack else Some rt"
  let ?xs = "if is_active then value_refs f @ value_refs t @ (case stack of None \<Rightarrow> [] | Some vs \<Rightarrow> concat (map value_refs vs)) else []"
  have "gives_up S ph ?g ?xs"
    using a(2,3) d gives_up_async_frame[of S ph f t] gives_up_skip[of S ph] by (cases is_active; cases stack) auto
  then have "gives_up S ph (\<lambda>rt. Option.bind (?g rt) (\<lambda>rt. Option.bind (free_value rt r0) (\<lambda>rt. free_value rt r1))) (?xs @ value_refs r0 @ value_refs r1)"
    by (intro gives_up_bind gives_up_value)
  then show "\<exists>g. gives_up S ph g (owned (gc_data x)) \<and>
      js_async_function_free rt s = Option.bind (g rt1) (\<lambda>rt. Some (js_free_rt s (if on_stack (gc_data x) then rt else list_unlink s rt)))"
    using a(4,5) d
    by (intro exI[of _ "\<lambda>rt. Option.bind (?g rt) (\<lambda>rt. Option.bind (free_value rt r0) (\<lambda>rt. free_value rt r1))"])
      (simp add: js_async_function_free_def js_async_function_free0_def)
qed (auto simp: js_async_function_free_def)

lemma gives_up_module: "gives_up S ph (\<lambda>rt. js_free_module_def rt m) (module_refs m)"
proof -
  have "gives_up S ph (fold_opt (free_opt free_var_ref) (fst m)) (concat (map (opt_refs KVarRef) (fst m)))"
    by (rule gives_up_fold, rule gives_up_opt, rule gives_up_var_ref)
  then show ?thesis using gives_up_bind[OF _ gives_up_values, of S ph _ _ "snd m"]
    by (cases m) (simp add: js_free_module_def_def module_refs_def)
qed

lemma gives_up_context: "gives_up S ph (\<lambda>rt. JS_FreeContext rt c) [(KContext, c)]"
proof (rule gives_up_object)
  fix rt rt1 x
  assume a: "kind_of (gc_data x) = KContext" "dec_ref rt c = Some (0, rt1)" "gc_heap rt1 c = Some (x\<lparr>ref_count := 0\<rparr>)"
  obtain ms vs sh where d: "gc_data x = JS_CONTEXT ms vs sh" using a(1) by (cases "gc_data x") auto
  let ?g = "\<lambda>rt. Option.bind (fold_opt js_free_module_def ms rt) (\<lambda>rt. Option.bind (fold_opt free_value vs rt) (\<lambda>rt. js_free_shape_null rt sh))"
  have "gives_up S ph ?g (owned (gc_data x))"
    unfolding d owned.simps js_free_shape_null_def
    by (intro gives_up_bind gives_up_values gives_up_fold gives_up_module gives_up_opt gives_up_shape)
  then show "\<exists>g. gives_up S ph g (owned (gc_data x)) \<and>
      JS_FreeContext rt c = Option.bind (g rt1) (\<lambda>rt. Some (js_free_rt c (if on_stack (gc_data x) then rt else list_unlink c rt)))"
    using a(2,3) d by (intro exI[of _ ?g]) (simp add: JS_FreeContext_def)
qed (auto simp: JS_FreeContext_def)

section \<open>Freeing a value\<close>

lemma gives_up_property: "gives_up S ph (\<lambda>rt. free_property rt pr) ((prop_refs \<circ> snd) pr)"
proof (cases "snd pr")
  case (PGetset g s)
  then show ?thesis using gives_up_bind[OF gives_up_opt_ptr gives_up_opt_ptr, of S ph g s] by (cases pr) simp
qed (cases pr; simp add: gives_up_value gives_up_var_ref gives_up_context)+

lemma gives_up_var_refs: "gives_up S ph (fold_opt (free_opt free_var_ref) rs) (concat (map (opt_refs KVarRef) rs))"
  by (rule gives_up_fold, rule gives_up_opt, rule gives_up_var_ref)

lemma gives_up_bytecode_function:
  "gives_up S ph (\<lambda>rt. js_bytecode_function_finalizer rt home b) (class_refs (BytecodeFunction home b))"
proof (cases b)
  case None
  have "gives_up S ph (\<lambda>rt. Option.bind (free_opt free_ptr rt home) Some) (opt_refs KValue home @ [])"
    by (rule gives_up_bind[OF gives_up_opt_ptr gives_up_skip])
  then show ?thesis using None by (simp add: js_bytecode_function_finalizer_def)
next
  case (Some z)
  then obtain c rs where z: "b = Some (c, rs)" by (cases z) auto
  have "gives_up S ph (\<lambda>rt. Option.bind (free_opt free_ptr rt home) (\<lambda>rt. Option.bind (fold_opt (free_opt free_var_ref) rs rt) (\<lambda>rt. free_ptr rt c)))
      (opt_refs KValue home @ concat (map (opt_refs KVarRef) rs) @ [(KValue, c)])"
    by (intro gives_up_bind gives_up_opt_ptr gives_up_var_refs gives_up_ptr)
  then show ?thesis using z by (simp add: js_bytecode_function_finalizer_def)
qed

lemma gives_up_class: "gives_up S ph (\<lambda>rt. class_finalizer rt c) (class_refs c)"
proof (cases c)
  case (BytecodeFunction home b)
  then show ?thesis using gives_up_bytecode_function by simp
next
  case (BoundFunction f t vs)
  have "gives_up S ph (\<lambda>rt. Option.bind (free_value rt f) (\<lambda>rt. Option.bind (free_value rt t) (fold_opt free_value vs)))
      (value_refs f @ value_refs t @ concat (map value_refs vs))"
    by (intro gives_up_bind gives_up_value gives_up_values)
  then show ?thesis using BoundFunction by (simp add: js_bound_function_finalizer_def)
next
  case (CFunction realm)
  have "gives_up S ph (\<lambda>rt. free_opt JS_FreeContext rt realm) (opt_refs KContext realm)"
    by (rule gives_up_opt) (rule gives_up_context)
  then show ?thesis using CFunction by (simp add: js_c_function_finalizer_def)
next
  case (AsyncFunctionResolve s)
  have "gives_up S ph (\<lambda>rt. free_opt js_async_function_free rt s) (opt_refs KAsync s)"
    by (rule gives_up_opt) (rule gives_up_async)
  then show ?thesis using AsyncFunctionResolve by (simp add: js_async_function_resolve_finalizer_def)
qed (simp_all add: gives_up_skip gives_up_value gives_up_values js_array_finalizer_def js_object_data_finalizer_def
    js_c_function_data_finalizer_def js_for_in_iterator_finalizer_def)

lemma free_object_end_inv:
  assumes i: "inv S ph W (insert p B) M rt" and p: "p \<notin> B" "p \<notin> live S" "js S p"
  shows "\<exists>rt'. free_object_end rt p = Some rt' \<and> inv S ph W B M rt'"
proof -
  obtain A rc gl zl tmp where v: "view_ok S" and rt: "rt = fstate (orig S) A rc gl zl tmp ph"
      and c: "core S W (insert p B) M A rc" and l: "links S ph W (insert p B) A rc gl zl tmp"
    using i by (auto simp: inv_def)
  have A: "p \<in> A" "p \<notin> W" using coreD(4,5)[OF c] by blast+
  obtain x where x: "orig S p = Some x" using A(1) coreD(1)[OF c] by auto
  show ?thesis
  proof (cases "rc p = 0")
    case True
    have "free_object_end rt p = Some (fstate (orig S) (A - {p}) rc (removeAll p gl) (removeAll p zl) (removeAll p tmp) ph)"
      using A(1) x True by (simp add: free_object_end_def rt list_unlink_fstate fheap_at js_free_rt_fstate)
    then show ?thesis using invI[OF v core_finish[OF v c p(1) True] links_free[OF l p(1,2) A(2)]] True by simp
  next
    case False
    then have ph: "ph = PHASE_REMOVE_CYCLES" using l p(3) A(1) js_listed[OF v p(3)] by (cases ph) auto
    have "links S ph W B A rc (removeAll p gl) (removeAll p zl @ [p]) (removeAll p tmp)"
      using l p A js_listed[OF v p(3)] by (auto simp: ph distinct_removeAll)
    moreover have "free_object_end rt p = Some (fstate (orig S) A rc (removeAll p gl) (removeAll p zl @ [p]) (removeAll p tmp) ph)"
      using A(1) x False by (simp add: free_object_end_def rt list_unlink_fstate fheap_at ph)
    ultimately show ?thesis using invI[OF v core_zombie[OF c p(3)]] by blast
  qed
qed

lemma free_value_end:
  assumes g: "gives_up S ph g xs" and i: "inv S ph W (insert p B) (M + mset xs) rt" and p: "p \<notin> B" "p \<notin> live S" "js S p"
  shows "\<exists>W' rt'. Option.bind (g rt) (\<lambda>rt. free_object_end rt p) = Some rt' \<and> inv S ph W' B M rt' \<and> W' \<subseteq> W"
proof -
  obtain W' rt1 where "g rt = Some rt1" "inv S ph W' (insert p B) M rt1" "W' \<subseteq> W" by (rule gives_upD[OF g i])
  then show ?thesis using free_object_end_inv[OF _ p, of ph W' M rt1] by auto
qed

lemma links_hand_over:
  assumes "links S ph W B A rc gl zl tmp" "p \<in> W" "ph = PHASE_DECREF \<longrightarrow> p \<in> set zl"
  shows "links S ph (W - {p}) (insert p B) A rc gl zl tmp"
  using assms by (cases ph) auto

lemma free_gc_object_inv:
  assumes i: "inv S ph W B M rt" and p: "p \<in> W" "p \<notin> live S" "js S p" "ph = PHASE_DECREF \<longrightarrow> p \<in> set (gc_zero_ref_count_list rt)"
  shows "\<exists>W' rt'. free_gc_object rt p = Some rt' \<and> inv S ph W' B M rt' \<and> W' \<subseteq> W - {p}"
proof -
  obtain A rc gl zl tmp where v: "view_ok S" and rt: "rt = fstate (orig S) A rc gl zl tmp ph"
      and c: "core S W B M A rc" and l: "links S ph W B A rc gl zl tmp"
    using i by (auto simp: inv_def)
  have A: "p \<in> A" "p \<notin> B" using coreD(3,5)[OF c] p(1) by blast+
  obtain x where x: "orig S p = Some x" "kind_of (gc_data x) = KValue" using p(3) by (auto simp: js_def has_kind_def)
  have "inv S ph (W - {p}) (insert p B) (M + mset (own (orig S) p)) rt"
    using invI[OF v core_hand_over[OF v c p(1,2)] links_hand_over[OF l p(1)]] p(3,4) by (simp add: rt)
  then have i1: "inv S ph (W - {p}) (insert p B) (M + mset (owned (gc_data x))) rt" using x(1) by (simp add: own_def)
  have h: "gc_heap rt p = Some (x\<lparr>ref_count := rc p\<rparr>)" using A(1) x(1) by (simp add: rt fheap_at)
  show ?thesis
  proof (cases "gc_data x")
    case (JS_OBJECT sh props cl)
    have "gives_up S ph (\<lambda>rt. Option.bind (fold_opt free_property props rt) (\<lambda>rt. Option.bind (js_free_shape rt sh) (\<lambda>rt. class_finalizer rt cl)))
        (concat (map (prop_refs \<circ> snd) props) @ [(KShape, sh)] @ class_refs cl)"
      by (intro gives_up_bind gives_up_fold gives_up_property gives_up_shape gives_up_class)
    from free_value_end[OF gives_up_mset[OF this, of "owned (gc_data x)"] i1 A(2) p(2,3)]
    show ?thesis using JS_OBJECT h by (simp add: free_gc_object_def free_object_def)
  next
    case (FUNCTION_BYTECODE cpool realm)
    have "gives_up S ph (\<lambda>rt. Option.bind (fold_opt free_value cpool rt) (\<lambda>rt. free_opt JS_FreeContext rt realm)) (owned (gc_data x))"
      unfolding FUNCTION_BYTECODE owned.simps by (intro gives_up_bind gives_up_values gives_up_opt gives_up_context)
    from free_value_end[OF this i1 A(2) p(2,3)]
    show ?thesis using FUNCTION_BYTECODE h by (simp add: free_gc_object_def free_function_bytecode_def)
  qed (use x(2) in simp_all)
qed

end
