(* ===== verification/Js_Gc_Run.thy ===== *)
theory Js_Gc_Run
  imports Js_Gc_Free
begin

text \<open>
  The memory management as a whole: the well-formedness of a heap of counted objects, that giving
  up a reference and running the collector keep it, and what each of them frees.
\<close>

section \<open>The loops\<close>

lemma free_zero_loop_inv:
  "inv S PHASE_DECREF W {} {#} rt \<Longrightarrow>
    \<exists>W' rt'. free_zero_loop rt = Some rt' \<and> inv S PHASE_DECREF W' {} {#} rt' \<and> gc_zero_ref_count_list rt' = []"
proof (induction "card W" arbitrary: W rt rule: less_induct)
  case less
  obtain A rc gl zl tmp where v: "view_ok S" and rt: "rt = fstate (orig S) A rc gl zl tmp PHASE_DECREF"
      and c: "core S W {} {#} A rc" and l: "links S PHASE_DECREF W {} A rc gl zl tmp"
    using less.prems by (auto simp: inv_def)
  show ?case
  proof (cases zl)
    case Nil
    then show ?thesis using less.prems rt by (auto simp: free_zero_loop.simps)
  next
    case (Cons p zl')
    have p: "p \<in> A" "js S p" "rc p = 0" "p \<in> W" using l Cons by auto
    obtain x where x: "orig S p = Some x" using coreD(1)[OF c] p(1) by auto
    have nl: "p \<notin> live S" by (rule core_zero(1)[OF v c p(1,3)])
    obtain W1 rt1 where 1: "free_gc_object rt p = Some rt1" "inv S PHASE_DECREF W1 {} {#} rt1" "W1 \<subseteq> W - {p}"
      using free_gc_object_inv[OF less.prems p(4) nl p(2)] Cons rt by auto
    have "card W1 < card W" using 1(3) p(4) coreD(2)[OF c] by (intro psubset_card_mono) auto
    then obtain W2 rt2 where "free_zero_loop rt1 = Some rt2" "inv S PHASE_DECREF W2 {} {#} rt2" "gc_zero_ref_count_list rt2 = []"
      using less.hyps 1(2) by blast
    moreover have "free_zero_loop rt = free_zero_loop rt1"
      unfolding free_zero_loop.simps[of rt] using 1(1) x p(1,3) Cons by (simp add: rt fheap_at)
    ultimately show ?thesis by auto
  qed
qed

lemma gc_free_loop_inv:
  "inv S PHASE_REMOVE_CYCLES W {} {#} rt \<Longrightarrow>
    \<exists>W' rt'. gc_free_loop rt = Some rt' \<and> inv S PHASE_REMOVE_CYCLES W' {} {#} rt' \<and> tmp_obj_list rt' = []"
proof (induction "(W, rt)" arbitrary: W rt
    rule: wf_induct_rule[OF wf_measures[of "[\<lambda>(W, rt). card W, \<lambda>(W, rt). length (tmp_obj_list rt)]"]])
  case (1 W rt)
  obtain A rc gl zl tmp where v: "view_ok S" and rt: "rt = fstate (orig S) A rc gl zl tmp PHASE_REMOVE_CYCLES"
      and c: "core S W {} {#} A rc" and l: "links S PHASE_REMOVE_CYCLES W {} A rc gl zl tmp"
    using "1.prems" by (auto simp: inv_def)
  show ?case
  proof (cases tmp)
    case Nil
    then show ?thesis using "1.prems" rt by (auto simp: gc_free_loop.simps)
  next
    case (Cons p tmp')
    have p: "p \<in> A" "p \<notin> live S" "js S p \<Longrightarrow> p \<in> W" using l Cons by auto
    obtain x where x: "orig S p = Some x" using coreD(1)[OF c] p(1) by auto
    have h: "gc_heap rt p = Some (x\<lparr>ref_count := rc p\<rparr>)" using x p(1) by (simp add: rt fheap_at)
    have "\<exists>W1 rt1. gc_free_loop rt = gc_free_loop rt1 \<and> inv S PHASE_REMOVE_CYCLES W1 {} {#} rt1 \<and>
        (card W1 < card W \<or> W1 = W \<and> length (tmp_obj_list rt1) < length tmp)"
    proof (cases "js S p")
      case True
      obtain W1 rt1 where f: "free_gc_object rt p = Some rt1" "inv S PHASE_REMOVE_CYCLES W1 {} {#} rt1" "W1 \<subseteq> W - {p}"
        using free_gc_object_inv[OF "1.prems" p(3)[OF True] p(2) True] by auto
      have "gc_free_loop rt = gc_free_loop rt1"
        unfolding gc_free_loop.simps[of rt] using f(1) h x True Cons
        by (cases "gc_data x") (simp_all add: rt js_def has_kind_def)
      moreover have "card W1 < card W" using f(3) p(3)[OF True] coreD(2)[OF c] by (intro psubset_card_mono) auto
      ultimately show ?thesis using f(2) by blast
    next
      case False
      let ?rt1 = "fstate (orig S) A rc (removeAll p gl) (removeAll p zl @ [p]) (removeAll p tmp) PHASE_REMOVE_CYCLES"
      have "gc_free_loop rt = gc_free_loop ?rt1"
        unfolding gc_free_loop.simps[of rt] using h x False Cons
        by (cases "gc_data x") (simp_all add: rt js_def has_kind_def list_unlink_fstate)
      moreover have "inv S PHASE_REMOVE_CYCLES W {} {#} ?rt1"
        using l False Cons by (intro invI[OF v c]) (auto simp: distinct_removeAll)
      moreover have "length (removeAll p tmp) < length tmp" using Cons by (intro length_removeAll_less) simp
      ultimately show ?thesis by (intro exI[of _ W] exI[of _ ?rt1]) simp
    qed
    then show ?thesis using "1.hyps" rt by fastforce
  qed
qed

section \<open>Well-formed heaps\<close>

text \<open>
  Deleted properties hold no value, and the variables exported by a module are not in a stack frame.
\<close>

fun data_ok :: "gc_heap \<Rightarrow> gc_data \<Rightarrow> bool" where
  "data_ok h (JS_OBJECT sh props c) = (\<forall>u. (False, u) \<in> set props \<longrightarrow> u = PValue Plain)"
| "data_ok h (JS_CONTEXT modules vs array_shape) =
     (\<forall>m\<in>set modules. \<forall>r\<in>set (concat (map opt_list (fst m))). \<forall>x. h r = Some x \<longrightarrow> \<not> on_stack (gc_data x))"
| "data_ok h _ = True"

text \<open>The references that the rest of the program holds.\<close>

definition external_refs :: "gc_heap \<Rightarrow> addr \<Rightarrow> int" where
  "external_refs h a = rc_of h a - refs h (dom h) a"

text \<open>
  References have the right kind and lead to allocated objects, no count is below the
  number of references, and no object has a count of zero. The objects listed are those that are not
  variables of a stack frame, and a running function is held from outside.
\<close>

definition heap_wf :: "gc_heap \<Rightarrow> addr set \<Rightarrow> bool" where
  "heap_wf h L \<longleftrightarrow> finite (dom h) \<and> L \<subseteq> dom h \<and> (\<forall>b k a. (k, a) \<in> set (own h b) \<longrightarrow> has_kind h k a) \<and>
     (\<forall>a x. h a = Some x \<longrightarrow> \<not> gc_mark x \<and> 0 < ref_count x \<and> 0 \<le> external_refs h a \<and> data_ok h (gc_data x) \<and>
       (a \<in> L \<longleftrightarrow> \<not> on_stack (gc_data x)) \<and> (is_running (gc_data x) \<longrightarrow> 0 < external_refs h a))"

definition gc_wf :: "gc_runtime \<Rightarrow> bool" where
  "gc_wf rt \<longleftrightarrow> heap_wf (gc_heap rt) (set (gc_obj_list rt)) \<and> distinct (gc_obj_list rt) \<and>
     gc_zero_ref_count_list rt = [] \<and> tmp_obj_list rt = [] \<and> gc_phase rt = PHASE_NONE"

inductive reach :: "gc_heap \<Rightarrow> (addr \<Rightarrow> int) \<Rightarrow> addr \<Rightarrow> bool" for h ext where
  root: "0 < ext a \<Longrightarrow> reach h ext a"
| step: "reach h ext b \<Longrightarrow> a \<in> snd ` set (own h b) \<Longrightarrow> reach h ext a"

lemma heap_wfD:
  assumes "heap_wf h L"
  shows "finite (dom h)" "L \<subseteq> dom h" "(k, a) \<in> set (own h b) \<Longrightarrow> has_kind h k a"
    "h a = Some x \<Longrightarrow> \<not> gc_mark x" "h a = Some x \<Longrightarrow> 0 < ref_count x" "h a = Some x \<Longrightarrow> 0 \<le> external_refs h a"
    "h a = Some x \<Longrightarrow> data_ok h (gc_data x)" "h a = Some x \<Longrightarrow> a \<in> L \<longleftrightarrow> \<not> on_stack (gc_data x)"
    "h a = Some x \<Longrightarrow> is_running (gc_data x) \<Longrightarrow> 0 < external_refs h a"
  using assms unfolding heap_wf_def by blast+

lemma own_in_dom: "heap_wf h L \<Longrightarrow> a \<in> snd ` set (own h b) \<Longrightarrow> a \<in> dom h"
  using heap_wfD(3)[of h L] by (force simp: has_kind_def)

subsection \<open>Marking and owning\<close>

definition off_stack :: "gc_heap \<Rightarrow> addr \<Rightarrow> bool" where
  "off_stack h a \<longleftrightarrow> (\<forall>x. h a = Some x \<longrightarrow> \<not> on_stack (gc_data x))"

lemma off_stack_kind: "has_kind h k a \<Longrightarrow> k \<noteq> KVarRef \<Longrightarrow> off_stack h a"
  by (auto simp: has_kind_def off_stack_def elim!: on_stack.elims)

lemma off_stack_detached: "has_kind h KVarRef a \<Longrightarrow> is_detached h a \<longleftrightarrow> off_stack h a"
proof (elim has_kind_def[THEN iffD1, elim_format] exE conjE)
  fix x assume "h a = Some x" "kind_of (gc_data x) = KVarRef"
  then show ?thesis by (cases "gc_data x") (simp_all add: off_stack_def is_detached_def)
qed

definition typed :: "gc_heap \<Rightarrow> ref list \<Rightarrow> bool" where
  "typed h xs \<longleftrightarrow> (\<forall>(k, a)\<in>set xs. has_kind h k a)"

abbreviation seen :: "gc_heap \<Rightarrow> ref list \<Rightarrow> addr list" where
  "seen h xs \<equiv> filter (off_stack h) (map snd xs)"

lemma typed_simps [simp]: "typed h []" "typed h (xs @ ys) \<longleftrightarrow> typed h xs \<and> typed h ys" "typed h ((k, a) # xs) \<longleftrightarrow> has_kind h k a \<and> typed h xs"
    "typed h (concat xss) \<longleftrightarrow> (\<forall>xs\<in>set xss. typed h xs)"
  by (auto simp: typed_def)

lemma seen_opt: "typed h (opt_refs k p) \<Longrightarrow> k \<noteq> KVarRef \<Longrightarrow> seen h (opt_refs k p) = opt_list p"
  by (cases p) (auto simp: opt_refs_def dest: off_stack_kind)

lemma seen_value: "typed h (value_refs v) \<Longrightarrow> seen h (value_refs v) = mark_value v"
  by (cases v) (auto simp: value_refs_def dest: off_stack_kind)

lemma value_refs_Plain: "value_refs Plain = []"
  by (simp add: value_refs_def)

lemma seen_values: "typed h (concat (map value_refs vs)) \<Longrightarrow> seen h (concat (map value_refs vs)) = concat (map mark_value vs)"
  by (induction vs) (simp_all add: seen_value)

lemma seen_var_refs: "typed h (concat (map (opt_refs KVarRef) rs)) \<Longrightarrow>
    seen h (concat (map (opt_refs KVarRef) rs)) = filter (is_detached h) (concat (map opt_list rs))"
proof (induction rs)
  case (Cons r rs)
  then show ?case by (cases r) (auto simp: opt_refs_def off_stack_detached)
qed simp

lemma seen_prop: "typed h (prop_refs u) \<Longrightarrow> \<not> b \<longrightarrow> u = PValue Plain \<Longrightarrow> seen h (prop_refs u) = mark_prop h (b, u)"
  by (cases b; cases u) (auto simp: seen_value seen_opt off_stack_detached value_refs_Plain dest: off_stack_kind)

lemma seen_props:
  "typed h (concat (map (prop_refs \<circ> snd) ps)) \<Longrightarrow> (\<forall>u. (False, u) \<in> set ps \<longrightarrow> u = PValue Plain) \<Longrightarrow>
     seen h (concat (map (prop_refs \<circ> snd) ps)) = concat (map (mark_prop h) ps)"
proof (induction ps)
  case (Cons p ps)
  then have "seen h (prop_refs (snd p)) = mark_prop h (fst p, snd p)" by (intro seen_prop) (auto simp: prod_eq_iff)
  then show ?case using Cons by simp
qed simp

lemma seen_class: "typed h (class_refs c) \<Longrightarrow> seen h (class_refs c) = class_gc_mark h c"
proof (cases c)
  case (BytecodeFunction home b)
  assume "typed h (class_refs c)"
  then show ?thesis using BytecodeFunction
    by (cases b) (auto simp: js_bytecode_function_mark_def seen_opt seen_var_refs dest: off_stack_kind)
qed (simp_all add: seen_value seen_values seen_opt js_array_mark_def js_object_data_mark_def js_c_function_mark_def
    js_c_function_data_mark_def js_bound_function_mark_def js_for_in_iterator_mark_def js_async_function_resolve_mark_def)

lemma seen_module:
  assumes "typed h (module_refs m)" "\<forall>r\<in>set (concat (map opt_list (fst m))). off_stack h r"
  shows "seen h (module_refs m) = js_mark_module_def m"
proof -
  have "map snd (concat (map (opt_refs KVarRef) rs)) = concat (map opt_list rs)" for rs
    by (induction rs) (simp_all add: opt_refs_def comp_def)
  then have "seen h (concat (map (opt_refs KVarRef) (fst m))) = concat (map opt_list (fst m))"
    using assms(2) by (simp only: filter_id_conv)
  then show ?thesis using assms(1) by (cases m) (simp add: module_refs_def js_mark_module_def_def seen_values)
qed

lemma seen_modules:
  "typed h (concat (map module_refs ms)) \<Longrightarrow> (\<forall>m\<in>set ms. \<forall>r\<in>set (concat (map opt_list (fst m))). off_stack h r) \<Longrightarrow>
     seen h (concat (map module_refs ms)) = concat (map js_mark_module_def ms)"
  by (induction ms) (simp_all add: seen_module)

lemma mark_children_owned:
  assumes t: "typed h (owned d)" and "data_ok h d" "\<not> on_stack d"
  shows "mark_children h d = Some (seen h (owned d))"
proof (cases d)
  case (JS_OBJECT sh props c)
  then show ?thesis using assms seen_props[of h props] seen_class[of h c] by (auto dest: off_stack_kind)
next
  case (JS_CONTEXT ms vs sh)
  then show ?thesis using assms seen_modules[of h ms]
    by (simp add: JS_MarkContext_def seen_values seen_opt off_stack_def[symmetric])
next
  case (ASYNC_FUNCTION is_active f t stack r0 r1)
  then show ?thesis using assms by (cases stack; cases is_active) (simp_all add: async_func_mark_def seen_value seen_values)
qed (use assms in \<open>simp_all add: seen_value seen_values seen_opt\<close>)

section \<open>A well-formed heap is ready for the collector\<close>

lemma typed_own: "heap_wf h L \<Longrightarrow> h b = Some x \<Longrightarrow> typed h (owned (gc_data x))"
  using heap_wfD(3)[of h L _ _ b] by (auto simp: typed_def own_def)

lemma listed_at:
  assumes "heap_wf h L" "b \<in> L"
  obtains x where "h b = Some x" "mark_children h (gc_data x) = Some (children h b)" "children h b = seen h (own h b)"
proof -
  obtain x where x: "h b = Some x" using heap_wfD(2)[OF assms(1)] assms(2) by auto
  have "mark_children h (gc_data x) = Some (seen h (owned (gc_data x)))"
    using heap_wfD(7,8)[OF assms(1) x] assms(2) by (intro mark_children_owned typed_own[OF assms(1) x]) auto
  then show ?thesis using that[OF x] x by (simp add: children_def own_def)
qed

lemma in_children:
  assumes w: "heap_wf h L" and b: "b \<in> L"
  shows "a \<in> set (children h b) \<longleftrightarrow> a \<in> L \<and> a \<in> snd ` set (own h b)"
proof -
  obtain x where c: "children h b = seen h (own h b)" by (rule listed_at[OF w b])
  have "off_stack h a \<longleftrightarrow> a \<in> L" if "a \<in> snd ` set (own h b)"
    using own_in_dom[OF w that] heap_wfD(8)[OF w] by (auto simp: off_stack_def)
  then show ?thesis unfolding c by auto
qed

lemma own_unlisted:
  assumes "heap_wf h L" "b \<notin> L"
  shows "own h b = []"
proof (cases "h b")
  case (Some x)
  then have "on_stack (gc_data x)" using heap_wfD(8)[OF assms(1) Some] assms(2) by simp
  then show ?thesis using Some by (cases "gc_data x") (simp_all add: own_def)
qed (simp add: own_def)

lemma closed_list_wf:
  assumes "heap_wf h (set gl)" "distinct gl"
  shows "closed_list h gl"
  unfolding closed_list_def
proof (intro conjI ballI)
  fix b assume b: "b \<in> set gl"
  obtain x where "h b = Some x" "mark_children h (gc_data x) = Some (children h b)" by (rule listed_at[OF assms(1) b])
  moreover have "set (children h b) \<subseteq> set gl" using in_children[OF assms(1) b] by blast
  ultimately show "\<exists>x xs. h b = Some x \<and> mark_children h (gc_data x) = Some xs \<and> set xs \<subseteq> set gl" by blast
qed (rule assms(2))

lemma refs_children:
  assumes w: "heap_wf h (set gl)" and d: "distinct gl" and a: "a \<in> set gl"
  shows "refs_from h gl a = refs h (dom h) a"
proof -
  have o: "off_stack h a" using heap_wfD(2,8)[OF w] a by (auto simp: off_stack_def)
  have "count_list (filter (off_stack h) xs) a = count_list xs a" for xs using o by (induction xs) auto
  moreover have "children h b = seen h (own h b)" if "b \<in> set gl" for b by (rule listed_at[OF w that])
  ultimately have c: "count_list (children h b) a = count_list (map snd (own h b)) a" if "b \<in> set gl" for b using that by simp
  have "refs_from h gl a = (\<Sum>b\<in>set gl. int (count_list (map snd (own h b)) a))"
    unfolding refs_from_def sum_list_distinct_conv_sum_set[OF d] using c by (intro sum.cong) auto
  also have "\<dots> = refs h (dom h) a"
    unfolding refs_def using own_unlisted[OF w] heap_wfD(1,2)[OF w] by (intro sum.mono_neutral_left) auto
  finally show ?thesis .
qed

lemma external_eq: "gc_wf rt \<Longrightarrow> a \<in> set (gc_obj_list rt) \<Longrightarrow> external rt a = external_refs (gc_heap rt) a"
  by (simp add: gc_wf_def external_def external_refs_def refs_children)

lemma external_refs_nonneg:
  assumes "heap_wf h L"
  shows "0 \<le> external_refs h a"
proof (cases "h a")
  case None
  then have "a \<notin> snd ` set (own h b)" for b using own_in_dom[OF assms, of a b] by auto
  then have "count_list (map snd (own h b)) a = 0" for b by (simp add: count_list_0_iff)
  then show ?thesis using None by (simp add: external_refs_def rc_of_def refs_def)
qed (rule heap_wfD(6)[OF assms])

lemma gc_wf_ready:
  assumes "gc_wf rt"
  shows "gc_ready rt"
proof -
  let ?h = "gc_heap rt" and ?gl = "gc_obj_list rt"
  have w: "heap_wf ?h (set ?gl)" and d: "distinct ?gl" "gc_zero_ref_count_list rt = []" using assms by (simp_all add: gc_wf_def)
  note c = closed_list_wf[OF w d(1)]
  have "\<not> gc_mark x \<and> 0 \<le> external rt a \<and> (a \<in> set ?gl \<or> (\<exists>v. gc_data x = VAR_REF False v))" if x: "?h a = Some x" for a x
  proof (cases "a \<in> set ?gl")
    case True
    then show ?thesis using heap_wfD(4,6)[OF w x] external_eq[OF assms True] by simp
  next
    case False
    then have "on_stack (gc_data x)" using heap_wfD(8)[OF w x] by simp
    then have "\<exists>v. gc_data x = VAR_REF False v" by (cases "gc_data x") auto
    moreover have "external rt a = ref_count x" using refs_from_outside[OF c False] x by (simp add: external_def rc_of_def)
    ultimately show ?thesis using heap_wfD(4,5)[OF w x] by simp
  qed
  then show ?thesis using c d(2) by (simp add: gc_ready_def)
qed

lemma reach_listed:
  assumes w: "gc_wf rt" and a: "a \<in> set (gc_obj_list rt)"
  shows "gc_reachable (gc_heap rt) (external rt) a \<longleftrightarrow> reach (gc_heap rt) (external_refs (gc_heap rt)) a"
proof
  let ?h = "gc_heap rt" and ?L = "set (gc_obj_list rt)"
  have h: "heap_wf ?h ?L" using w by (simp add: gc_wf_def)
  show "reach ?h (external_refs ?h) a" if "gc_reachable ?h (external rt) a"
    using that a
  proof (induction rule: gc_reachable.induct)
    case (root a)
    then show ?case using external_eq[OF w] by (auto intro: reach.root)
  next
    case (child b a)
    have "b \<in> ?L" using child.hyps(2) children_unlisted[OF gc_wf_ready[OF w], of b] by (cases "b \<in> ?L") simp_all
    then show ?case using child in_children[OF h] by (auto intro: reach.step)
  qed
  show "gc_reachable ?h (external rt) a" if "reach ?h (external_refs ?h) a"
    using that a
  proof (induction rule: reach.induct)
    case (root a)
    then show ?case using external_eq[OF w] by (auto intro: gc_reachable.root)
  next
    case (step b a)
    have "b \<in> ?L" using step.hyps(2) own_unlisted[OF h, of b] by (cases "b \<in> ?L") simp_all
    then show ?case using step in_children[OF h] by (blast intro: gc_reachable.child)
  qed
qed

section \<open>The heap after a phase\<close>

lemma own_marked [simp]: "own (marked h rc mk) = own h"
  by (auto simp: own_def marked_def fun_eq_iff split: option.splits)

lemma has_kind_marked [simp]: "has_kind (marked h rc mk) = has_kind h"
  by (auto simp: has_kind_def marked_def fun_eq_iff)

lemma refs_marked [simp]: "refs (marked h rc mk) = refs h"
  by (simp add: refs_def fun_eq_iff)

lemma dom_marked [simp]: "dom (marked h rc mk) = dom h"
  by (auto simp: marked_def)

lemma data_ok_sub: "data_ok h d \<Longrightarrow> (\<And>r x. h' r = Some x \<Longrightarrow> \<exists>y. h r = Some y \<and> gc_data y = gc_data x) \<Longrightarrow> data_ok h' d"
  by (cases d) (simp_all, metis)

lemma heap_wf_after:
  assumes w: "heap_wf h L" and S: "orig S = marked h rc0 mk" and c: "core S K {} {#} K rc"
    and K: "\<And>a. a \<in> K \<Longrightarrow> \<not> mk a \<and> 0 < rc a" and e: "\<And>a. 0 \<le> extr S a"
    and r: "\<And>a x. a \<in> K \<Longrightarrow> h a = Some x \<Longrightarrow> is_running (gc_data x) \<Longrightarrow> 0 < extr S a"
  shows "heap_wf (fheap (orig S) K rc) (K \<inter> L)" "a \<in> K \<Longrightarrow> external_refs (fheap (orig S) K rc) a = extr S a"
proof -
  let ?h = "fheap (orig S) K rc"
  note d = coreD[OF c]
  have Kd: "K \<subseteq> dom h" using d(1) by (simp add: S)
  have own: "own ?h b = (if b \<in> K then own h b else [])" for b
    by (auto simp: own_def fheap_def S marked_def split: option.splits)
  have at: "?h a = Some x \<longleftrightarrow> a \<in> K \<and> (\<exists>y. h a = Some y \<and> x = y\<lparr>ref_count := rc a, gc_mark := mk a\<rparr>)" for a x
    by (auto simp: fheap_def S marked_def)
  have dom: "dom ?h = K" using Kd by (auto simp: fheap_def S marked_def split: if_splits)
  have "refs ?h (dom ?h) a = refs h K a" for a unfolding refs_def dom by (intro sum.cong) (simp_all add: own)
  moreover have "rc_of ?h a = rc a" if "a \<in> K" for a using that Kd by (auto simp: rc_of_def fheap_def S marked_def split: option.splits)
  ultimately show ext: "external_refs ?h a = extr S a" if "a \<in> K" for a
    using that d(10)[OF that] by (simp add: external_refs_def S pending_add)
  have kind: "has_kind ?h k a" if "(k, a) \<in> set (own ?h b)" for k a b
  proof -
    have b: "b \<in> K" "(k, a) \<in> set (own h b)" using that by (auto simp: own split: if_splits)
    then have "a \<in> K" using d(7)[of b] by (force simp: S)
    then show ?thesis using heap_wfD(3)[OF w b(2)] by (auto simp: has_kind_def at)
  qed
  show "heap_wf ?h (K \<inter> L)"
    unfolding heap_wf_def
  proof (intro conjI allI impI)
    show "finite (dom ?h)" using d(2) by (simp add: dom)
    show "K \<inter> L \<subseteq> dom ?h" by (simp add: dom)
    show "has_kind ?h k a" if "(k, a) \<in> set (own ?h b)" for b k a using that by (rule kind)
    fix a x assume "?h a = Some x"
    then obtain y where a: "a \<in> K" "h a = Some y" "x = y\<lparr>ref_count := rc a, gc_mark := mk a\<rparr>" by (auto simp: at)
    show "\<not> gc_mark x" "0 < ref_count x" "0 \<le> external_refs ?h a" using K[OF a(1)] a(3) e[of a] ext[OF a(1)] by simp_all
    show "(a \<in> K \<inter> L) = (\<not> on_stack (gc_data x))" using heap_wfD(8)[OF w a(2)] a by simp
    show "0 < external_refs ?h a" if "is_running (gc_data x)" using r[OF a(1,2)] that a(3) ext[OF a(1)] by simp
    have "data_ok ?h (gc_data y)" by (rule data_ok_sub[OF heap_wfD(7)[OF w a(2)]]) (auto simp: at)
    then show "data_ok ?h (gc_data x)" using a(3) by simp
  qed
qed

section \<open>Giving up a reference\<close>

lemma view_ok_reach:
  assumes w: "heap_wf h L" and S: "orig S = marked h rc0 mk" "listed S = L" "live S = {a \<in> L. reach h (extr S) a}"
    and e: "\<And>a. 0 \<le> extr S a" and r: "\<And>a x. h a = Some x \<Longrightarrow> is_running (gc_data x) \<Longrightarrow> 0 < extr S a"
  shows "view_ok S"
proof -
  have "0 < extr S a \<or> (\<exists>b\<in>live S. a \<in> snd ` set (own h b))" if "a \<in> live S" for a
  proof -
    have "reach h (extr S) a" using that S(3) by simp
    then show ?thesis
    proof (cases rule: reach.cases)
      case (step b)
      have "b \<in> L" using step(2) own_unlisted[OF w, of b] by (cases "b \<in> L") simp_all
      then show ?thesis using step S(3) by blast
    qed simp
  qed
  moreover have "(is_running (gc_data x) \<longrightarrow> a \<in> live S) \<and> (a \<in> L \<longleftrightarrow> \<not> on_stack (gc_data x))" if x: "marked h rc0 mk a = Some x" for a x
  proof -
    obtain y where y: "h a = Some y" "gc_data x = gc_data y" using x by (auto simp: marked_def)
    have "\<not> on_stack (gc_data y)" if "is_running (gc_data y)" using that by (cases "gc_data y") auto
    then show ?thesis using y heap_wfD(8)[OF w y(1)] r[OF y(1)] S(3) by (auto intro: reach.root)
  qed
  ultimately show ?thesis using heap_wfD(3)[OF w] e S by (auto simp: view_ok_def)
qed

lemma gc_wf_marked: "heap_wf h L \<Longrightarrow> marked h (rc_of h) (\<lambda>_. False) = h"
  by (auto simp: marked_def rc_of_def fun_eq_iff dest: heap_wfD(4) split: option.splits)

text \<open>The rest of a well-formed runtime after a phase.\<close>

definition kept :: "gc_runtime \<Rightarrow> gc_runtime \<Rightarrow> addr \<Rightarrow> bool" where
  "kept rt rt' a \<longleftrightarrow> (\<exists>x y. gc_heap rt a = Some x \<and> gc_heap rt' a = Some y \<and> gc_data y = gc_data x)"

lemma wf_result:
  assumes w: "heap_wf (gc_heap rt) L" and S: "orig S = marked (gc_heap rt) rc0 mk" "listed S = L"
    and v: "view_ok S" and c: "core S K {} {#} K rc" and K: "\<And>a. a \<in> K \<Longrightarrow> \<not> mk a \<and> 0 < rc a"
    and r: "\<And>a x. gc_heap rt a = Some x \<Longrightarrow> is_running (gc_data x) \<Longrightarrow> 0 < extr S a" and gl: "set gl = K \<inter> L" "distinct gl"
  defines "rt' \<equiv> fstate (orig S) K rc gl [] [] PHASE_NONE"
  shows "gc_wf rt'" "gc_heap rt' a \<noteq> None \<Longrightarrow> a \<in> K \<and> kept rt rt' a \<and> external_refs (gc_heap rt') a = extr S a" "a \<in> K \<Longrightarrow> kept rt rt' a"
proof -
  have "heap_wf (fheap (orig S) K rc) (K \<inter> L)" using r by (intro heap_wf_after(1)[OF w S(1) c K view_okD(2)[OF v]]) blast
  then show "gc_wf rt'" using gl by (simp add: gc_wf_def rt'_def)
  have e: "external_refs (fheap (orig S) K rc) a = extr S a" if "a \<in> K" for a
    using r that by (intro heap_wf_after(2)[OF w S(1) c K view_okD(2)[OF v]]) blast+
  have k: "kept rt rt' a" if "a \<in> K" for a
    using that coreD(1)[OF c] by (auto simp: kept_def rt'_def fheap_def S(1) marked_def)
  then show "a \<in> K \<Longrightarrow> kept rt rt' a" .
  show "a \<in> K \<and> kept rt rt' a \<and> external_refs (gc_heap rt') a = extr S a" if "gc_heap rt' a \<noteq> None"
    using that k[of a] e[of a] by (auto simp: rt'_def fheap_def split: if_splits)
qed

lemma decref_end:
  assumes "inv S PHASE_DECREF W {} {#} rt" "gc_zero_ref_count_list rt = []"
  obtains rc gl where "rt = fstate (orig S) W rc gl [] [] PHASE_DECREF" "core S W {} {#} W rc" "set gl = W \<inter> listed S" "distinct gl"
    "\<And>a. a \<in> W \<Longrightarrow> 0 < rc a"
proof -
  obtain A rc gl tmp where rt: "rt = fstate (orig S) A rc gl [] tmp PHASE_DECREF" and v: "view_ok S"
      and c: "core S W {} {#} A rc" and l: "links S PHASE_DECREF W {} A rc gl [] tmp"
    using assms by (auto simp: inv_def)
  have W: "W = A" using coreD(3,11)[OF c] l by fastforce
  have "0 < rc a" if "a \<in> A" for a
    using that coreD(11)[OF c, of a] l js_listed[OF v, of a] by (cases "js S a") auto
  then show ?thesis using that[of rc gl] rt c l W by auto
qed

text \<open>The external references without one to \<open>p\<close>, and the objects reachable from them.\<close>

definition ext_without :: "gc_runtime \<Rightarrow> addr \<Rightarrow> addr \<Rightarrow> int" where
  "ext_without rt p = (external_refs (gc_heap rt))(p := external_refs (gc_heap rt) p - 1)"

definition reach_view :: "gc_runtime \<Rightarrow> gc_heap \<Rightarrow> (addr \<Rightarrow> int) \<Rightarrow> gc_view" where
  "reach_view rt h ext = \<lparr>orig = h, extr = ext, live = {a \<in> set (gc_obj_list rt). reach (gc_heap rt) ext a}, listed = set (gc_obj_list rt)\<rparr>"

lemma reach_view_sel [simp]:
  "orig (reach_view rt h ext) = h" "extr (reach_view rt h ext) = ext" "listed (reach_view rt h ext) = set (gc_obj_list rt)"
  "live (reach_view rt h ext) = {a \<in> set (gc_obj_list rt). reach (gc_heap rt) ext a}"
  by (simp_all add: reach_view_def)

definition phase_result :: "gc_runtime \<Rightarrow> gc_view \<Rightarrow> gc_runtime \<Rightarrow> bool" where
  "phase_result rt S rt' \<longleftrightarrow> (\<exists>K rc gl. rt' = fstate (orig S) K rc gl [] [] PHASE_NONE \<and> core S K {} {#} K rc \<and>
     (\<forall>a\<in>K. 0 < rc a) \<and> set gl = K \<inter> set (gc_obj_list rt) \<and> distinct gl)"

lemma phase_resultI:
  "core S K {} {#} K rc \<Longrightarrow> (\<And>a. a \<in> K \<Longrightarrow> 0 < rc a) \<Longrightarrow> set gl = K \<inter> set (gc_obj_list rt) \<Longrightarrow> distinct gl \<Longrightarrow>
     phase_result rt S (fstate (orig S) K rc gl [] [] PHASE_NONE)"
  unfolding phase_result_def by blast

lemma core_begin:
  assumes w: "heap_wf (gc_heap rt) (set (gc_obj_list rt))" and S: "S = reach_view rt (marked (gc_heap rt) rc0 mk) ext"
    and rc: "\<And>a. a \<in> dom (gc_heap rt) \<Longrightarrow> rc a = ext a + refs (gc_heap rt) (dom (gc_heap rt)) a"
    and pos: "\<And>a. a \<in> dom (gc_heap rt) \<Longrightarrow> \<not> js S a \<Longrightarrow> 0 < rc a"
  shows "core S (dom (gc_heap rt)) {} {#} (dom (gc_heap rt)) rc"
proof (rule coreI)
  show "live S \<subseteq> dom (gc_heap rt)" using heap_wfD(2)[OF w] by (auto simp: S)
  show "snd ` set (own (orig S) b) \<subseteq> dom (gc_heap rt)" for b using own_in_dom[OF w] by (auto simp: S)
qed (use heap_wfD(1)[OF w] rc pos in \<open>simp_all add: S pending_add\<close>)

lemma free_value_view:
  assumes wf: "gc_wf rt" and p: "has_kind (gc_heap rt) KValue p" "0 < external_refs (gc_heap rt) p"
  defines "S \<equiv> reach_view rt (gc_heap rt) (ext_without rt p)"
  shows "view_ok S" "gc_heap rt a = Some y \<Longrightarrow> is_running (gc_data y) \<Longrightarrow> 0 < extr S a"
proof -
  have w: "heap_wf (gc_heap rt) (set (gc_obj_list rt))" using wf by (simp add: gc_wf_def)
  have r: "0 < extr S a" if "gc_heap rt a = Some y" "is_running (gc_data y)" for a y
  proof -
    have "kind_of (gc_data y) \<noteq> KValue" using that(2) by (cases "gc_data y") auto
    then have "a \<noteq> p" using p(1) that(1) by (auto simp: has_kind_def)
    then show ?thesis using heap_wfD(9)[OF w that] by (simp add: S_def ext_without_def)
  qed
  then show "gc_heap rt a = Some y \<Longrightarrow> is_running (gc_data y) \<Longrightarrow> 0 < extr S a" .
  show "view_ok S"
    using r external_refs_nonneg[OF w] p(2) gc_wf_marked[OF w]
    by (intro view_ok_reach[OF w, of S "rc_of (gc_heap rt)" "\<lambda>_. False"]) (simp_all add: S_def ext_without_def)
qed

lemma free_value_result:
  assumes wf: "gc_wf rt" and p: "has_kind (gc_heap rt) KValue p" "0 < external_refs (gc_heap rt) p"
  defines "S \<equiv> reach_view rt (gc_heap rt) (ext_without rt p)"
  shows "\<exists>rt'. JS_FreeValueRT rt p = Some rt' \<and> phase_result rt S rt'"
proof -
  let ?h = "gc_heap rt" and ?gl = "gc_obj_list rt"
  have w: "heap_wf ?h (set ?gl)" and d: "distinct ?gl" "gc_zero_ref_count_list rt = []" "tmp_obj_list rt = []" "gc_phase rt = PHASE_NONE"
    using wf by (simp_all add: gc_wf_def)
  note v = free_value_view(1)[OF wf p, folded S_def]
  have h: "orig S = ?h" by (simp add: S_def)
  obtain x where x: "?h p = Some x" using p(1) by (auto simp: has_kind_def)
  define rc where "rc = (rc_of ?h)(p := rc_of ?h p - 1)"
  have pos: "0 < rc_of ?h a" if "a \<in> dom ?h" for a using that heap_wfD(5)[OF w] by (auto simp: rc_of_def)
  have c: "core S (dom ?h) {} {#} (dom ?h) rc"
    using pos p(1) gc_wf_marked[OF w]
    by (intro core_begin[OF w, of S "rc_of ?h" "\<lambda>_. False" "ext_without rt p"])
      (auto simp: S_def ext_without_def rc_def external_refs_def js_def)
  have "rt = fstate ?h (dom ?h) (rc_of ?h) ?gl [] [] PHASE_NONE"
    using d(2-4) by (auto simp: fstate_def fheap_def rc_of_def fun_eq_iff domIff split: option.splits)
  then have dec: "dec_ref rt p = Some (rc p, fstate (orig S) (dom ?h) rc ?gl [] [] PHASE_NONE)"
    using dec_ref_fstate[of p "dom ?h" ?h x "rc_of ?h" ?gl "[]" "[]" PHASE_NONE] x by (auto simp: rc_def h)
  show ?thesis
  proof (cases "rc p = 0")
    case True
    let ?rt1 = "fstate (orig S) (dom ?h) rc (removeAll p ?gl) [p] [] PHASE_DECREF"
    have "inv S PHASE_DECREF (dom ?h) {} {#} ?rt1"
      using d(1) heap_wfD(2)[OF w] pos p(1) x True js_listed[OF v, of p]
      by (intro invI[OF v c]) (auto simp: distinct_removeAll rc_def S_def js_def)
    then obtain W' rt' where f: "free_zero_loop ?rt1 = Some rt'" "inv S PHASE_DECREF W' {} {#} rt'" "gc_zero_ref_count_list rt' = []"
      using free_zero_loop_inv by blast
    obtain rc' gl' where e: "rt' = fstate (orig S) W' rc' gl' [] [] PHASE_DECREF" "core S W' {} {#} W' rc'" "set gl' = W' \<inter> listed S"
        "distinct gl'" "\<And>a. a \<in> W' \<Longrightarrow> 0 < rc' a"
      using decref_end[OF f(2,3)] by blast
    have "JS_FreeValueRT rt p = Some (fstate (orig S) W' rc' gl' [] [] PHASE_NONE)"
      using dec True f(1) e(1) by (simp add: JS_FreeValueRT_def free_value_ptr_def list_unlink_fstate Let_def free_zero_refcount_def)
    then show ?thesis using phase_resultI[OF e(2,5) _ e(4), of rt] e(3) by (auto simp: S_def)
  next
    case False
    then have rc: "0 < rc a" if "a \<in> dom ?h" for a using pos[OF that] by (auto simp: rc_def)
    have "p \<in> dom ?h" using x by blast
    then have "\<not> rc p \<le> 0" using rc[of p] by linarith
    then have "JS_FreeValueRT rt p = Some (fstate (orig S) (dom ?h) rc ?gl [] [] PHASE_NONE)"
      using dec by (simp add: JS_FreeValueRT_def)
    then show ?thesis using phase_resultI[OF c rc _ d(1)] heap_wfD(2)[OF w] by blast
  qed
qed

text \<open>
  C2. Giving up a reference that the program holds to a value keeps the memory management
  well formed: no freed object is reached on the way, every object left has a positive count, the
  count is that of the references to it, and no object that is still reachable from the other
  external references is freed or changed.
\<close>

theorem free_value_correct:
  assumes "gc_wf rt" "has_kind (gc_heap rt) KValue p" "0 < external_refs (gc_heap rt) p"
  shows "\<exists>rt'. JS_FreeValueRT rt p = Some rt' \<and> gc_wf rt' \<and>
    (\<forall>a. gc_heap rt' a \<noteq> None \<longrightarrow> kept rt rt' a \<and> external_refs (gc_heap rt') a = ext_without rt p a) \<and>
    (\<forall>a\<in>set (gc_obj_list rt). reach (gc_heap rt) (ext_without rt p) a \<longrightarrow> kept rt rt' a)"
proof -
  let ?S = "reach_view rt (gc_heap rt) (ext_without rt p)"
  have w: "heap_wf (gc_heap rt) (set (gc_obj_list rt))" using assms(1) by (simp add: gc_wf_def)
  obtain K rc gl where f: "JS_FreeValueRT rt p = Some (fstate (orig ?S) K rc gl [] [] PHASE_NONE)" "core ?S K {} {#} K rc"
      "\<And>a. a \<in> K \<Longrightarrow> 0 < rc a" "set gl = K \<inter> set (gc_obj_list rt)" "distinct gl"
    using free_value_result[OF assms] unfolding phase_result_def by blast
  have o: "orig ?S = marked (gc_heap rt) (rc_of (gc_heap rt)) (\<lambda>_. False)" using gc_wf_marked[OF w] by simp
  note res = wf_result[OF w o reach_view_sel(3) free_value_view(1)[OF assms] f(2) _ free_value_view(2)[OF assms] f(4,5)]
  have "a \<in> K" if "a \<in> set (gc_obj_list rt)" "reach (gc_heap rt) (ext_without rt p) a" for a using that coreD(6)[OF f(2)] by auto
  then show ?thesis using f(1,3) res by auto
qed

section \<open>The collector\<close>

text \<open>
  Objects that are not values and are garbage are freed with the values that refer to them: only
  contexts refer to such objects, and only values refer to contexts.
\<close>

lemma kinds_simps:
  "(k, a) \<in> set (value_refs v) \<Longrightarrow> k = KValue" "(k, a) \<in> set (opt_refs k' p) \<Longrightarrow> k = k'"
  by (auto simp: value_refs_def opt_refs_def)

lemma owned_nonvalue: "(k, a) \<in> set (owned d) \<Longrightarrow> k \<noteq> KValue \<Longrightarrow> kind_of d = KValue \<or> kind_of d = KContext"
  by (cases d) (auto dest: kinds_simps split: if_splits option.splits)

lemma owned_context: "(KContext, a) \<in> set (owned d) \<Longrightarrow> kind_of d = KValue"
  by (cases d) (auto simp: module_refs_def dest: kinds_simps split: if_splits option.splits)

lemma refs_owner:
  assumes "0 < refs h bs a"
  shows "\<exists>b\<in>bs. a \<in> snd ` set (own h b)"
proof (rule ccontr)
  assume "\<not> ?thesis"
  then have "count_list (map snd (own h b)) a = 0" if "b \<in> bs" for b using that by (simp add: count_list_0_iff)
  then show False using assms by (simp add: refs_def)
qed

lemma remove_end:
  assumes i: "inv S PHASE_REMOVE_CYCLES W {} {#} rt" and t: "tmp_obj_list rt = []"
    and g: "\<forall>a\<in>listed S - live S. extr S a = 0"
    and cl: "\<forall>b\<in>live S. snd ` set (own (orig S) b) \<inter> listed S \<subseteq> live S"
  shows "a \<in> set (gc_zero_ref_count_list rt) \<Longrightarrow> js S a"
proof -
  obtain A rc gl zl where v: "view_ok S" and rt: "rt = fstate (orig S) A rc gl zl [] PHASE_REMOVE_CYCLES"
      and c: "core S W {} {#} A rc" and l: "links S PHASE_REMOVE_CYCLES W {} A rc gl zl []"
    using i t by (auto simp: inv_def)
  have owner: "\<exists>b x k. b \<in> set zl \<and> \<not> js S b \<and> orig S b = Some x \<and> (k, a) \<in> set (owned (gc_data x))" if a: "a \<in> set zl" "\<not> js S a" for a
  proof -
    have A: "a \<in> A" "a \<in> listed S" "a \<notin> live S" using l a(1) by auto
    then have "0 < refs (orig S) W a" using coreD(10,11)[OF c A(1)] a(2) g A(2,3) by (simp add: pending_add)
    then obtain b where b: "b \<in> W" "a \<in> snd ` set (own (orig S) b)" using refs_owner by blast
    obtain x where x: "orig S b = Some x" "a \<in> snd ` set (owned (gc_data x))" using b(2) by (cases "orig S b") (simp_all add: own_def)
    have "\<not> on_stack (gc_data x)" using x(2) by (cases "gc_data x") auto
    then have "b \<in> listed S" using view_okD(6)[OF v x(1)] by simp
    moreover have "b \<notin> live S" using cl b(2) A(2,3) by blast
    ultimately have "b \<in> set zl" using l b(1) coreD(3)[OF c] by auto
    moreover have "\<not> js S b" using l calculation b(1) by auto
    ultimately show ?thesis using x by force
  qed
  have kind: "kind_of (gc_data x) \<noteq> KValue" if "\<not> js S a" "orig S a = Some x" for a x using that by (simp add: js_def has_kind_def)
  have key: "has_kind (orig S) k a" if "orig S b = Some x" "(k, a) \<in> set (owned (gc_data x))" for a b k x
    using view_okD(1)[OF v, of k a b] that by (simp add: own_def)
  show "js S a" if a: "a \<in> set (gc_zero_ref_count_list rt)"
  proof (rule ccontr)
    assume na: "\<not> js S a"
    obtain b x k where b: "b \<in> set zl" "\<not> js S b" "orig S b = Some x" "(k, a) \<in> set (owned (gc_data x))"
      using owner[of a] a na by (auto simp: rt)
    have "k \<noteq> KValue" using key[OF b(3,4)] na by (auto simp: js_def)
    then have bc: "kind_of (gc_data x) = KContext" using owned_nonvalue[OF b(4)] kind[OF b(2,3)] by blast
    obtain c y k' where c: "c \<in> set zl" "\<not> js S c" "orig S c = Some y" "(k', b) \<in> set (owned (gc_data y))"
      using owner[OF b(1,2)] by blast
    have "k' = KContext" using key[OF c(3,4)] b(3) bc by (auto simp: has_kind_def)
    then show False using owned_context c(4) kind[OF c(2,3)] by blast
  qed
qed

lemma fold_zombies:
  "distinct zs \<Longrightarrow> set zs \<subseteq> A \<Longrightarrow> (\<And>a. a \<in> set zs \<Longrightarrow> has_kind h KValue a) \<Longrightarrow>
     fold_opt gc_free_zombie zs (fstate h A rc gl zl tmp ph) = Some (fstate h (A - set zs) rc gl zl tmp ph)"
proof (induction zs arbitrary: A)
  case (Cons a zs)
  obtain x where x: "h a = Some x" "kind_of (gc_data x) = KValue" using Cons.prems(3)[of a] by (auto simp: has_kind_def)
  then have "is_js_value (gc_data x)" by (cases "gc_data x") (simp_all add: is_js_value_def)
  then have "gc_free_zombie (fstate h A rc gl zl tmp ph) a = Some (fstate h (A - {a}) rc gl zl tmp ph)"
    using x(1) Cons.prems(2) by (simp add: gc_free_zombie_def fheap_at js_free_rt_fstate)
  moreover have "A - {a} - set zs = A - insert a (set zs)" by auto
  ultimately show ?case using Cons.IH[of "A - {a}"] Cons.prems by auto
qed simp

lemma core_survivors:
  assumes v: "view_ok S" and c: "core S W {} {#} A rc" and l: "links S PHASE_REMOVE_CYCLES W {} A rc gl zl []"
    and cl: "\<forall>b\<in>live S. snd ` set (own (orig S) b) \<inter> listed S \<subseteq> live S"
    and K: "W = A - set zl"
  shows "core S W {} {#} W rc"
proof (rule coreI)
  show "snd ` set (own (orig S) b) \<subseteq> W" if b: "b \<in> W" for b
  proof -
    have "a \<notin> set zl" if "a \<in> snd ` set (own (orig S) b)" for a
    proof
      assume z: "a \<in> set zl"
      then have a: "a \<in> listed S" "a \<notin> live S" using l by auto
      have "own (orig S) b \<noteq> []" using that by auto
      then obtain x where x: "orig S b = Some x" "owned (gc_data x) \<noteq> []" by (auto simp: own_def split: option.splits)
      have "\<not> on_stack (gc_data x)" using x(2) by (cases "gc_data x") (auto split: if_splits)
      then have "b \<in> listed S" using view_okD(6)[OF v x(1)] by blast
      then have "b \<in> live S" using l b K by auto
      then show False using cl that a by blast
    qed
    then show ?thesis using coreD(7)[OF c b] K by blast
  qed
qed (use coreD(1,2,6,10,11)[OF c] K in \<open>auto simp: pending_add\<close>)

lemma gc_free_cycles_result:
  assumes i: "inv S PHASE_REMOVE_CYCLES W {} {#} (rt\<lparr>gc_phase := PHASE_REMOVE_CYCLES\<rparr>)"
    and g: "\<forall>a\<in>listed S - live S. extr S a = 0"
    and cl: "\<forall>b\<in>live S. snd ` set (own (orig S) b) \<inter> listed S \<subseteq> live S"
  shows "\<exists>K rc gl. gc_free_cycles rt = Some (fstate (orig S) K rc gl [] [] PHASE_NONE) \<and> core S K {} {#} K rc \<and> (\<forall>a\<in>K. 0 < rc a) \<and>
    set gl = K \<inter> listed S \<and> distinct gl \<and> K \<inter> listed S = live S"
proof -
  obtain W' rt1 where f: "gc_free_loop (rt\<lparr>gc_phase := PHASE_REMOVE_CYCLES\<rparr>) = Some rt1" "inv S PHASE_REMOVE_CYCLES W' {} {#} rt1" "tmp_obj_list rt1 = []"
    using gc_free_loop_inv[OF i] by blast
  obtain A rc gl zl where v: "view_ok S" and rt: "rt1 = fstate (orig S) A rc gl zl [] PHASE_REMOVE_CYCLES"
      and c: "core S W' {} {#} A rc" and l: "links S PHASE_REMOVE_CYCLES W' {} A rc gl zl []"
    using f(2,3) by (auto simp: inv_def)
  have js: "js S a" if z: "a \<in> set zl" for a
    by (rule remove_end[OF f(2,3) g cl]) (simp add: rt z)
  let ?K = "A - set zl"
  have K: "W' = ?K"
  proof (intro equalityI subsetI)
    show "a \<in> ?K" if "a \<in> W'" for a using that coreD(3)[OF c] l js by auto
    show "a \<in> W'" if a: "a \<in> ?K" for a
    proof (cases "js S a")
      case True
      then have "a \<in> live S" using l a js_listed[OF v True] by auto
      then show ?thesis using coreD(6)[OF c] by blast
    qed (use coreD(11)[OF c, of a] a in auto)
  qed
  have c': "core S ?K {} {#} ?K rc" using core_survivors[OF v c l cl K] unfolding K .
  have "0 < rc a" if "a \<in> ?K" for a
  proof (cases "js S a")
    case True
    then have "a \<in> live S" using l that js_listed[OF v True] by auto
    then show ?thesis by (rule core_live_pos[OF v c])
  qed (use coreD(11)[OF c, of a] that in auto)
  moreover have "?K \<inter> listed S = live S" using l coreD(6)[OF c'] view_okD(3)[OF v] by auto
  moreover have "gc_free_cycles rt = Some (fstate (orig S) ?K rc gl [] [] PHASE_NONE)"
  proof -
    have "distinct zl" "set zl \<subseteq> A" using l by auto
    then have "fold_opt gc_free_zombie zl (fstate (orig S) A rc gl zl [] PHASE_NONE) = Some (fstate (orig S) ?K rc gl zl [] PHASE_NONE)"
      using js by (intro fold_zombies) (auto simp: js_def)
    then show ?thesis using f(1) by (simp add: gc_free_cycles_def rt Let_def)
  qed
  ultimately show ?thesis using c' l by (intro exI[of _ ?K] exI[of _ rc] exI[of _ gl]) simp
qed

lemma fheap_marked: "fheap (marked h rc mk) (dom h) rc = marked h rc mk"
  by (auto simp: fheap_def marked_def fun_eq_iff domIff split: option.splits)

lemma fheap_None: "a \<notin> A \<Longrightarrow> fheap h A rc a = None"
  by (simp add: fheap_def)

lemma run_gc_view:
  assumes wf: "gc_wf rt" and s: "gc_split rt rt2"
  defines "S \<equiv> reach_view rt (gc_heap rt2) (external_refs (gc_heap rt))"
  shows "view_ok S" "inv S PHASE_REMOVE_CYCLES (dom (gc_heap rt)) {} {#} (rt2\<lparr>gc_phase := PHASE_REMOVE_CYCLES\<rparr>)"
    "orig S = marked (gc_heap rt) (rc_of (gc_heap rt)) (\<lambda>a. a \<in> set (tmp_obj_list rt2))" "set (tmp_obj_list rt2) = listed S - live S"
proof -
  let ?h = "gc_heap rt" and ?gl = "gc_obj_list rt"
  have w: "heap_wf ?h (set ?gl)" using wf by (simp add: gc_wf_def)
  show o: "orig S = marked ?h (rc_of ?h) (\<lambda>a. a \<in> set (tmp_obj_list rt2))" using s by (simp add: S_def gc_split_def)
  show t: "set (tmp_obj_list rt2) = listed S - live S" using s reach_listed[OF wf] by (auto simp: S_def gc_split_def)
  have g: "set (gc_obj_list rt2) = live S" using s reach_listed[OF wf] by (auto simp: S_def gc_split_def)
  show v: "view_ok S"
    using o external_refs_nonneg[OF w] heap_wfD(9)[OF w] by (intro view_ok_reach[OF w o]) (simp_all add: S_def)
  have c: "core S (dom ?h) {} {#} (dom ?h) (rc_of ?h)"
    using heap_wfD(5)[OF w] o
    by (intro core_begin[OF w, of S "rc_of ?h" "\<lambda>a. a \<in> set (tmp_obj_list rt2)" "external_refs ?h"])
      (auto simp: S_def external_refs_def rc_of_def)
  have "rt2\<lparr>gc_phase := PHASE_REMOVE_CYCLES\<rparr> = fstate (orig S) (dom ?h) (rc_of ?h) (gc_obj_list rt2) [] (tmp_obj_list rt2) PHASE_REMOVE_CYCLES"
    using s fheap_marked[of ?h "rc_of ?h" "\<lambda>a. a \<in> set (tmp_obj_list rt2)"] by (cases rt2) (simp add: gc_split_def fstate_def o)
  moreover have "links S PHASE_REMOVE_CYCLES (dom ?h) {} (dom ?h) (rc_of ?h) (gc_obj_list rt2) [] (tmp_obj_list rt2)"
    using s g t heap_wfD(2)[OF w] by (auto simp: gc_split_def S_def)
  ultimately show "inv S PHASE_REMOVE_CYCLES (dom ?h) {} {#} (rt2\<lparr>gc_phase := PHASE_REMOVE_CYCLES\<rparr>)" using invI[OF v c] by simp
qed

text \<open>
  C1. Running the collector on a well-formed heap ends without touching freed memory or failing
  an assertion. Of the objects it manages, it frees exactly those that cannot be reached
  from an external reference, cycles included; the others keep their contents, and the heap is
  well formed again with the same external references.
\<close>

theorem run_gc_correct:
  assumes "gc_wf rt"
  shows "\<exists>rt'. JS_RunGC rt = Some rt' \<and> gc_wf rt' \<and>
    (\<forall>a. gc_heap rt' a \<noteq> None \<longrightarrow> kept rt rt' a \<and> external_refs (gc_heap rt') a = external_refs (gc_heap rt) a) \<and>
    (\<forall>a\<in>set (gc_obj_list rt).
      if reach (gc_heap rt) (external_refs (gc_heap rt)) a then kept rt rt' a else gc_heap rt' a = None)"
proof -
  have w: "heap_wf (gc_heap rt) (set (gc_obj_list rt))" using assms by (simp add: gc_wf_def)
  obtain rt1 rt2 where m: "gc_decref rt = Some rt1" "gc_scan rt1 = Some rt2" "gc_split rt rt2"
    using gc_marks[OF gc_wf_ready[OF assms]] by blast
  define S where "S = reach_view rt (gc_heap rt2) (external_refs (gc_heap rt))"
  note view = run_gc_view[OF assms m(3), folded S_def]
  have g: "\<forall>a\<in>listed S - live S. extr S a = 0"
    using external_refs_nonneg[OF w] by (auto simp: S_def less_le intro: reach.root)
  have "own (orig S) = own (gc_heap rt)" using view(3) by simp
  then have cl: "\<forall>b\<in>live S. snd ` set (own (orig S) b) \<inter> listed S \<subseteq> live S"
    by (auto simp: S_def intro: reach.step)
  obtain K rc gl where f: "gc_free_cycles rt2 = Some (fstate (orig S) K rc gl [] [] PHASE_NONE)" "core S K {} {#} K rc"
      "\<And>a. a \<in> K \<Longrightarrow> 0 < rc a" "set gl = K \<inter> listed S" "distinct gl" "K \<inter> listed S = live S"
    using gc_free_cycles_result[OF view(2) g cl] by blast
  have K: "a \<notin> set (tmp_obj_list rt2) \<and> 0 < rc a" if "a \<in> K" for a using that f(3,6) view(4) by blast
  have L: "listed S = set (gc_obj_list rt)" and r: "\<And>a x. gc_heap rt a = Some x \<Longrightarrow> is_running (gc_data x) \<Longrightarrow> 0 < extr S a"
    using heap_wfD(9)[OF w] by (simp_all add: S_def)
  note res = wf_result[OF w view(3) L view(1) f(2) K r f(4)[unfolded L] f(5)]
  have "JS_RunGC rt = Some (fstate (orig S) K rc gl [] [] PHASE_NONE)" using m f(1) by (simp add: JS_RunGC_def)
  moreover have "reach (gc_heap rt) (external_refs (gc_heap rt)) a \<longleftrightarrow> a \<in> K" if "a \<in> set (gc_obj_list rt)" for a
    using that f(6) by (auto simp: S_def)
  ultimately show ?thesis using res by (auto simp: S_def fheap_None)
qed

section \<open>An example\<close>

text \<open>Two objects that refer to each other, a third one held from outside, and their shape.\<close>

definition example_gc :: gc_runtime where
  "example_gc = \<lparr>gc_heap = [0 \<mapsto> \<lparr>ref_count = 3, gc_mark = False, gc_data = SHAPE None\<rparr>,
       1 \<mapsto> \<lparr>ref_count = 1, gc_mark = False, gc_data = JS_OBJECT 0 [(True, PValue (Obj 2))] NoData\<rparr>,
       2 \<mapsto> \<lparr>ref_count = 1, gc_mark = False, gc_data = JS_OBJECT 0 [] (ArrayData [Plain, Obj 1])\<rparr>,
       3 \<mapsto> \<lparr>ref_count = 1, gc_mark = False, gc_data = JS_OBJECT 0 [(False, PValue Plain)] NoData\<rparr>],
     gc_obj_list = [0, 1, 2, 3], gc_zero_ref_count_list = [], tmp_obj_list = [], gc_phase = PHASE_NONE\<rparr>"

lemma example_dom: "dom (gc_heap example_gc) = {0, 1, 2, 3}"
  by (auto simp: example_gc_def)

lemma example_own:
  "own (gc_heap example_gc) b = (if b = 1 then [(KShape, 0), (KValue, 2)] else if b = 2 then [(KShape, 0), (KValue, 1)]
     else if b = 3 then [(KShape, 0)] else [])"
  by (simp add: example_gc_def own_def value_refs_def opt_refs_def)

lemma example_external: "external_refs (gc_heap example_gc) a = (if a = 3 then 1 else 0)"
  unfolding external_refs_def refs_def example_dom example_own by (simp add: rc_of_def example_gc_def)

lemma example_gc_wf: "gc_wf example_gc"
proof -
  have "heap_wf (gc_heap example_gc) {0, 1, 2, 3}"
    unfolding heap_wf_def example_dom example_own example_external
    by (auto simp: example_gc_def has_kind_def split: if_splits)
  then show ?thesis by (simp add: gc_wf_def) (simp add: example_gc_def)
qed

theorem run_gc_correct_witness:
  "\<exists>rt'. JS_RunGC example_gc = Some rt' \<and> gc_wf rt' \<and>
    (\<forall>a. gc_heap rt' a \<noteq> None \<longrightarrow> kept example_gc rt' a \<and> external_refs (gc_heap rt') a = external_refs (gc_heap example_gc) a) \<and>
    (\<forall>a\<in>set (gc_obj_list example_gc).
      if reach (gc_heap example_gc) (external_refs (gc_heap example_gc)) a then kept example_gc rt' a else gc_heap rt' a = None)"
  by (rule run_gc_correct) (rule example_gc_wf)

theorem free_value_correct_witness:
  "\<exists>rt'. JS_FreeValueRT example_gc 3 = Some rt' \<and> gc_wf rt' \<and>
    (\<forall>a. gc_heap rt' a \<noteq> None \<longrightarrow> kept example_gc rt' a \<and> external_refs (gc_heap rt') a = ext_without example_gc 3 a) \<and>
    (\<forall>a\<in>set (gc_obj_list example_gc). reach (gc_heap example_gc) (ext_without example_gc 3) a \<longrightarrow> kept example_gc rt' a)"
  by (rule free_value_correct) (simp_all add: example_gc_wf example_external, simp add: has_kind_def example_gc_def)

end
