(* ===== verification/Bf_Limbs.thy ===== *)
theory Bf_Limbs
  imports Qjs_Prelude
begin

text \<open>
  The arithmetic of \<^verbatim>\<open>libbf.c\<close> on arrays of 64-bit limbs, least significant first: addition,
  subtraction, shift, and the schoolbook multiplication. The arrays of one operation are
  lists of the limbs it visits; regions of larger arrays are taken and stored with bounds checks.
\<close>

type_synonym limb = u64
type_synonym dlimb = u128

section \<open>Operations\<close>

text \<open>The sums and carries of \<^verbatim>\<open>op1[i] + op2[i]\<close>; the result may be one of the operands.\<close>

fun mp_add :: "limb list \<Rightarrow> limb list \<Rightarrow> limb \<Rightarrow> limb list \<times> limb" where
  "mp_add (v # op1) (w # op2) k =
     (let a = v + w; k1 = of_bool (a < v); a = a + k; k = of_bool (a < k) OR k1; (res, c) = mp_add op1 op2 k in (a # res, c))"
| "mp_add _ _ k = ([], k)"

fun mp_add_ui :: "limb list \<Rightarrow> limb \<Rightarrow> limb list \<times> limb" where
  "mp_add_ui [] k = ([], k)"
| "mp_add_ui (x # xs) k =
     (if k = 0 then (x # xs, k) else let a = x + k; (res, c) = mp_add_ui xs (of_bool (a < k)) in (a # res, c))"

fun mp_sub :: "limb list \<Rightarrow> limb list \<Rightarrow> limb \<Rightarrow> limb list \<times> limb" where
  "mp_sub (v # op1) (w # op2) k =
     (let a = v - w; k1 = of_bool (a > v); v = a - k; k = of_bool (v > a) OR k1; (res, c) = mp_sub op1 op2 k in (v # res, c))"
| "mp_sub _ _ k = ([], k)"

fun mp_neg :: "limb list \<Rightarrow> limb \<Rightarrow> limb list \<times> limb" where
  "mp_neg (w # op2) k =
     (let v = 0; a = v - w; k1 = of_bool (a > v); v = a - k; k = of_bool (v > a) OR k1; (res, c) = mp_neg op2 k in (v # res, c))"
| "mp_neg [] k = ([], k)"

fun mp_sub_ui :: "limb list \<Rightarrow> limb \<Rightarrow> limb list \<times> limb" where
  "mp_sub_ui [] k = ([], k)"
| "mp_sub_ui (v # xs) k =
     (let a = v - k in if a > v then (let (res, c) = mp_sub_ui xs 1 in (a # res, c)) else (a # xs, 0))"

text \<open>The loop of \<^verbatim>\<open>mp_shr\<close> goes from the most significant limb down.\<close>

fun shr_loop :: "nat \<Rightarrow> limb \<Rightarrow> limb list \<Rightarrow> limb list \<times> limb" where
  "shr_loop shift l [] = ([], l)"
| "shr_loop shift l (a # tab) =
     (let (res, m) = shr_loop shift a tab in ((drop_bit shift a OR push_bit (64 - shift) l) # res, m))"

definition mp_shr :: "limb list \<Rightarrow> nat \<Rightarrow> limb \<Rightarrow> (limb list \<times> limb) option" where
  "mp_shr tab shift high =
     (if 1 \<le> shift \<and> shift < 64
      then (let (res, l) = shr_loop shift high (rev tab) in Some (rev res, l AND (push_bit shift 1 - 1)))
      else None)"

fun mp_mul1 :: "limb list \<Rightarrow> limb \<Rightarrow> limb \<Rightarrow> limb list \<times> limb" where
  "mp_mul1 [] b l = ([], l)"
| "mp_mul1 (x # taba) b l =
     (let t = ucast x * ucast b + ucast l :: dlimb; (res, c) = mp_mul1 taba b (ucast (drop_bit 64 t)) in (ucast t # res, c))"

fun add_mul1_loop :: "limb list \<Rightarrow> limb list \<Rightarrow> limb \<Rightarrow> limb \<Rightarrow> limb list \<times> limb" where
  "add_mul1_loop (r # tabr) (x # taba) b l =
     (let t = ucast x * ucast b + ucast l + ucast r :: dlimb; (res, c) = add_mul1_loop tabr taba b (ucast (drop_bit 64 t))
      in (ucast t # res, c))"
| "add_mul1_loop _ _ b l = ([], l)"

definition mp_add_mul1 :: "limb list \<Rightarrow> limb list \<Rightarrow> limb \<Rightarrow> limb list \<times> limb" where
  "mp_add_mul1 tabr taba b = add_mul1_loop tabr taba b 0"

fun sub_mul1_loop :: "limb list \<Rightarrow> limb list \<Rightarrow> limb \<Rightarrow> limb \<Rightarrow> limb list \<times> limb" where
  "sub_mul1_loop (r # tabr) (x # taba) b l =
     (let t = ucast r - ucast x * ucast b - ucast l :: dlimb; (res, c) = sub_mul1_loop tabr taba b (- ucast (drop_bit 64 t))
      in (ucast t # res, c))"
| "sub_mul1_loop _ _ b l = ([], l)"

definition mp_sub_mul1 :: "limb list \<Rightarrow> limb list \<Rightarrow> limb \<Rightarrow> limb list \<times> limb" where
  "mp_sub_mul1 tabr taba b = sub_mul1_loop tabr taba b 0"

text \<open>The limbs \<^verbatim>\<open>tab[off .. off + n - 1]\<close>.\<close>

definition region :: "limb list \<Rightarrow> nat \<Rightarrow> nat \<Rightarrow> limb list option" where
  "region tab off n = (if off + n \<le> length tab then Some (slice off n tab) else None)"

text \<open>The rows of the multiplication from the second on.\<close>

fun mul_rows :: "limb list \<Rightarrow> limb list \<Rightarrow> limb list \<Rightarrow> nat \<Rightarrow> limb list option" where
  "mul_rows result op1 [] i = Some result"
| "mul_rows result op1 (b # op2) i = do {
     row \<leftarrow> region result i (length op1);
     let (row, r) = mp_add_mul1 row op1 b;
     result \<leftarrow> memcpy_at result i row;
     result \<leftarrow> wr result (i + length op1) r;
     mul_rows result op1 op2 (i + 1) }"

definition mp_mul_basecase :: "limb list \<Rightarrow> limb list \<Rightarrow> limb list \<Rightarrow> limb list option" where
  "mp_mul_basecase result op1 op2 = do {
     b \<leftarrow> rd op2 0;
     let (row, l) = mp_mul1 op1 b 0;
     result \<leftarrow> memcpy_at result 0 row;
     result \<leftarrow> wr result (length op1) l;
     mul_rows result op1 (tl op2) 1 }"

fun mp_scan_nz :: "limb list \<Rightarrow> bool" where
  "mp_scan_nz [] = False"
| "mp_scan_nz (x # tab) = (if x \<noteq> 0 then True else mp_scan_nz tab)"

text \<open>The comparison goes from the most significant limb down.\<close>

fun cmp_loop :: "limb list \<Rightarrow> limb list \<Rightarrow> int" where
  "cmp_loop (x # taba) (y # tabb) = (if x \<noteq> y then (if x < y then -1 else 1) else cmp_loop taba tabb)"
| "cmp_loop _ _ = 0"

definition mp_cmp :: "limb list \<Rightarrow> limb list \<Rightarrow> int" where
  "mp_cmp taba tabb = cmp_loop (rev taba) (rev tabb)"

section \<open>Values\<close>

definition BB :: int where
  "BB = 2 ^ 64"

fun lval :: "limb list \<Rightarrow> int" where
  "lval [] = 0"
| "lval (x # xs) = uint x + BB * lval xs"

lemma BB_pos [simp]: "0 < BB" "0 \<le> BB" "BB \<noteq> 0"
  by (simp_all add: BB_def)

lemma limb_bounds: "0 \<le> uint (x :: limb)" "uint (x :: limb) < BB" "uint (x :: limb) \<le> BB - 1"
  using uint_lt2p[of x] by (simp_all add: BB_def)

lemma lval_append: "lval (xs @ ys) = lval xs + BB ^ length xs * lval ys"
  by (induction xs) (simp_all add: algebra_simps)

lemma lval_nonneg: "0 \<le> lval xs"
  by (induction xs) simp_all

lemma lval_less: "lval xs < BB ^ length xs"
proof (induction xs)
  case (Cons x xs)
  then have "BB * (lval xs + 1) \<le> BB * BB ^ length xs" by (intro mult_left_mono) simp_all
  then show ?case using limb_bounds(2)[of x] by (simp add: algebra_simps)
qed simp

lemma lval_snoc: "lval (xs @ [x]) = lval xs + BB ^ length xs * uint x"
  by (simp add: lval_append)

lemma lval_replicate_0: "lval (replicate n 0) = 0"
  by (induction n) simp_all

section \<open>Addition and subtraction\<close>

text \<open>The word-level facts: a sum wrapped iff it is smaller than an operand.\<close>

lemma limb_add: "uint (v + w :: limb) + BB * of_bool (v + w < v) = uint v + uint w"
  using limb_bounds[of v] limb_bounds[of w] by (auto simp: word_less_def uint_plus_if' BB_def)

lemma limb_sub: "uint (v - w :: limb) - BB * of_bool (v - w > v) = uint v - uint w"
  using limb_bounds[of v] limb_bounds[of w] by (auto simp: word_less_def uint_sub_if' BB_def)

lemma of_bool_or: "(of_bool p OR of_bool q :: limb) = of_bool (p \<or> q)"
  by (cases p; cases q) simp_all

lemma uint_of_bool: "uint (of_bool p :: limb) = of_bool p"
  by (cases p) simp_all

lemma carry_step:
  fixes v w k :: limb
  assumes "uint k \<le> 1"
  shows "uint (v + w + k) + BB * of_bool (v + w + k < k \<or> v + w < v) = uint v + uint w + uint k"
proof -
  have c: "uint (v + w + k) + BB * of_bool (v + w + k < k) = uint (v + w) + uint k"
    using limb_add[of k "v + w"] by (simp add: add.commute)
  have "\<not> (v + w + k < k \<and> v + w < v)"
  proof
    assume h: "v + w + k < k \<and> v + w < v"
    then have "uint (v + w) + BB = uint v + uint w" using limb_add[of v w] by simp
    moreover have "uint (v + w + k) + BB = uint (v + w) + uint k" using c h by simp
    ultimately show False using limb_bounds[of v] limb_bounds[of w] limb_bounds(1)[of "v + w + k"] assms by linarith
  qed
  then show ?thesis using c limb_add[of v w] by (cases "v + w + k < k"; cases "v + w < v") simp_all
qed

lemma mp_add_val:
  "length a = length b \<Longrightarrow> uint k \<le> 1 \<Longrightarrow> mp_add a b k = (r, c) \<Longrightarrow>
     length r = length a \<and> lval r + BB ^ length a * uint c = lval a + lval b + uint k \<and> uint c \<le> 1"
proof (induction a b k arbitrary: r c rule: mp_add.induct)
  case (1 v a w b k)
  let ?k = "of_bool (v + w + k < k \<or> v + w < v) :: limb"
  obtain r' c' where m: "mp_add a b ?k = (r', c')" by fastforce
  then have rc: "r = (v + w + k) # r'" "c = c'" using "1.prems"(3) by (simp_all add: Let_def of_bool_or)
  have IH: "length r' = length a" "lval r' + BB ^ length a * uint c' = lval a + lval b + uint ?k" "uint c' \<le> 1"
    using "1.IH"[of "v + w" "of_bool (v + w < v)" "v + w + k" ?k r' c'] m "1.prems"(1) by (simp_all add: of_bool_or uint_of_bool)
  have "lval r + BB ^ length (v # a) * uint c = uint (v + w + k) + BB * (lval r' + BB ^ length a * uint c')"
    by (simp add: rc algebra_simps)
  also have "\<dots> = uint (v + w + k) + BB * of_bool (v + w + k < k \<or> v + w < v) + BB * lval a + BB * lval b"
    unfolding IH(2) uint_of_bool by (simp only: distrib_left add.assoc add.left_commute add.commute)
  finally show ?case using carry_step[OF "1.prems"(2), of v w] IH rc by (simp add: algebra_simps)
qed auto

lemma mp_add_ui_val:
  "mp_add_ui xs k = (r, c) \<Longrightarrow> length r = length xs \<and> lval r + BB ^ length xs * uint c = lval xs + uint k"
proof (induction xs k arbitrary: r c rule: mp_add_ui.induct)
  case (2 x xs k)
  show ?case
  proof (cases "k = 0")
    case False
    obtain r' c' where m: "mp_add_ui xs (of_bool (x + k < k)) = (r', c')" by fastforce
    then have rc: "r = (x + k) # r'" "c = c'" using "2.prems" False by (simp_all add: Let_def)
    have IH: "length r' = length xs" "lval r' + BB ^ length xs * uint c' = lval xs + uint (of_bool (x + k < k) :: limb)"
      using "2.IH"[OF False refl m] by simp_all
    have "lval r + BB ^ length (x # xs) * uint c = uint (x + k) + BB * (lval r' + BB ^ length xs * uint c')"
      by (simp add: rc algebra_simps)
    also have "\<dots> = uint (x + k) + BB * of_bool (x + k < k) + BB * lval xs"
      unfolding IH(2) uint_of_bool by (simp only: distrib_left add.assoc add.left_commute add.commute)
    finally show ?thesis using limb_add[of k x] IH(1) by (simp add: rc add.commute)
  qed (use "2.prems" in auto)
qed auto

lemma borrow_step:
  fixes v w k :: limb
  assumes "uint k \<le> 1"
  shows "uint (v - w - k) - BB * of_bool (v - w - k > v - w \<or> v - w > v) = uint v - uint w - uint k"
proof -
  have c: "uint (v - w - k) - BB * of_bool (v - w - k > v - w) = uint (v - w) - uint k" by (rule limb_sub)
  have "\<not> (v - w - k > v - w \<and> v - w > v)"
  proof
    assume h: "v - w - k > v - w \<and> v - w > v"
    then have "uint (v - w) - BB = uint v - uint w" using limb_sub[of v w] by simp
    moreover have "uint (v - w - k) - BB = uint (v - w) - uint k" using c h by simp
    ultimately show False using limb_bounds[of v] limb_bounds[of w] limb_bounds(2)[of "v - w - k"] assms by linarith
  qed
  then show ?thesis using c limb_sub[of v w] by (cases "v - w - k > v - w"; cases "v - w > v") simp_all
qed

lemma mp_sub_val:
  "length a = length b \<Longrightarrow> uint k \<le> 1 \<Longrightarrow> mp_sub a b k = (r, c) \<Longrightarrow>
     length r = length a \<and> lval r - BB ^ length a * uint c = lval a - lval b - uint k \<and> uint c \<le> 1"
proof (induction a b k arbitrary: r c rule: mp_sub.induct)
  case (1 v a w b k)
  let ?k = "of_bool (v - w - k > v - w \<or> v - w > v) :: limb"
  obtain r' c' where m: "mp_sub a b ?k = (r', c')" by fastforce
  then have rc: "r = (v - w - k) # r'" "c = c'" using "1.prems"(3) by (simp_all add: Let_def of_bool_or)
  have IH: "length r' = length a" "lval r' - BB ^ length a * uint c' = lval a - lval b - uint ?k" "uint c' \<le> 1"
    using "1.IH"[of "v - w" "of_bool (v - w > v)" "v - w - k" ?k r' c'] m "1.prems"(1) by (simp_all add: of_bool_or uint_of_bool)
  have "lval r - BB ^ length (v # a) * uint c = uint (v - w - k) + BB * (lval r' - BB ^ length a * uint c')"
    by (simp add: rc algebra_simps)
  also have "\<dots> = uint (v - w - k) - BB * of_bool (v - w - k > v - w \<or> v - w > v) + BB * lval a - BB * lval b"
    unfolding IH(2) uint_of_bool by (simp only: right_diff_distrib)
  finally show ?case using borrow_step[OF "1.prems"(2), of v w] IH rc by (simp add: algebra_simps)
qed auto

lemma mp_neg_eq: "mp_neg b k = mp_sub (replicate (length b) 0) b k"
  by (induction b arbitrary: k) (simp_all add: Let_def)

lemma mp_sub_ui_val:
  "xs \<noteq> [] \<or> uint k \<le> 1 \<Longrightarrow> mp_sub_ui xs k = (r, c) \<Longrightarrow> length r = length xs \<and> lval r - BB ^ length xs * uint c = lval xs - uint k"
proof (induction xs k arbitrary: r c rule: mp_sub_ui.induct)
  case (2 v xs k)
  show ?case
  proof (cases "v - k > v")
    case True
    obtain r' c' where m: "mp_sub_ui xs 1 = (r', c')" by fastforce
    then have rc: "r = (v - k) # r'" "c = c'" using "2.prems" True by (simp_all add: Let_def)
    have IH: "length r' = length xs" "lval r' - BB ^ length xs * uint c' = lval xs - 1"
      using "2.IH"[OF refl True _ m] by simp_all
    have "lval r - BB ^ length (v # xs) * uint c = uint (v - k) + BB * (lval r' - BB ^ length xs * uint c')"
      by (simp add: rc algebra_simps)
    then show ?thesis unfolding IH(2) using limb_sub[of v k] True IH(1) by (simp add: rc right_diff_distrib)
  next
    case False
    then show ?thesis using "2.prems" limb_sub[of v k] by (auto simp: Let_def)
  qed
qed auto

section \<open>Multiplication by a limb\<close>

lemma uint_dlimb: "uint (ucast (x :: limb) :: dlimb) = uint x"
  by (simp add: unsigned_ucast_eq take_bit_int_eq_self_iff) (use uint_lt2p[of x] in simp)

lemma dlimb_low: "uint (ucast (t :: dlimb) :: limb) = uint t mod BB"
  by (simp add: unsigned_ucast_eq take_bit_eq_mod BB_def)

lemma dlimb_high: "uint (ucast (drop_bit 64 (t :: dlimb)) :: limb) = uint t div BB"
proof -
  have "uint t div 2 ^ 64 < 2 ^ 64" using uint_lt2p[of t] by (simp add: div_less_iff_less_mult)
  moreover have "0 \<le> uint t div 2 ^ 64" by (simp add: pos_imp_zdiv_nonneg_iff)
  moreover have "uint (drop_bit 64 t) = uint t div 2 ^ 64" by (simp only: uint_nat unat_drop_bit_div zdiv_int of_nat_power of_nat_numeral)
  ultimately show ?thesis unfolding unsigned_ucast_eq by (simp only: BB_def) (simp add: take_bit_int_eq_self)
qed

lemma dlimb_split: "uint (ucast (t :: dlimb) :: limb) + BB * uint (ucast (drop_bit 64 t) :: limb) = uint t"
  unfolding dlimb_high dlimb_low[of t] by (rule mod_mult_div_eq)

lemma limb_prod: "uint (x :: limb) * uint (b :: limb) \<le> (BB - 1) * (BB - 1)" "0 \<le> uint (x :: limb) * uint (b :: limb)"
  using limb_bounds[of x] limb_bounds[of b] by (auto intro: mult_mono)

lemma dlimb_mul_add:
  fixes x b l r :: limb
  shows "uint (ucast x * ucast b + ucast l + ucast r :: dlimb) = uint x * uint b + uint l + uint r"
proof -
  have "uint x * uint b + uint l + uint r \<le> (BB - 1) * (BB - 1) + (BB - 1) + (BB - 1)"
    using limb_prod(1)[of x b] limb_bounds(3)[of l] limb_bounds(3)[of r] by linarith
  also have "\<dots> < 2 ^ 128" by (simp add: BB_def)
  finally have "uint x * uint b + uint l + uint r < 2 ^ 128" .
  then show ?thesis
    using limb_prod(2)[of x b] limb_bounds(1)[of l] limb_bounds(1)[of r]
    by (simp add: uint_word_ariths uint_dlimb mod_simps)
qed

lemma mp_mul1_val: "mp_mul1 a b l = (r, c) \<Longrightarrow> length r = length a \<and> lval r + BB ^ length a * uint c = lval a * uint b + uint l"
proof (induction a b l arbitrary: r c rule: mp_mul1.induct)
  case (2 x a b l)
  let ?t = "ucast x * ucast b + ucast l :: dlimb"
  obtain r' c' where m: "mp_mul1 a b (ucast (drop_bit 64 ?t)) = (r', c')" by fastforce
  then have rc: "r = ucast ?t # r'" "c = c'" using "2.prems" by (simp_all add: Let_def)
  have IH: "length r' = length a" "lval r' + BB ^ length a * uint c' = lval a * uint b + uint (ucast (drop_bit 64 ?t) :: limb)"
    using "2.IH"[OF refl m] by simp_all
  have "lval r + BB ^ length (x # a) * uint c = uint (ucast ?t :: limb) + BB * (lval r' + BB ^ length a * uint c')"
    by (simp add: rc algebra_simps)
  also have "\<dots> = uint (ucast ?t :: limb) + BB * uint (ucast (drop_bit 64 ?t) :: limb) + BB * (lval a * uint b)"
    unfolding IH(2) by (simp only: distrib_left add.assoc add.left_commute add.commute)
  also have "\<dots> = uint x * uint b + uint l + BB * (lval a * uint b)"
    unfolding dlimb_split using dlimb_mul_add[of x b l 0] by simp
  finally show ?case using IH(1) by (simp add: rc algebra_simps)
qed auto

lemma add_mul1_loop_val:
  "length tr = length a \<Longrightarrow> add_mul1_loop tr a b l = (r, c) \<Longrightarrow>
     length r = length a \<and> lval r + BB ^ length a * uint c = lval tr + lval a * uint b + uint l"
proof (induction tr a b l arbitrary: r c rule: add_mul1_loop.induct)
  case (1 y tr x a b l)
  let ?t = "ucast x * ucast b + ucast l + ucast y :: dlimb"
  obtain r' c' where m: "add_mul1_loop tr a b (ucast (drop_bit 64 ?t)) = (r', c')" by fastforce
  then have rc: "r = ucast ?t # r'" "c = c'" using "1.prems"(2) by (simp_all add: Let_def)
  have IH: "length r' = length a"
      "lval r' + BB ^ length a * uint c' = lval tr + lval a * uint b + uint (ucast (drop_bit 64 ?t) :: limb)"
    using "1.IH"[OF refl _ m] "1.prems"(1) by simp_all
  have "lval r + BB ^ length (x # a) * uint c = uint (ucast ?t :: limb) + BB * (lval r' + BB ^ length a * uint c')"
    by (simp add: rc algebra_simps)
  also have "\<dots> = uint (ucast ?t :: limb) + BB * uint (ucast (drop_bit 64 ?t) :: limb) + BB * lval tr + BB * (lval a * uint b)"
    unfolding IH(2) by (simp only: distrib_left add.assoc add.left_commute add.commute)
  also have "\<dots> = uint x * uint b + uint l + uint y + BB * lval tr + BB * (lval a * uint b)"
    unfolding dlimb_split dlimb_mul_add ..
  finally show ?case using IH(1) by (simp add: rc algebra_simps)
qed auto

lemma mp_add_mul1_val:
  "length tr = length a \<Longrightarrow> mp_add_mul1 tr a b = (r, c) \<Longrightarrow>
     length r = length a \<and> lval r + BB ^ length a * uint c = lval tr + lval a * uint b"
  using add_mul1_loop_val[of tr a b 0 r c] by (simp add: mp_add_mul1_def)

lemma dlimb_sub_mul:
  fixes x b l y :: limb
  defines "t \<equiv> ucast y - ucast x * ucast b - ucast l :: dlimb"
  shows "uint (ucast t :: limb) - BB * uint (- ucast (drop_bit 64 t) :: limb) = uint y - uint x * uint b - uint l"
proof -
  define v where "v = uint y - uint x * uint b - uint l"
  have BB2: "(2 :: int) ^ 128 = BB * BB" by (simp add: BB_def)
  have t: "uint t = v mod (BB * BB)"
    unfolding t_def v_def BB2[symmetric] by (simp add: uint_word_ariths uint_dlimb mod_simps)
  have lo: "uint (ucast t :: limb) = v mod BB" unfolding dlimb_low t by (simp add: mod_mod_cancel)
  have "uint t div BB = (v div BB) mod BB" unfolding t by (simp add: zmod_zmult2_eq)
  then have hi: "uint (- ucast (drop_bit 64 t) :: limb) = (- (v div BB)) mod BB"
    using dlimb_high[of t] by (simp add: uint_word_ariths BB_def mod_simps)
  have "v \<le> BB - 1" using limb_bounds[of y] limb_bounds[of l] limb_prod(2)[of x b] unfolding v_def by linarith
  then have "v div BB \<le> (BB - 1) div BB" by (rule zdiv_mono1) simp
  then have "v div BB \<le> 0" by (simp add: BB_def)
  moreover have "(BB - 1) * (BB - 1) + (BB - 1) = - (BB * (1 - BB))" by (simp add: algebra_simps)
  then have "BB * (1 - BB) \<le> v" using limb_bounds[of y] limb_bounds[of l] limb_prod(1)[of x b] unfolding v_def by linarith
  then have "BB * (1 - BB) div BB \<le> v div BB" by (rule zdiv_mono1) simp
  then have "1 - BB \<le> v div BB" by simp
  ultimately have "(- (v div BB)) mod BB = - (v div BB)" by (intro mod_pos_pos_trivial) simp_all
  then show ?thesis unfolding hi lo v_def[symmetric] by (simp add: minus_mult_div_eq_mod[symmetric])
qed

lemma sub_mul1_loop_val:
  "length tr = length a \<Longrightarrow> sub_mul1_loop tr a b l = (r, c) \<Longrightarrow>
     length r = length a \<and> lval r - BB ^ length a * uint c = lval tr - lval a * uint b - uint l"
proof (induction tr a b l arbitrary: r c rule: sub_mul1_loop.induct)
  case (1 y tr x a b l)
  let ?t = "ucast y - ucast x * ucast b - ucast l :: dlimb"
  obtain r' c' where m: "sub_mul1_loop tr a b (- ucast (drop_bit 64 ?t)) = (r', c')" by fastforce
  then have rc: "r = ucast ?t # r'" "c = c'" using "1.prems"(2) by (simp_all add: Let_def)
  have IH: "length r' = length a"
      "lval r' - BB ^ length a * uint c' = lval tr - lval a * uint b - uint (- ucast (drop_bit 64 ?t) :: limb)"
    using "1.IH"[OF refl _ m] "1.prems"(1) by simp_all
  have "lval r - BB ^ length (x # a) * uint c = uint (ucast ?t :: limb) + BB * (lval r' - BB ^ length a * uint c')"
    by (simp add: rc algebra_simps)
  also have "\<dots> = (uint (ucast ?t :: limb) - BB * uint (- ucast (drop_bit 64 ?t) :: limb)) + BB * lval tr - BB * (lval a * uint b)"
    unfolding IH(2) by (simp only: right_diff_distrib)
  also have "\<dots> = uint y - uint x * uint b - uint l + BB * lval tr - BB * (lval a * uint b)"
    unfolding dlimb_sub_mul ..
  finally show ?case using IH(1) by (simp add: rc algebra_simps)
qed auto

lemma mp_sub_mul1_val:
  "length tr = length a \<Longrightarrow> mp_sub_mul1 tr a b = (r, c) \<Longrightarrow>
     length r = length a \<and> lval r - BB ^ length a * uint c = lval tr - lval a * uint b"
  using sub_mul1_loop_val[of tr a b 0 r c] by (simp add: mp_sub_mul1_def)

section \<open>Multiplication\<close>

lemma region_Some: "off + n \<le> length tab \<Longrightarrow> region tab off n = Some (slice off n tab)"
  by (simp add: region_def)

text \<open>Storing a row and its high limb behind it.\<close>

lemma store_row:
  assumes "i + n < length t" "length row = n"
  shows "\<exists>t1. memcpy_at t i row = Some t1 \<and>
    wr t1 (i + n) r = Some (take i t @ row @ r # drop (i + n + 1) t)"
proof -
  have "drop (i + n) t = t ! (i + n) # drop (i + n + 1) t" using assms(1) by (simp add: Cons_nth_drop_Suc)
  then have "(take i t @ row @ drop (i + n) t)[i + n := r] = take i t @ row @ r # drop (i + n + 1) t"
    using assms by (simp add: list_update_append)
  then show ?thesis using assms by (simp add: memcpy_at_def wr_def)
qed

lemma mul_rows_val:
  "i + length op1 + length op2 \<le> length t \<Longrightarrow>
     \<exists>t'. mul_rows t op1 op2 i = Some t' \<and> length t' = length t \<and>
       lval (take (i + length op1 + length op2) t') = lval (take (i + length op1) t) + BB ^ i * lval op1 * lval op2"
proof (induction op2 arbitrary: i t)
  case (Cons b op2)
  let ?n = "length op1"
  obtain row r where m: "mp_add_mul1 (slice i ?n t) op1 b = (row, r)" by fastforce
  have v: "length row = ?n" "lval row + BB ^ ?n * uint r = lval (slice i ?n t) + lval op1 * uint b"
    using mp_add_mul1_val[OF _ m] Cons.prems by simp_all
  define t2 where "t2 = take i t @ row @ r # drop (i + ?n + 1) t"
  have l: "length t2 = length t" using Cons.prems v(1) by (simp add: t2_def)
  obtain t1 where t1: "memcpy_at t i row = Some t1" "wr t1 (i + ?n) r = Some t2"
    using store_row[OF _ v(1), of i t r] Cons.prems by (auto simp: t2_def)
  obtain t' where t': "mul_rows t2 op1 op2 (i + 1) = Some t'" "length t' = length t"
      "lval (take (i + 1 + ?n + length op2) t') = lval (take (i + 1 + ?n) t2) + BB ^ (i + 1) * lval op1 * lval op2"
    using Cons.IH[of "i + 1" t2] Cons.prems l by auto
  have "lval (take (i + 1 + ?n) t2) = lval (take i t) + BB ^ i * (lval row + BB ^ ?n * uint r)"
    using Cons.prems v(1) by (simp add: t2_def lval_append algebra_simps)
  also have "\<dots> = lval (take i t) + BB ^ i * lval (slice i ?n t) + BB ^ i * lval op1 * uint b"
    unfolding v(2) by (simp add: algebra_simps)
  also have "lval (take i t) + BB ^ i * lval (slice i ?n t) = lval (take (i + ?n) t)"
    using Cons.prems by (simp add: take_add lval_append slice_def)
  finally have "lval (take (i + ?n + length (b # op2)) t') = lval (take (i + ?n) t) + BB ^ i * lval op1 * lval (b # op2)"
    using t'(3) by (simp add: algebra_simps)
  then show ?case using t'(1,2) t1 m Cons.prems by (simp add: region_Some)
qed simp

lemma mp_mul_basecase_val:
  assumes "op2 \<noteq> []" "length t = length op1 + length op2"
  shows "\<exists>t'. mp_mul_basecase t op1 op2 = Some t' \<and> length t' = length t \<and> lval t' = lval op1 * lval op2"
proof -
  obtain b bs where b: "op2 = b # bs" using assms(1) by (cases op2) auto
  let ?n = "length op1"
  obtain row r where m: "mp_mul1 op1 b 0 = (row, r)" by fastforce
  have v: "length row = ?n" "lval row + BB ^ ?n * uint r = lval op1 * uint b" using mp_mul1_val[OF m] by simp_all
  define t2 where "t2 = row @ r # drop (?n + 1) t"
  obtain t1 where t1: "memcpy_at t 0 row = Some t1" "wr t1 ?n r = Some t2"
    using store_row[OF _ v(1), of 0 t r] assms(2) b by (auto simp: t2_def)
  have l: "length t2 = length t" using assms(2) b v(1) by (simp add: t2_def)
  obtain t' where "mul_rows t2 op1 bs 1 = Some t'" "length t' = length t"
      "lval (take (1 + ?n + length bs) t') = lval (take (1 + ?n) t2) + BB ^ 1 * lval op1 * lval bs"
    using mul_rows_val[of 1 op1 bs t2] assms(2) b l by auto
  moreover have "lval (take (1 + ?n) t2) = lval op1 * uint b" using v by (simp add: t2_def lval_append)
  moreover have "take (1 + ?n + length bs) t' = t'" using assms(2) b calculation(2) by simp
  ultimately show ?thesis using m t1 b by (simp add: mp_mul_basecase_def rd_def algebra_simps)
qed

section \<open>Comparison\<close>

lemma mp_scan_nz_val: "mp_scan_nz xs \<longleftrightarrow> lval xs \<noteq> 0"
proof (induction xs)
  case (Cons x xs)
  have "uint x + BB * lval xs = 0 \<longleftrightarrow> uint x = 0 \<and> lval xs = 0"
    using lval_nonneg[of xs] limb_bounds(1)[of x] by (metis BB_pos(1) add_nonneg_eq_0_iff mult_eq_0_iff mult_nonneg_nonneg order_less_le)
  then show ?case using Cons by (simp add: uint_0_iff)
qed simp

lemma cmp_loop_val:
  "length a = length b \<Longrightarrow> cmp_loop a b = sgn (lval (rev a) - lval (rev b))"
proof (induction a b rule: cmp_loop.induct)
  case (1 x a y b)
  let ?P = "BB ^ length a"
  have n: "lval (rev (x # a)) - lval (rev (y # b)) = (lval (rev a) - lval (rev b)) + ?P * (uint x - uint y)"
    using 1(2) by (simp add: lval_append algebra_simps)
  have d: "lval (rev a) - lval (rev b) < ?P" "- ?P < lval (rev a) - lval (rev b)"
    using lval_less[of "rev a"] lval_less[of "rev b"] lval_nonneg[of "rev a"] lval_nonneg[of "rev b"] 1(2) by auto
  consider (eq) "x = y" | (lt) "uint x - uint y \<le> -1" "x < y" | (gt) "1 \<le> uint x - uint y" "\<not> x < y" "x \<noteq> y"
    by (cases x y rule: linorder_cases) (auto simp: word_less_def)
  then show ?case
  proof cases
    case eq
    then show ?thesis using 1 n by simp
  next
    case lt
    have "?P * (uint x - uint y) \<le> ?P * (-1)" using lt(1) by (intro mult_left_mono) simp_all
    then have "lval (rev (x # a)) - lval (rev (y # b)) < 0" using n d by linarith
    then show ?thesis using lt(2) by auto
  next
    case gt
    have "?P * 1 \<le> ?P * (uint x - uint y)" using gt(1) by (intro mult_left_mono) simp_all
    then have "0 < lval (rev (x # a)) - lval (rev (y # b))" using n d by linarith
    then show ?thesis using gt(2,3) by simp
  qed
qed auto

lemma mp_cmp_val: "length a = length b \<Longrightarrow> mp_cmp a b = sgn (lval a - lval b)"
  using cmp_loop_val[of "rev a" "rev b"] by (simp add: mp_cmp_def)

section \<open>Shifts\<close>

lemma limb_shift_join:
  fixes a l :: limb
  assumes "1 \<le> s" "s < 64"
  shows "uint (drop_bit s a OR push_bit (64 - s) l) = uint a div 2 ^ s + (uint l mod 2 ^ s) * 2 ^ (64 - s)"
proof -
  have e: "(2 :: nat) ^ 64 = 2 ^ s * 2 ^ (64 - s)" using assms(2) by (simp flip: power_add)
  have "unat a < 2 ^ (64 - s) * 2 ^ s" using unsigned_less[of a] e by (simp add: mult.commute)
  then have d: "unat (drop_bit s a) < 2 ^ (64 - s)" unfolding unat_drop_bit_div by (simp add: div_less_iff_less_mult)
  have "unat (push_bit (64 - s) l) = (unat l * 2 ^ (64 - s)) mod 2 ^ 64"
    unfolding unsigned_push_bit_eq by (simp add: take_bit_eq_mod push_bit_eq_mult)
  also have "\<dots> = (unat l mod 2 ^ s) * 2 ^ (64 - s)" unfolding e by (rule mod_mult_mult2)
  finally have "unat (drop_bit s a OR push_bit (64 - s) l) = unat a div 2 ^ s + (unat l mod 2 ^ s) * 2 ^ (64 - s)"
    using unat_or_high[OF d] by (simp add: unat_drop_bit_div)
  then show ?thesis by (simp only: uint_nat zdiv_int zmod_int of_nat_add of_nat_mult of_nat_power of_nat_numeral)
qed

lemma shr_loop_val:
  assumes "1 \<le> s" "s < 64"
  shows "shr_loop s l xs = (r, m) \<Longrightarrow> length r = length xs \<and>
    lval (rev r) * 2 ^ s + uint m mod 2 ^ s = lval (rev xs) + BB ^ length xs * (uint l mod 2 ^ s)"
proof (induction xs arbitrary: l r m)
  case (Cons a xs)
  let ?w = "drop_bit s a OR push_bit (64 - s) l"
  obtain r' where r': "shr_loop s a xs = (r', m)" "r = ?w # r'" using Cons.prems by (auto simp: Let_def split: prod.splits)
  have IH: "length r' = length xs" "lval (rev r') * 2 ^ s + uint m mod 2 ^ s = lval (rev xs) + BB ^ length xs * (uint a mod 2 ^ s)"
    using Cons.IH[OF r'(1)] by simp_all
  have e: "2 ^ (64 - s) * 2 ^ s = BB" using assms(2) by (simp add: BB_def flip: power_add)
  have "uint ?w * 2 ^ s = (uint a div 2 ^ s) * 2 ^ s + (uint l mod 2 ^ s) * (2 ^ (64 - s) * 2 ^ s)"
    unfolding limb_shift_join[OF assms] by (simp only: distrib_right mult.assoc)
  then have w: "uint ?w * 2 ^ s + uint a mod 2 ^ s = uint a + (uint l mod 2 ^ s) * BB"
    unfolding e using div_mult_mod_eq[of "uint a" "2 ^ s"] by linarith
  have "lval (rev r) * 2 ^ s + uint m mod 2 ^ s = lval (rev r') * 2 ^ s + uint m mod 2 ^ s + BB ^ length xs * (uint ?w * 2 ^ s)"
    by (simp only: r'(2) rev.simps lval_snoc length_rev IH(1) distrib_right mult.assoc add.assoc add.commute add.left_commute)
  also have "\<dots> = lval (rev xs) + BB ^ length xs * (uint ?w * 2 ^ s + uint a mod 2 ^ s)"
    unfolding IH(2) by (simp only: distrib_left add.assoc add.commute add.left_commute)
  finally show ?case unfolding w using IH(1) r'(2) by (simp add: lval_append algebra_simps)
qed simp

lemma mp_shr_val:
  assumes "1 \<le> s" "s < 64" "uint high < 2 ^ s"
  shows "\<exists>r m. mp_shr tab s high = Some (r, m) \<and> length r = length tab \<and>
    lval r * 2 ^ s + uint m = lval tab + BB ^ length tab * uint high \<and> uint m < 2 ^ s"
proof -
  obtain r m where r: "shr_loop s high (rev tab) = (r, m)" by fastforce
  have "(push_bit s 1 - 1 :: limb) = mask s" by (simp add: mask_eq_exp_minus_1 push_bit_eq_mult)
  then have "uint (m AND (push_bit s 1 - 1)) = uint m mod 2 ^ s"
    by (simp only: uint_nat unat_and_mask zmod_int of_nat_power of_nat_numeral)
  then show ?thesis using shr_loop_val[OF assms(1,2) r] r assms limb_bounds(1)[of high] by (simp add: mp_shr_def)
qed



end
