(* ===== verification/Bf_Div.thy ===== *)
theory Bf_Div
  imports Bf_Limbs
begin

text \<open>
  Division of limb arrays in \<^verbatim>\<open>libbf.c\<close>: the division of two limbs by one with a precomputed
  inverse, the division of an array by a limb, and the schoolbook division of an array by a
  normalised array. Division by zero is \<^const>\<open>None\<close>.
\<close>

section \<open>Operations\<close>

text \<open>Two limbs side by side.\<close>

definition join :: "limb \<Rightarrow> limb \<Rightarrow> dlimb" where
  "join h l = push_bit 64 (ucast h) OR ucast l"

definition udiv1norm_init :: "limb \<Rightarrow> limb option" where
  "udiv1norm_init d =
     (let a1 = - d - 1; a0 = - 1 in if d = 0 then None else Some (ucast (join a1 a0 div ucast d)))"

text \<open>The quotient and the remainder; the sign of \<open>a0\<close> is spread by an arithmetic shift.\<close>

definition udiv1norm :: "limb \<Rightarrow> limb \<Rightarrow> limb \<Rightarrow> limb \<Rightarrow> limb \<times> limb" where
  "udiv1norm a1 a0 d d_inv =
     (let n1m = signed_drop_bit 63 a0;
          n_adj = a0 + (n1m AND d);
          a = ucast d_inv * ucast (a1 - n1m) + ucast n_adj :: dlimb;
          q = ucast (drop_bit 64 a) + a1;
          a = join a1 a0;
          a = a - ucast q * ucast d - ucast d;
          ah = ucast (drop_bit 64 a);
          q = q + (1 + ah);
          r = ucast a + (ah AND d)
      in (q, r))"

definition UDIV1NORM_THRESHOLD :: nat where
  "UDIV1NORM_THRESHOLD = 3"

text \<open>The two loops of \<^verbatim>\<open>mp_div1norm\<close>, from the most significant limb down.\<close>

fun div1norm_inv_loop :: "limb \<Rightarrow> limb \<Rightarrow> limb \<Rightarrow> limb list \<Rightarrow> limb list \<times> limb" where
  "div1norm_inv_loop b b_inv r [] = ([], r)"
| "div1norm_inv_loop b b_inv r (x # taba) =
     (let (q, r) = udiv1norm r x b b_inv; (res, r) = div1norm_inv_loop b b_inv r taba in (q # res, r))"

fun div1norm_loop :: "limb \<Rightarrow> limb \<Rightarrow> limb list \<Rightarrow> limb list \<times> limb" where
  "div1norm_loop b r [] = ([], r)"
| "div1norm_loop b r (x # taba) =
     (let a1 = join r x; (res, r) = div1norm_loop b (ucast (a1 mod ucast b)) taba in (ucast (a1 div ucast b) # res, r))"

definition mp_div1norm :: "limb list \<Rightarrow> limb \<Rightarrow> limb \<Rightarrow> (limb list \<times> limb) option" where
  "mp_div1norm taba b r =
     (if length taba \<ge> UDIV1NORM_THRESHOLD then do {
        b_inv \<leftarrow> udiv1norm_init b;
        let (res, r) = div1norm_inv_loop b b_inv r (rev taba);
        Some (rev res, r) }
      else if b = 0 \<and> taba \<noteq> [] then None
      else (let (res, r) = div1norm_loop b r (rev taba) in Some (rev res, r)))"

text \<open>
  The division of \<^verbatim>\<open>taba\<close> by \<^verbatim>\<open>tabb\<close>: the comparison that gives the first quotient limb, the loop
  that adds the divisor back while the difference is negative, and the loop over the quotient.
\<close>

fun divnorm_first :: "limb list \<Rightarrow> limb list \<Rightarrow> limb" where
  "divnorm_first (x # taba) (y # tabb) = (if x \<noteq> y then (if x < y then 0 else 1) else divnorm_first taba tabb)"
| "divnorm_first _ _ = 1"

partial_function (option) divnorm_fix :: "limb list \<Rightarrow> nat \<Rightarrow> limb \<Rightarrow> limb list \<Rightarrow> (limb \<times> limb list) option" where
  "divnorm_fix tabb i q taba = do {
     let q = q - 1;
     row \<leftarrow> region taba i (length tabb);
     let (row, c) = mp_add row tabb 0;
     taba \<leftarrow> memcpy_at taba i row;
     if c \<noteq> 0 then do {
       v \<leftarrow> rd taba (i + length tabb);
       let v = v + 1;
       taba \<leftarrow> wr taba (i + length tabb) v;
       if v = 0 then Some (q, taba) else divnorm_fix tabb i q taba }
     else divnorm_fix tabb i q taba }"

definition divnorm_guess :: "limb \<Rightarrow> limb \<Rightarrow> limb \<Rightarrow> limb \<Rightarrow> limb option" where
  "divnorm_guess b1 b1_inv ah al =
     (if ah \<ge> b1 then Some (- 1)
      else if b1_inv \<noteq> 0 then Some (fst (udiv1norm ah al b1 b1_inv))
      else if b1 = 0 then None
      else Some (ucast (join ah al div ucast b1)))"

definition divnorm_step :: "limb list \<Rightarrow> limb \<Rightarrow> limb \<Rightarrow> nat \<Rightarrow> limb list \<Rightarrow> (limb \<times> limb list) option" where
  "divnorm_step tabb b1 b1_inv i taba = do {
     let nb = length tabb;
     ah \<leftarrow> rd taba (i + nb);
     al \<leftarrow> rd taba (i + nb - 1);
     q \<leftarrow> divnorm_guess b1 b1_inv ah al;
     row \<leftarrow> region taba i nb;
     let (row, r) = mp_sub_mul1 row tabb q;
     taba \<leftarrow> memcpy_at taba i row;
     v \<leftarrow> rd taba (i + nb);
     let a = v - r;
     let c = a > v;
     taba \<leftarrow> wr taba (i + nb) a;
     if c then divnorm_fix tabb i q taba else Some (q, taba) }"

fun divnorm_loop ::
  "limb list \<Rightarrow> limb \<Rightarrow> limb \<Rightarrow> nat \<Rightarrow> limb list \<Rightarrow> limb list \<Rightarrow> (limb list \<times> limb list) option" where
  "divnorm_loop tabb b1 b1_inv 0 tabq taba = Some (tabq, taba)"
| "divnorm_loop tabb b1 b1_inv (Suc i) tabq taba = do {
     (q, taba) \<leftarrow> divnorm_step tabb b1 b1_inv i taba;
     tabq \<leftarrow> wr tabq i q;
     divnorm_loop tabb b1 b1_inv i tabq taba }"

definition DIVNORM_LARGE_THRESHOLD :: nat where
  "DIVNORM_LARGE_THRESHOLD = 50"

text \<open>
  The division by large operands, \<^verbatim>\<open>mp_divnorm_large\<close>, is an argument. The results are the
  quotient and the array with the remainder.
\<close>

definition mp_divnorm ::
  "(limb list \<Rightarrow> limb list \<Rightarrow> limb list \<Rightarrow> (limb list \<times> limb list) option) \<Rightarrow>
   limb list \<Rightarrow> limb list \<Rightarrow> limb list \<Rightarrow> (limb list \<times> limb list) option" where
  "mp_divnorm large tabq taba tabb = do {
     let na = length taba;
     let nb = length tabb;
     b1 \<leftarrow> rd tabb (nb - 1);
     if nb = 1 then do {
       (qs, r) \<leftarrow> mp_div1norm taba b1 0;
       tabq \<leftarrow> memcpy_at tabq 0 qs;
       taba \<leftarrow> wr taba 0 r;
       Some (tabq, taba) }
     else if na < nb then None
     else do {
       let n = na - nb;
       if min n nb \<ge> DIVNORM_LARGE_THRESHOLD then large tabq taba tabb
       else do {
         b1_inv \<leftarrow> (if n \<ge> UDIV1NORM_THRESHOLD then udiv1norm_init b1 else Some 0);
         row \<leftarrow> region taba n nb;
         let q = divnorm_first (rev row) (rev tabb);
         tabq \<leftarrow> wr tabq n q;
         taba \<leftarrow> (if q \<noteq> 0 then memcpy_at taba n (fst (mp_sub row tabb 0)) else Some taba);
         divnorm_loop tabb b1 b1_inv n tabq taba } } }"

section \<open>Two limbs by one\<close>

lemma join_val: "uint (join h l) = uint h * BB + uint l"
proof -
  have h: "unat (ucast h :: dlimb) = unat h" "unat (ucast l :: dlimb) = unat l"
    using uint_dlimb[of h] uint_dlimb[of l] by (simp_all only: uint_nat of_nat_eq_iff)
  have "unat (push_bit 64 (ucast h :: dlimb)) = unat h * 2 ^ 64"
    using unsigned_less[of h, where 'a = nat] unfolding unsigned_push_bit_eq h
    by (simp add: push_bit_eq_mult take_bit_eq_mod)
  moreover have "unat (ucast l :: dlimb) < 2 ^ 64" using unsigned_less[of l, where 'a = nat] h(2) by simp
  ultimately have "unat (ucast l OR push_bit 64 (ucast h) :: dlimb) = unat l + unat h * 2 ^ 64"
    using unat_or_high[of "ucast l :: dlimb" 64 "push_bit 64 (ucast h)"] h by simp
  then show ?thesis unfolding join_def or.commute[of "push_bit 64 (ucast h)"] uint_nat BB_def by simp
qed

lemma div_less_int: "0 < d \<Longrightarrow> (a :: int) < d * n \<Longrightarrow> a div d < n"
  using mult_left_mono[of n "a div d" d] mult_div_mod_eq[of d a] pos_mod_sign[of d a] by linarith

lemma minus_one_limb: "uint (- 1 :: limb) = BB - 1"
  by (simp add: BB_def unsigned_minus_1_eq_mask mask_eq_exp_minus_1)

lemma udiv1norm_init_val:
  assumes "BB \<le> 2 * uint d"
  shows "\<exists>v. udiv1norm_init d = Some v \<and> uint d * (BB + uint v) \<le> BB * BB - 1 \<and> BB * BB - 1 < uint d * (BB + uint v) + uint d"
proof -
  have d: "0 < uint d" "uint d \<le> BB - 1" using assms limb_bounds[of d] by (auto simp: BB_def)
  have "uint (- d - 1 :: limb) = (- uint d - 1) mod BB" by (simp add: uint_word_ariths BB_def mod_simps)
  also have "\<dots> = (- uint d - 1 + BB) mod BB" by simp
  also have "\<dots> = BB - 1 - uint d" using d by (subst mod_pos_pos_trivial) simp_all
  finally have "uint (join (- d - 1) (- 1)) = (BB - 1 - uint d) * BB + (BB - 1)" by (simp only: join_val minus_one_limb)
  then have j: "uint (join (- d - 1) (- 1)) = BB * BB - 1 - uint d * BB" by (simp add: algebra_simps)
  define k where "k = (BB * BB - 1) div uint d - BB"
  have k: "uint (join (- d - 1) (- 1)) div uint d = k"
    unfolding j k_def using d(1) div_mult_self1[of "uint d" "BB * BB - 1" "- BB"] by (simp add: algebra_simps)
  have m: "uint d * (BB + k) = BB * BB - 1 - (BB * BB - 1) mod uint d" by (simp add: k_def minus_mod_eq_mult_div)
  have r: "0 \<le> (BB * BB - 1) mod uint d" "(BB * BB - 1) mod uint d < uint d" using d(1) by simp_all
  have "uint d * BB \<le> (BB - 1) * BB" using d(2) by (intro mult_right_mono) simp_all
  then have "uint d * BB \<le> BB * BB - 1" by (simp add: algebra_simps) (simp add: BB_def)
  then have k0: "0 \<le> k" unfolding k_def using zdiv_mono1[of "uint d * BB" "BB * BB - 1" "uint d"] d(1) by simp
  have "BB * BB \<le> 2 * uint d * BB" using assms by (intro mult_right_mono) simp_all
  moreover have "2 * uint d * BB = uint d * (2 * BB)" by simp
  ultimately have "BB * BB - 1 < uint d * (2 * BB)" by linarith
  then have "(BB * BB - 1) div uint d < 2 * BB" using d(1) by (intro div_less_int)
  then have kB: "k < BB" unfolding k_def by linarith
  have dl: "(ucast d :: dlimb) \<noteq> 0" using d(1) uint_dlimb[of d] by auto
  define v where "v = (ucast (join (- d - 1) (- 1) div ucast d) :: limb)"
  have "uint v = k" unfolding v_def dlimb_low uint_div uint_dlimb k using k0 kB by simp
  moreover have "udiv1norm_init d = Some v" using d(1) by (auto simp: udiv1norm_init_def v_def)
  ultimately show ?thesis using m r by auto
qed

text \<open>The spread sign bit.\<close>

lemma sign_mask: "(signed_drop_bit 63 a :: limb) = (if BB \<le> 2 * uint a then - 1 else 0)"
proof -
  have "sint (signed_drop_bit 63 a) = sint a div 2 ^ 63" by (simp add: sint_signed_drop_bit_eq drop_bit_eq_div)
  moreover have "sint a = (if BB \<le> 2 * uint a then uint a - BB else uint a)"
  proof -
    have "(uint a + 2 ^ 63) mod 2 ^ 64 = (uint a - 2 ^ 63 + 2 ^ 64) mod 2 ^ 64" by (simp add: add.commute)
    also have "\<dots> = (uint a - 2 ^ 63) mod 2 ^ 64" by (rule mod_add_self2)
    finally have "(uint a + 2 ^ 63) mod 2 ^ 64 = uint a - 2 ^ 63" if "BB \<le> 2 * uint a"
      using that limb_bounds[of a] by (simp add: BB_def)
    then show ?thesis using limb_bounds[of a]
      by (auto simp: sint_uint signed_take_bit_eq_take_bit_shift take_bit_eq_mod BB_def)
  qed
  moreover have "(uint a - BB) div 2 ^ 63 = - 1" if "BB \<le> 2 * uint a"
    using that limb_bounds[of a] by (intro int_div_pos_eq[of _ _ _ "uint a - BB + 2 ^ 63"]) (auto simp: BB_def)
  moreover have "uint a div 2 ^ 63 = 0" if "\<not> BB \<le> 2 * uint a" using that limb_bounds[of a] by (simp add: BB_def)
  ultimately have "sint (signed_drop_bit 63 a) = (if BB \<le> 2 * uint a then - 1 else 0)" by simp
  then have "word_of_int (sint (signed_drop_bit 63 a)) = (if BB \<le> 2 * uint a then - 1 else 0 :: limb)" by simp
  then show ?thesis by simp
qed

text \<open>
  The estimate: with \<open>n1\<close> the top bit of \<open>a0\<close>, the high part of
  \<open>v (a1 + n1) + a0 + n1 (d - B)\<close> plus \<open>a1\<close> is the quotient or one less.
\<close>

lemma estimate:
  fixes B d v a1 a0 n1 q :: int
  assumes d: "B \<le> 2 * d" "d < B" and v: "d * (B + v) \<le> B * B - 1" "B * B - 1 < d * (B + v) + d"
    and a: "0 \<le> a1" "a1 < d" "0 \<le> a0" "a0 < B" and n1: "n1 = (if B \<le> 2 * a0 then 1 else 0)"
    and q: "q = ((B + v) * a1 + a0 + n1 * (v + d - B)) div B"
  shows "0 \<le> a1 * B + a0 - q * d \<and> a1 * B + a0 - q * d < 2 * d"
proof -
  define X where "X = (B + v) * a1 + a0 + n1 * (v + d - B)"
  define e where "e = B * B - 1 - d * (B + v)"
  define D where "D = (a1 + n1) * (1 + e) + (B - d) * (a0 - n1 * (B - d))"
  have e: "0 \<le> e" "e < d" using v by (simp_all add: e_def)
  have B: "0 < B" "0 < d" using d by linarith+
  have n1': "n1 = 0 \<or> n1 = 1" using n1 by simp
  have eq: "B * (a1 * B + a0) = d * X + D"
    using n1' by (auto simp: X_def D_def e_def algebra_simps)
  have "0 \<le> (a1 + n1) * (1 + e)" using a e n1' by auto
  moreover have "0 \<le> (B - d) * (a0 - n1 * (B - d))" using d a n1 by auto
  ultimately have D0: "0 \<le> D" by (simp add: D_def)
  have "(a1 + n1) * (1 + e) \<le> (d - 1 + n1) * d" using a e n1' by (intro mult_mono) auto
  moreover have "(B - d) * (a0 - n1 * (B - d)) \<le> (B - d) * (d - n1)"
    using d a n1 by (intro mult_left_mono) auto
  moreover have "(d - 1 + n1) * d + (B - d) * (d - n1) < B * d"
    using n1' d B by (auto simp: algebra_simps)
  ultimately have D1: "D < B * d" by (simp add: D_def)
  have X: "B * q \<le> X" "X < B * q + B"
    unfolding q X_def[symmetric]
    using B(1) mult_div_mod_eq[of B X] pos_mod_sign[of B X] pos_mod_bound[of B X] by linarith+
  have "d * (B * q) \<le> d * X" "d * X < d * (B * q + B)" using X B by simp_all
  then have "B * (a1 * B + a0 - q * d) \<ge> 0" "B * (a1 * B + a0 - q * d) < B * (2 * d)"
    using eq D0 D1 by (simp_all add: algebra_simps)
  then show ?thesis using B(1) by (auto simp: zero_le_mult_iff mult_less_cancel_left)
qed

lemma limb_eqI: "0 \<le> v \<Longrightarrow> v < BB \<Longrightarrow> uint (x :: limb) mod BB = v mod BB \<Longrightarrow> uint x = v"
  using limb_bounds[of x] by simp

lemma limb_plus: "uint (x + y :: limb) = (uint x + uint y) mod BB"
  by (simp add: uint_word_ariths BB_def)

text \<open>The correction by the high limb of the difference.\<close>

lemma correction:
  fixes a :: dlimb and q d :: limb
  assumes a: "uint a = (R - uint d) mod (BB * BB)" and R: "0 \<le> R" "R < 2 * uint d"
    and q: "R \<ge> uint d \<Longrightarrow> uint q + 1 < BB"
  defines "ah \<equiv> ucast (drop_bit 64 a) :: limb"
  shows "uint (q + (1 + ah)) = (if R \<ge> uint d then uint q + 1 else uint q)"
    "uint (ucast a + (ah AND d)) = (if R \<ge> uint d then R - uint d else R)"
proof -
  have d: "uint d < BB" "BB \<le> BB * BB" by (simp_all add: limb_bounds) (simp add: BB_def)
  have "uint (q + (1 + ah)) = (if R \<ge> uint d then uint q + 1 else uint q) \<and>
    uint (ucast a + (ah AND d)) = (if R \<ge> uint d then R - uint d else R)"
  proof (cases "R \<ge> uint d")
    case True
    have "uint a = R - uint d" unfolding a using True R d by (intro mod_pos_pos_trivial) linarith+
    then have "ah = 0" "uint (ucast a :: limb) = R - uint d"
      using dlimb_high[of a] dlimb_low[of a] True R d by (simp_all add: ah_def word_uint_eq_iff)
    then show ?thesis using True q by (simp add: limb_plus limb_bounds)
  next
    case False
    have "uint a = (R - uint d + BB * BB) mod (BB * BB)" unfolding a by simp
    also have "\<dots> = BB * (BB - 1) + (BB + R - uint d)"
    proof -
      have "0 \<le> R - uint d + BB * BB" "R - uint d + BB * BB < BB * BB" using False R d by linarith+
      then show ?thesis by (simp add: algebra_simps)
    qed
    finally have u: "uint a = BB * (BB - 1) + (BB + R - uint d)" .
    have "uint ah = BB - 1" "uint (ucast a :: limb) = BB + R - uint d"
      using dlimb_high[of a] dlimb_low[of a] False R d unfolding ah_def u by simp_all
    moreover then have "ah = - 1" using minus_one_limb by (simp only: word_uint_eq_iff)
    ultimately show ?thesis using False R d limb_bounds[of q] by (simp add: limb_plus)
  qed
  then show "uint (q + (1 + ah)) = (if R \<ge> uint d then uint q + 1 else uint q)"
    "uint (ucast a + (ah AND d)) = (if R \<ge> uint d then R - uint d else R)" by simp_all
qed

text \<open>The two operands of the estimate.\<close>

lemma adjusted:
  fixes a1 a0 d :: limb
  assumes "BB \<le> 2 * uint d" "uint a1 < uint d"
  defines "n1 \<equiv> if BB \<le> 2 * uint a0 then 1 else 0"
  shows "uint (a1 - signed_drop_bit 63 a0) = uint a1 + n1"
    "uint (a0 + (signed_drop_bit 63 a0 AND d)) = uint a0 + n1 * (uint d - BB)"
proof -
  have dB: "uint d < BB" by (rule limb_bounds)
  show "uint (a1 - signed_drop_bit 63 a0) = uint a1 + n1"
    using assms(2) dB limb_bounds[of a1] limb_plus[of a1 1] by (auto simp: sign_mask n1_def)
  have "(uint a0 + uint d) mod BB = uint a0 + uint d - BB" if "BB \<le> 2 * uint a0"
  proof -
    have "(uint a0 + uint d) mod BB = (uint a0 + uint d - BB + BB) mod BB" by simp
    also have "\<dots> = (uint a0 + uint d - BB) mod BB" by (rule mod_add_self2)
    also have "\<dots> = uint a0 + uint d - BB"
      using that assms(1) dB limb_bounds[of a0] by (intro mod_pos_pos_trivial) linarith+
    finally show ?thesis .
  qed
  then show "uint (a0 + (signed_drop_bit 63 a0 AND d)) = uint a0 + n1 * (uint d - BB)"
    by (auto simp: sign_mask n1_def limb_plus limb_bounds)
qed

lemma udiv1norm_val:
  assumes d: "BB \<le> 2 * uint d" and v: "udiv1norm_init d = Some v" and a1: "uint a1 < uint d"
    and eq: "udiv1norm a1 a0 d v = (q, r)"
  shows "uint q * uint d + uint r = uint a1 * BB + uint a0" "uint r < uint d"
proof -
  define n1m :: limb where "n1m = signed_drop_bit 63 a0"
  define n1 :: int where "n1 = (if BB \<le> 2 * uint a0 then 1 else 0)"
  define n_adj where "n_adj = a0 + (n1m AND d)"
  define A :: dlimb where "A = ucast v * ucast (a1 - n1m) + ucast n_adj + ucast (0 :: limb)"
  define q0 where "q0 = ucast (drop_bit 64 A) + a1"
  define a where "a = join a1 a0 - ucast q0 * ucast d - ucast d"
  define R where "R = uint a1 * BB + uint a0 - uint q0 * uint d"
  have V: "uint d * (BB + uint v) \<le> BB * BB - 1" "BB * BB - 1 < uint d * (BB + uint v) + uint d"
    using udiv1norm_init_val[OF d] v by auto
  have dB: "uint d < BB" by (rule limb_bounds)
  note x = adjusted[OF d a1, of a0, folded n1_def n1m_def, folded n_adj_def]
  have A: "uint A = uint v * (uint a1 + n1) + uint n_adj" unfolding A_def dlimb_mul_add x(1) by simp
  define X where "X = (BB + uint v) * uint a1 + uint a0 + n1 * (uint v + uint d - BB)"
  have "X = uint A + uint a1 * BB" unfolding A x(2) X_def by (simp add: algebra_simps)
  then have Xq: "X div BB = uint A div BB + uint a1" by simp
  have E: "0 \<le> uint a1 * BB + uint a0 - (X div BB) * uint d \<and> uint a1 * BB + uint a0 - (X div BB) * uint d < 2 * uint d"
    by (rule estimate[OF d dB V]) (simp_all add: limb_bounds a1 n1_def X_def)
  have top: "uint a1 * BB + uint a0 < BB * uint d"
    using mult_right_mono[of "uint a1 + 1" "uint d" BB] a1 limb_bounds(2)[of a0] by (simp add: algebra_simps)
  have "0 \<le> X div BB" unfolding Xq by (simp add: pos_imp_zdiv_nonneg_iff)
  moreover have "(X div BB) * uint d < BB * uint d" using E top by linarith
  then have "X div BB < BB" by (rule mult_right_less_imp_less) simp
  ultimately have q0: "uint q0 = X div BB" unfolding q0_def limb_plus dlimb_high Xq by simp
  have R: "0 \<le> R" "R < 2 * uint d" using E by (simp_all add: R_def q0)
  have "uint q0 + 1 < BB" if "R \<ge> uint d"
  proof -
    have "(uint q0 + 1) * uint d < BB * uint d" using that top by (simp add: R_def algebra_simps)
    then show ?thesis by (rule mult_right_less_imp_less) simp
  qed
  moreover have "uint a = (R - uint d) mod (BB * BB)"
    unfolding a_def R_def by (simp add: uint_word_ariths uint_dlimb join_val mod_simps) (simp add: BB_def)
  ultimately have C: "uint q = (if R \<ge> uint d then uint q0 + 1 else uint q0)" "uint r = (if R \<ge> uint d then R - uint d else R)"
    using correction[OF _ R, of a q0] eq
    by (simp_all add: udiv1norm_def Let_def n1m_def n_adj_def A_def q0_def a_def)
  show "uint q * uint d + uint r = uint a1 * BB + uint a0" "uint r < uint d" using C R by (simp_all add: R_def algebra_simps)
qed

section \<open>An array by a limb\<close>

lemma div_digit:
  assumes "q * b + r' = r * BB + x" "lval (rev res) * b + r'' = lval (rev xs) + BB ^ n * r'" "length res = n" "length xs = n"
    "uint qw = q" "uint xw = x"
  shows "lval (rev (qw # res)) * b + r'' = lval (rev (xw # xs)) + BB ^ Suc n * r"
proof -
  have "lval (rev (qw # res)) * b + r'' = (lval (rev res) * b + r'') + BB ^ n * (q * b)"
    using assms(3,5) by (simp add: lval_append algebra_simps)
  also have "\<dots> = lval (rev xs) + BB ^ n * (q * b + r')" unfolding assms(2) by (simp add: algebra_simps)
  finally show ?thesis unfolding assms(1) using assms(4,6) by (simp add: lval_append algebra_simps)
qed

lemma div1norm_inv_loop_val:
  assumes "BB \<le> 2 * uint b" "udiv1norm_init b = Some v"
  shows "uint r < uint b \<Longrightarrow> div1norm_inv_loop b v r xs = (q, r') \<Longrightarrow>
    length q = length xs \<and> lval (rev q) * uint b + uint r' = lval (rev xs) + BB ^ length xs * uint r \<and> uint r' < uint b"
proof (induction xs arbitrary: r q r')
  case (Cons x xs)
  obtain q0 r0 where s: "udiv1norm r x b v = (q0, r0)" by fastforce
  obtain qs where l: "div1norm_inv_loop b v r0 xs = (qs, r')" "q = q0 # qs"
    using Cons.prems(2) by (auto simp: s Let_def split: prod.splits)
  note st = udiv1norm_val[OF assms Cons.prems(1) s] and IH = Cons.IH[OF st(2) l(1)]
  show ?case unfolding l(2) using div_digit[OF st(1) _ _ refl, of qs "uint r'" xs q0 x] IH by simp
qed simp

lemma div1norm_loop_val:
  assumes "0 < uint b"
  shows "uint r < uint b \<Longrightarrow> div1norm_loop b r xs = (q, r') \<Longrightarrow>
    length q = length xs \<and> lval (rev q) * uint b + uint r' = lval (rev xs) + BB ^ length xs * uint r \<and> uint r' < uint b"
proof (induction xs arbitrary: r q r')
  case (Cons x xs)
  let ?q = "ucast (join r x div ucast b) :: limb" and ?r = "ucast (join r x mod ucast b) :: limb"
  obtain qs where l: "div1norm_loop b ?r xs = (qs, r')" "q = ?q # qs"
    using Cons.prems(2) by (auto simp: Let_def split: prod.splits)
  have N: "uint r * BB + uint x < uint b * BB"
    using mult_right_mono[of "uint r + 1" "uint b" BB] Cons.prems(1) limb_bounds(2)[of x] by (simp add: algebra_simps)
  have "(uint r * BB + uint x) div uint b < BB" using assms N by (rule div_less_int)
  moreover have "0 \<le> (uint r * BB + uint x) div uint b" using assms limb_bounds(1)[of x] by (simp add: pos_imp_zdiv_nonneg_iff)
  ultimately have qv: "uint ?q = (uint r * BB + uint x) div uint b" unfolding dlimb_low uint_div uint_dlimb join_val by simp
  have "(uint r * BB + uint x) mod uint b < BB" using assms pos_mod_bound[of "uint b"] limb_bounds(2)[of b] by (meson less_trans)
  then have rv: "uint ?r = (uint r * BB + uint x) mod uint b" unfolding dlimb_low uint_mod uint_dlimb join_val using assms by simp
  have st: "uint ?q * uint b + uint ?r = uint r * BB + uint x" "uint ?r < uint b" unfolding qv rv using assms by simp_all
  have IH: "length qs = length xs" "lval (rev qs) * uint b + uint r' = lval (rev xs) + BB ^ length xs * uint ?r" "uint r' < uint b"
    using Cons.IH[OF st(2) l(1)] by blast+
  show ?case unfolding l(2) using div_digit[OF st(1) IH(2,1) refl refl refl] IH(1,3) by simp
qed simp

lemma mp_div1norm_val:
  assumes "BB \<le> 2 * uint b" "uint r < uint b"
  shows "\<exists>q r'. mp_div1norm a b r = Some (q, r') \<and> length q = length a \<and>
    lval q * uint b + uint r' = lval a + BB ^ length a * uint r \<and> uint r' < uint b"
proof -
  have b: "0 < uint b" using assms(2) limb_bounds(1)[of r] by linarith
  then have b0: "b \<noteq> 0" by auto
  obtain v where v: "udiv1norm_init b = Some v" using udiv1norm_init_val[OF assms(1)] by blast
  obtain q1 r1 q2 r2 where l: "div1norm_inv_loop b v r (rev a) = (q1, r1)" "div1norm_loop b r (rev a) = (q2, r2)" by fastforce
  show ?thesis
    using div1norm_inv_loop_val[OF assms(1) v assms(2) l(1)] div1norm_loop_val[OF b assms(2) l(2)] l b0 v
    by (simp add: mp_div1norm_def)
qed

section \<open>An array by an array\<close>

lemma divnorm_first_val:
  "length a = length b \<Longrightarrow> divnorm_first (rev a) (rev b) = (if lval a < lval b then 0 else 1)"
proof -
  have "divnorm_first xs ys = (if cmp_loop xs ys = - 1 then 0 else 1)" for xs ys
    by (induction xs ys rule: divnorm_first.induct) auto
  then show "length a = length b \<Longrightarrow> ?thesis" using mp_cmp_val[of a b] by (auto simp: mp_cmp_def sgn_if split: if_splits)
qed

text \<open>The part of the array that a step works on: \<open>nb + 1\<close> limbs from \<open>i\<close> on.\<close>

lemma window:
  assumes "i + n < length t"
  shows "t = take i t @ slice i n t @ t ! (i + n) # drop (i + n + 1) t"
    "lval (slice i (n + 1) t) = lval (slice i n t) + BB ^ n * uint (t ! (i + n))"
proof -
  have d: "drop (i + n) t = t ! (i + n) # drop (i + n + 1) t" using assms by (simp add: Cons_nth_drop_Suc)
  show "t = take i t @ slice i n t @ t ! (i + n) # drop (i + n + 1) t" using slice_split[of t i n] d by simp
  have "slice i (n + 1) t = slice i n t @ [t ! (i + n)]" using assms by (simp add: slice_def take_Suc_conv_app_nth)
  then show "lval (slice i (n + 1) t) = lval (slice i n t) + BB ^ n * uint (t ! (i + n))" using assms by (simp add: lval_snoc)
qed

lemma window_ops:
  assumes "length p = i" "length row = n"
  shows "region (p @ row @ z) i n = Some row"
    "length row' = n \<Longrightarrow> memcpy_at (p @ row @ z) i row' = Some (p @ row' @ z)"
    "rd (p @ row @ v # z) (i + n) = Some v" "wr (p @ row @ v # z) (i + n) w = Some (p @ row @ w # z)"
  using assms by (auto simp: region_def slice_def memcpy_at_def rd_def wr_def nth_append list_update_append)

lemma limb_pos: "x \<noteq> 0 \<Longrightarrow> 1 \<le> uint (x :: limb)"
proof -
  assume "x \<noteq> 0"
  then have "uint x \<noteq> 0" by (simp add: uint_0_iff)
  then show ?thesis using limb_bounds(1)[of x] by linarith
qed

lemma limb_step: "uint (q :: limb) \<noteq> 0 \<Longrightarrow> uint (q - 1) = uint q - 1" "q + 1 \<noteq> 0 \<Longrightarrow> uint (q + 1 :: limb) = uint q + 1"
  "q + 1 = 0 \<Longrightarrow> uint (q :: limb) = BB - 1"
proof -
  show "uint q \<noteq> 0 \<Longrightarrow> uint (q - 1) = uint q - 1"
    using limb_sub[of q 1] limb_bounds[of "q - 1"] limb_bounds[of q] by (cases "q - 1 > q") auto
  have "\<not> 1 + q < 1" if "q + 1 \<noteq> 0" using limb_pos[OF that] by (simp add: word_less_def add.commute not_less)
  then show "q + 1 \<noteq> 0 \<Longrightarrow> uint (q + 1) = uint q + 1" using limb_add[of 1 q] by (simp add: add.commute)
  show "q + 1 = 0 \<Longrightarrow> uint q = BB - 1" using limb_add[of 1 q] by (simp add: add.commute)
qed

text \<open>
  Adding the divisor back: the limbs hold the negative difference modulo \<open>BB ^ (nb + 1)\<close>, and the
  loop ends with the remainder and a zero limb above it.
\<close>

lemma divnorm_fix_val:
  assumes b: "0 < lval tabb" and p: "length p = i"
  shows "length row = length tabb \<Longrightarrow> 0 \<le> A \<Longrightarrow>
    A = uint q * lval tabb + (lval row + BB ^ length tabb * uint t - BB ^ (length tabb + 1)) \<Longrightarrow>
    \<exists>q' row'. divnorm_fix tabb i q (p @ row @ t # z) = Some (q', p @ row' @ 0 # z) \<and> length row' = length tabb \<and>
      A = uint q' * lval tabb + lval row' \<and> lval row' < lval tabb"
proof (induction "nat (BB ^ (length tabb + 1) - (lval row + BB ^ length tabb * uint t))" arbitrary: q row t rule: less_induct)
  case less
  let ?n = "length tabb" and ?b = "lval tabb"
  define W where "W = lval row + BB ^ ?n * uint t"
  have "lval (row @ [t]) < BB ^ (?n + 1)" using lval_less[of "row @ [t]"] less.prems(1) by simp
  then have W: "W < BB ^ (?n + 1)" using less.prems(1) by (simp add: lval_snoc W_def)
  have q0: "uint q \<noteq> 0" using less.prems(2,3) W by (auto simp: W_def)
  note q1 = limb_step(1)[OF q0]
  obtain row2 c where m: "mp_add row tabb 0 = (row2, c)" by fastforce
  have v: "length row2 = ?n" "lval row2 + BB ^ ?n * uint c = lval row + ?b" "uint c \<le> 1"
    using mp_add_val[OF less.prems(1) _ m] less.prems(1) by simp_all
  note ops = window_ops[OF p less.prems(1)] window_ops[OF p v(1)]
  have rec: "\<exists>q' row'. divnorm_fix tabb i (q - 1) (p @ row2 @ t' # z) = Some (q', p @ row' @ 0 # z) \<and> length row' = ?n \<and>
      A = uint q' * ?b + lval row' \<and> lval row' < ?b" if "lval row2 + BB ^ ?n * uint t' = W + ?b" for t'
  proof (rule less.hyps[OF _ v(1) less.prems(2)])
    show "nat (BB ^ (?n + 1) - (lval row2 + BB ^ ?n * uint t')) < nat (BB ^ (?n + 1) - (lval row + BB ^ ?n * uint t))"
      using W b unfolding that by (simp add: W_def)
    show "A = uint (q - 1) * ?b + (lval row2 + BB ^ ?n * uint t' - BB ^ (?n + 1))"
      using less.prems(3) unfolding that q1 by (simp add: W_def algebra_simps)
  qed
  show ?case
  proof (cases "c = 0")
    case True
    then show ?thesis using rec[of t] v(2) ops(1,2) m v(1)
      by (subst divnorm_fix.simps) (simp add: W_def)
  next
    case False
    have c1: "uint c = 1" using limb_pos[OF False] v(3) by linarith
    have eq: "divnorm_fix tabb i q (p @ row @ t # z) =
        (if t + 1 = 0 then Some (q - 1, p @ row2 @ 0 # z) else divnorm_fix tabb i (q - 1) (p @ row2 @ (t + 1) # z))"
      using False ops m v(1) by (subst divnorm_fix.simps) simp
    show ?thesis
    proof (cases "t + 1 = 0")
      case True
      have "lval row2 = W + ?b - BB ^ (?n + 1)"
        using v(2) c1 unfolding W_def limb_step(3)[OF True] by (simp add: algebra_simps)
      moreover then have "A = uint (q - 1) * ?b + lval row2" using less.prems(3) unfolding q1 by (simp add: W_def algebra_simps)
      ultimately show ?thesis using eq True v(1) W by simp
    next
      case False
      then show ?thesis using eq rec[of "t + 1"] v(2) c1 limb_step(2)[OF False] by (simp add: W_def algebra_simps)
    qed
  qed
qed

text \<open>The guess for a quotient limb is never too small.\<close>

lemma divnorm_guess_val:
  assumes b1: "BB \<le> 2 * uint b1" and inv: "v = 0 \<or> udiv1norm_init b1 = Some v"
  shows "\<exists>q. divnorm_guess b1 v ah al = Some q \<and>
    (if uint b1 \<le> uint ah then uint q = BB - 1 else uint ah * BB + uint al < (uint q + 1) * uint b1)"
proof -
  have b: "0 < uint b1" using b1 BB_pos(1) by linarith
  then have b0: "b1 \<noteq> 0" by auto
  consider (big) "b1 \<le> ah" | (inv) "ah < b1" "v \<noteq> 0" | (div) "ah < b1" "v = 0" by fastforce
  then show ?thesis
  proof cases
    case big
    then show ?thesis by (simp add: divnorm_guess_def minus_one_limb word_le_def)
  next
    case inv
    then have lt: "uint ah < uint b1" and vi: "udiv1norm_init b1 = Some v" using assms(2) by (simp_all add: word_less_def)
    obtain q r where u: "udiv1norm ah al b1 v = (q, r)" by fastforce
    have "uint ah * BB + uint al < (uint q + 1) * uint b1"
      using udiv1norm_val[OF b1 vi lt u] by (simp add: algebra_simps)
    moreover have "\<not> b1 \<le> ah" using lt by (simp add: word_le_def)
    ultimately show ?thesis using inv lt u by (simp add: divnorm_guess_def)
  next
    case div
    then have lt: "uint ah < uint b1" by (simp add: word_less_def)
    obtain q r where l: "div1norm_loop b1 ah [al] = ([q], r)" by (simp add: Let_def)
    then have q: "q = ucast (join ah al div ucast b1)" by (simp add: Let_def)
    have "uint ah * BB + uint al < (uint q + 1) * uint b1"
      using div1norm_loop_val[OF b lt l] by (simp add: algebra_simps)
    moreover have "\<not> b1 \<le> ah" using lt by (simp add: word_le_def)
    ultimately show ?thesis using div lt b0 q by (simp add: divnorm_guess_def)
  qed
qed

lemma guess_large_enough:
  fixes q ah :: limb
  assumes A: "lval row + BB ^ length row * uint ah < BB * lval tabb" and n: "length row = length tabb" "tabb \<noteq> []"
    and g: "if uint (last tabb) \<le> uint ah then uint q = BB - 1 else uint ah * BB + uint (last row) < (uint q + 1) * uint (last tabb)"
  shows "lval row + BB ^ length row * uint ah - uint q * lval tabb < lval tabb"
proof (cases "uint (last tabb) \<le> uint ah")
  case True
  then have q: "uint q = BB - 1" using g by simp
  show ?thesis using A unfolding q by (simp add: left_diff_distrib)
next
  case False
  obtain row0 al where row: "row = row0 @ [al]" using n by (cases row rule: rev_cases) auto
  obtain b0 b1 where b: "tabb = b0 @ [b1]" using n(2) by (cases tabb rule: rev_cases) auto
  let ?P = "BB ^ length row0"
  have l: "length b0 = length row0" using n(1) row b by simp
  have "lval row + BB ^ length row * uint ah = lval row0 + ?P * (uint ah * BB + uint al)"
    unfolding row by (simp add: lval_append algebra_simps)
  also have "\<dots> < ?P * (uint ah * BB + uint al + 1)" using lval_less[of row0] by (simp add: algebra_simps)
  also have "\<dots> \<le> ?P * ((uint q + 1) * uint b1)" using g False by (intro mult_left_mono) (auto simp: row b)
  also have "\<dots> = (uint q + 1) * (?P * uint b1)" by simp
  also have "\<dots> \<le> (uint q + 1) * lval tabb"
    using lval_nonneg[of b0] limb_bounds(1)[of q] by (intro mult_left_mono) (auto simp: b lval_append l)
  finally show ?thesis by (simp add: algebra_simps)
qed

lemma normalised_pos:
  assumes "tabb \<noteq> []" "BB \<le> 2 * uint (last tabb)"
  shows "0 < lval tabb"
proof -
  have "lval tabb = lval (butlast tabb) + BB ^ length (butlast tabb) * uint (last tabb)"
    using assms(1) lval_snoc[of "butlast tabb" "last tabb"] by simp
  moreover have "0 < uint (last tabb)" using assms(2) BB_pos(1) by linarith
  then have "0 < BB ^ length (butlast tabb) * uint (last tabb)" by simp
  ultimately show ?thesis using lval_nonneg[of "butlast tabb"] by linarith
qed

text \<open>Subtracting the multiple of the divisor from the window, with the borrow out of its top limb.\<close>

lemma window_sub:
  assumes "length row = length tabb" "mp_sub_mul1 row tabb q = (row2, r)"
  shows "length row2 = length tabb" "lval row2 + BB ^ length tabb * uint (t - r) =
    lval row + BB ^ length tabb * uint t - uint q * lval tabb + BB ^ (length tabb + 1) * of_bool (t - r > t)"
proof -
  let ?n = "length tabb"
  have v: "length row2 = ?n" "lval row2 - BB ^ ?n * uint r = lval row - lval tabb * uint q"
    using mp_sub_mul1_val[OF assms] by simp_all
  show "length row2 = ?n" by (rule v)
  have "BB ^ ?n * (uint (t - r) - BB * of_bool (t - r > t)) = BB ^ ?n * (uint t - uint r)" unfolding limb_sub ..
  then show "lval row2 + BB ^ ?n * uint (t - r) =
      lval row + BB ^ ?n * uint t - uint q * lval tabb + BB ^ (?n + 1) * of_bool (t - r > t)"
    using v(2) by (simp add: algebra_simps)
qed

lemma divnorm_window:
  assumes n: "tabb \<noteq> []" "length row = length tabb" "length p = i" and b1: "BB \<le> 2 * uint (last tabb)"
    and inv: "v = 0 \<or> udiv1norm_init (last tabb) = Some v"
    and A: "A = lval row + BB ^ length tabb * uint t" "A < BB * lval tabb"
  shows "\<exists>q' row' t'. divnorm_step tabb (last tabb) v i (p @ row @ t # z) = Some (q', p @ row' @ t' # z) \<and>
    length row' = length tabb \<and> A = uint q' * lval tabb + lval row' \<and> lval row' < lval tabb"
proof -
  let ?n = "length tabb"
  note ops = window_ops[OF n(3,2)]
  have al: "rd (p @ row @ t # z) (i + ?n - 1) = Some (last row)"
    using n by (cases row rule: rev_cases) (auto simp: rd_def nth_append)
  obtain q where q: "divnorm_guess (last tabb) v t (last row) = Some q"
      "if uint (last tabb) \<le> uint t then uint q = BB - 1 else uint t * BB + uint (last row) < (uint q + 1) * uint (last tabb)"
    using divnorm_guess_val[OF b1 inv] by blast
  have T: "A - uint q * lval tabb < lval tabb" using guess_large_enough[OF _ n(2,1) q(2)] A by (simp add: n(2))
  obtain row2 r where m: "mp_sub_mul1 row tabb q = (row2, r)" by fastforce
  note v = window_sub[OF n(2) m] and ops2 = window_ops[OF n(3) window_sub(1)[OF n(2) m]]
  have eq: "divnorm_step tabb (last tabb) v i (p @ row @ t # z) =
      (if t - r > t then divnorm_fix tabb i q (p @ row2 @ (t - r) # z) else Some (q, p @ row2 @ (t - r) # z))"
    using al q(1) m ops ops2 v(1) unfolding divnorm_step_def by (simp add: Let_def)
  show ?thesis
  proof (cases "t - r > t")
    case True
    have "A = uint q * lval tabb + (lval row2 + BB ^ ?n * uint (t - r) - BB ^ (?n + 1))"
      using v(2)[of t] True by (simp add: A(1))
    moreover have "0 \<le> A" using lval_nonneg[of row] by (simp add: A(1))
    ultimately show ?thesis using divnorm_fix_val[OF normalised_pos[OF n(1) b1] n(3) v(1), of A q "t - r" z] eq True by auto
  next
    case False
    then have new: "lval row2 + BB ^ ?n * uint (t - r) = A - uint q * lval tabb" using v(2)[of t] A(1) by simp
    have "\<not> 1 \<le> uint (t - r)"
    proof
      assume "1 \<le> uint (t - r)"
      then have "BB ^ ?n * 1 \<le> BB ^ ?n * uint (t - r)" by (intro mult_left_mono) simp_all
      then show False using new T lval_less[of tabb] lval_nonneg[of row2] by linarith
    qed
    then have "uint (t - r) = 0" using limb_bounds(1)[of "t - r"] by linarith
    then show ?thesis using eq False v(1) new T by (intro exI[of _ q] exI[of _ row2] exI[of _ "t - r"]) simp
  qed
qed

lemma divnorm_step_val:
  assumes n: "tabb \<noteq> []" "i + length tabb < length taba" and b1: "BB \<le> 2 * uint (last tabb)"
    and inv: "v = 0 \<or> udiv1norm_init (last tabb) = Some v"
    and A: "lval (slice i (length tabb + 1) taba) < BB * lval tabb"
  shows "\<exists>q taba'. divnorm_step tabb (last tabb) v i taba = Some (q, taba') \<and> length taba' = length taba \<and>
    take i taba' = take i taba \<and> lval (slice i (length tabb + 1) taba) = uint q * lval tabb + lval (slice i (length tabb) taba') \<and>
    lval (slice i (length tabb) taba') < lval tabb"
proof -
  let ?n = "length tabb"
  define p row t z where "p = take i taba" and "row = slice i ?n taba" and "t = taba ! (i + ?n)" and "z = drop (i + ?n + 1) taba"
  have W: "taba = p @ row @ t # z" "lval (slice i (?n + 1) taba) = lval row + BB ^ ?n * uint t"
    using window[OF n(2)] unfolding p_def row_def t_def z_def by simp_all
  have l: "length p = i" "length row = ?n" using n(2) by (simp_all add: p_def row_def)
  obtain q' row' t' where f: "divnorm_step tabb (last tabb) v i taba = Some (q', p @ row' @ t' # z)" "length row' = ?n"
      "lval (slice i (?n + 1) taba) = uint q' * lval tabb + lval row'" "lval row' < lval tabb"
    using divnorm_window[OF n(1) l(2,1) b1 inv W(2) A, of z] unfolding W(1)[symmetric] by blast
  have "take i (p @ row' @ t' # z) = take i taba" "slice i ?n (p @ row' @ t' # z) = row'"
    using l f(2) by (simp_all add: slice_def p_def[symmetric])
  moreover have "length (p @ row' @ t' # z) = length taba" using f(2) l(2) by (subst W(1)) simp
  ultimately show ?thesis using f by (intro exI[of _ q'] exI[of _ "p @ row' @ t' # z"]) simp
qed

lemma divnorm_loop_val:
  assumes n: "tabb \<noteq> []" and b1: "BB \<le> 2 * uint (last tabb)" and inv: "v = 0 \<or> udiv1norm_init (last tabb) = Some v"
  shows "i + length tabb \<le> length taba \<Longrightarrow> i \<le> length tabq \<Longrightarrow> lval (slice i (length tabb) taba) < lval tabb \<Longrightarrow>
    \<exists>tabq' taba'. divnorm_loop tabb (last tabb) v i tabq taba = Some (tabq', taba') \<and> length tabq' = length tabq \<and>
      length taba' = length taba \<and> drop i tabq' = drop i tabq \<and>
      lval (take i tabq') * lval tabb + lval (take (length tabb) taba') = lval (take (i + length tabb) taba) \<and>
      lval (take (length tabb) taba') < lval tabb"
proof (induction i arbitrary: tabq taba)
  case 0
  then show ?case by (simp add: slice_def)
next
  case (Suc i)
  let ?n = "length tabb"
  have s: "slice i (?n + 1) taba = taba ! i # slice (Suc i) ?n taba" using Suc.prems(1) by (simp add: slice_def Cons_nth_drop_Suc[symmetric])
  have "BB * (lval (slice (Suc i) ?n taba) + 1) \<le> BB * lval tabb" using Suc.prems(3) by (intro mult_left_mono) simp_all
  then have A: "lval (slice i (?n + 1) taba) < BB * lval tabb" unfolding s using limb_bounds(2)[of "taba ! i"] by (simp add: algebra_simps)
  obtain q t1 where st: "divnorm_step tabb (last tabb) v i taba = Some (q, t1)" "length t1 = length taba" "take i t1 = take i taba"
      "lval (slice i (?n + 1) taba) = uint q * lval tabb + lval (slice i ?n t1)" "lval (slice i ?n t1) < lval tabb"
    using divnorm_step_val[OF n _ b1 inv A] Suc.prems(1) by auto
  let ?q1 = "tabq[i := q]"
  obtain tabq' taba' where IH: "divnorm_loop tabb (last tabb) v i ?q1 t1 = Some (tabq', taba')" "length tabq' = length tabq"
      "length taba' = length taba" "drop i tabq' = drop i ?q1"
      "lval (take i tabq') * lval tabb + lval (take ?n taba') = lval (take (i + ?n) t1)" "lval (take ?n taba') < lval tabb"
    using Suc.IH[of t1 ?q1] Suc.prems(1,2) st(2,5) by auto
  have d: "drop i ?q1 = q # drop (Suc i) tabq" using Suc.prems(2) by (simp add: Cons_nth_drop_Suc[symmetric] upd_conv_take_nth_drop)
  then have dq: "drop (Suc i) tabq' = drop (Suc i) tabq" "tabq' ! i = q"
    using IH(2,4) Suc.prems(2) Cons_nth_drop_Suc[of i tabq'] by (auto simp: drop_Suc tl_drop)
  have "lval (take (Suc i) tabq') = lval (take i tabq') + BB ^ i * uint q"
    using dq(2) IH(2) Suc.prems(2) by (simp add: take_Suc_conv_app_nth lval_snoc)
  moreover have "lval (take (i + ?n) t1) = lval (take i taba) + BB ^ i * lval (slice i ?n t1)"
    using st(2,3) Suc.prems(1) by (simp add: take_add lval_append slice_def)
  moreover have "lval (take (Suc i + ?n) taba) = lval (take i taba) + BB ^ i * lval (slice i (?n + 1) taba)"
    using Suc.prems(1) take_add[of i "?n + 1" taba] by (simp add: lval_append slice_def)
  ultimately have "lval (take (Suc i) tabq') * lval tabb + lval (take ?n taba') = lval (take (Suc i + ?n) taba)"
    using IH(5) unfolding st(4) by (simp add: algebra_simps)
  then show ?case using st(1) IH dq(1) Suc.prems(2) by (simp add: wr_def)
qed

text \<open>The first step leaves less than the divisor at the top of the array.\<close>

lemma normalised_half:
  assumes "tabb \<noteq> []" "BB \<le> 2 * uint (last tabb)"
  shows "BB ^ length tabb \<le> 2 * lval tabb"
proof -
  obtain b0 b1 where b: "tabb = b0 @ [b1]" using assms(1) by (cases tabb rule: rev_cases) auto
  have "BB ^ length b0 * BB \<le> BB ^ length b0 * (2 * uint b1)" using assms(2) b by (intro mult_left_mono) simp_all
  moreover have "lval tabb = lval b0 + BB ^ length b0 * uint b1" "BB ^ length tabb = BB ^ length b0 * BB" by (simp_all add: b lval_append)
  ultimately show ?thesis using lval_nonneg[of b0] by linarith
qed

lemma divnorm_first_step:
  assumes n: "tabb \<noteq> []" "length row = length tabb" and b1: "BB \<le> 2 * uint (last tabb)"
  defines "q \<equiv> divnorm_first (rev row) (rev tabb)"
  defines "row' \<equiv> if q \<noteq> 0 then fst (mp_sub row tabb 0) else row"
  shows "length row' = length tabb" "lval row = uint q * lval tabb + lval row'" "lval row' < lval tabb"
proof -
  have q: "q = (if lval row < lval tabb then 0 else 1)" unfolding q_def by (rule divnorm_first_val[OF n(2)])
  have "length row' = length tabb \<and> lval row = uint q * lval tabb + lval row' \<and> lval row' < lval tabb"
  proof (cases "lval row < lval tabb")
    case False
    obtain r c where m: "mp_sub row tabb 0 = (r, c)" by fastforce
    have v: "length r = length row" "lval r - BB ^ length row * uint c = lval row - lval tabb" "uint c \<le> 1"
      using mp_sub_val[OF n(2) _ m] by simp_all
    have "\<not> 1 \<le> uint c"
    proof
      assume "1 \<le> uint c"
      then have "BB ^ length row * 1 \<le> BB ^ length row * uint c" by (intro mult_left_mono) simp_all
      then show False using v(2) False lval_less[of r] unfolding v(1) by linarith
    qed
    then have "uint c = 0" using limb_bounds(1)[of c] by linarith
    then show ?thesis using v False m q n(2) lval_less[of row] normalised_half[OF n(1) b1] by (simp add: row'_def)
  qed (simp add: q row'_def n(2))
  then show "length row' = length tabb" "lval row = uint q * lval tabb + lval row'" "lval row' < lval tabb" by blast+
qed

lemma mp_divnorm_val:
  assumes n: "2 \<le> length tabb" "length tabb \<le> length taba" and q: "length tabq = length taba - length tabb + 1"
    and b1: "BB \<le> 2 * uint (last tabb)" and small: "min (length taba - length tabb) (length tabb) < DIVNORM_LARGE_THRESHOLD"
  shows "\<exists>tabq' taba'. mp_divnorm large tabq taba tabb = Some (tabq', taba') \<and>
    lval tabq' * lval tabb + lval (take (length tabb) taba') = lval taba \<and> lval (take (length tabb) taba') < lval tabb"
proof -
  let ?nb = "length tabb" and ?n = "length taba - length tabb"
  have ne: "tabb \<noteq> []" using n(1) by auto
  define p row where "p = take ?n taba" and "row = drop ?n taba"
  have t: "taba = p @ row" "length p = ?n" "length row = ?nb" using n(2) by (simp_all add: p_def row_def)
  define q where "q = divnorm_first (rev row) (rev tabb)"
  define row' where "row' = (if q \<noteq> 0 then fst (mp_sub row tabb 0) else row)"
  note first = divnorm_first_step[OF ne t(3) b1, folded q_def, folded row'_def]
  obtain v where v: "(if ?n \<ge> UDIV1NORM_THRESHOLD then udiv1norm_init (last tabb) else Some 0) = Some v" "v = 0 \<or> udiv1norm_init (last tabb) = Some v"
    using udiv1norm_init_val[OF b1] by (cases "?n \<ge> UDIV1NORM_THRESHOLD") auto
  have l: "?n + ?nb \<le> length (p @ row')" "?n \<le> length (tabq[?n := q])" "lval (slice ?n ?nb (p @ row')) < lval tabb"
    using t n(2) q first by (simp_all add: slice_def)
  obtain tabq' taba' where L: "divnorm_loop tabb (last tabb) v ?n (tabq[?n := q]) (p @ row') = Some (tabq', taba')"
      "length tabq' = length tabq" "drop ?n tabq' = drop ?n (tabq[?n := q])"
      "lval (take ?n tabq') * lval tabb + lval (take ?nb taba') = lval (take (?n + ?nb) (p @ row'))" "lval (take ?nb taba') < lval tabb"
    using divnorm_loop_val[OF ne b1 v(2) l] by auto
  have "drop ?n tabq' = [q]" using q L(3) by (simp add: Cons_nth_drop_Suc[symmetric] upd_conv_take_nth_drop)
  then have "take ?n tabq' @ [q] = tabq'" by (metis append_take_drop_id)
  then have "lval tabq' = lval (take ?n tabq') + BB ^ ?n * uint q" using L(2) q lval_snoc[of "take ?n tabq'" q] by simp
  then have "lval tabq' * lval tabb + lval (take ?nb taba') = lval p + BB ^ ?n * (uint q * lval tabb + lval row')"
    using L(4) first(1) t(2) by (simp add: lval_append algebra_simps)
  then have val: "lval tabq' * lval tabb + lval (take ?nb taba') = lval taba"
    unfolding first(2)[symmetric] using lval_append[of p row] unfolding t(1)[symmetric] t(2) by simp
  have "rd tabb (?nb - 1) = Some (last tabb)" using ne by (simp add: rd_def last_conv_nth)
  moreover have "region taba ?n ?nb = Some row" using n(2) by (simp add: region_def slice_def row_def)
  moreover have "(if q \<noteq> 0 then memcpy_at taba ?n (fst (mp_sub row tabb 0)) else Some taba) = Some (p @ row')"
  proof -
    have "memcpy_at (p @ row) (length p) row' = Some (p @ row')" using t(3) first(1) by (simp add: memcpy_at_def)
    then show ?thesis unfolding t(1)[symmetric] t(2) by (auto simp: row'_def p_def row_def)
  qed
  moreover have "wr tabq ?n q = Some (tabq[?n := q])" using q by (simp add: wr_def)
  moreover have "?nb \<noteq> 1" "\<not> length taba < ?nb" "\<not> min ?n ?nb \<ge> DIVNORM_LARGE_THRESHOLD" using n small by linarith+
  ultimately have "mp_divnorm large tabq taba tabb = Some (tabq', taba')"
    using v(1) L(1) unfolding mp_divnorm_def Let_def by (simp only: if_False bind.bind_lunit q_def[symmetric])
  then show ?thesis using val L(5) by blast
qed

text \<open>
  C16. Dividing a limb array by a normalised divisor (top bit set) gives the quotient and leaves
  the remainder in place: the operands are the quotient times the divisor plus the remainder,
  which is smaller than the divisor. Both the precomputed inverse and the plain division are
  covered, a one-limb divisor included, and the correction loop ends.
\<close>

theorem mp_divnorm_correct:
  assumes "tabb \<noteq> []" "length tabb \<le> length taba" "length tabq = length taba - length tabb + 1"
    and "2 ^ 63 \<le> uint (last tabb)" "min (length taba - length tabb) (length tabb) < DIVNORM_LARGE_THRESHOLD"
  shows "\<exists>tabq' taba'. mp_divnorm large tabq taba tabb = Some (tabq', taba') \<and>
    lval tabq' = lval taba div lval tabb \<and> lval (take (length tabb) taba') = lval taba mod lval tabb"
proof -
  have b1: "BB \<le> 2 * uint (last tabb)" using assms(4) by (simp add: BB_def)
  have "\<exists>tabq' taba'. mp_divnorm large tabq taba tabb = Some (tabq', taba') \<and>
    lval tabq' * lval tabb + lval (take (length tabb) taba') = lval taba \<and> lval (take (length tabb) taba') < lval tabb"
  proof (cases "length tabb = 1")
    case True
    then obtain b where b: "tabb = [b]" by (cases tabb) auto
    obtain q r where d: "mp_div1norm taba b 0 = Some (q, r)" "length q = length taba"
        "lval q * uint b + uint r = lval taba" "uint r < uint b"
      using mp_div1norm_val[of b 0 taba] b1 normalised_pos[OF assms(1) b1] b by auto
    then show ?thesis using assms(2,3) b by (cases taba) (auto simp: mp_divnorm_def rd_def wr_def memcpy_at_def)
  next
    case False
    then have "2 \<le> length tabb" using assms(1) by (cases tabb) (auto simp: Suc_le_eq)
    then show ?thesis using mp_divnorm_val[OF _ assms(2,3) b1 assms(5)] by blast
  qed
  then obtain tabq' taba' where r: "mp_divnorm large tabq taba tabb = Some (tabq', taba')"
    "lval taba = lval tabb * lval tabq' + lval (take (length tabb) taba')" "lval (take (length tabb) taba') < lval tabb"
    by (auto simp: mult.commute)
  have "lval taba div lval tabb = lval tabq'" using r(2,3) lval_nonneg[of "take (length tabb) taba'"] by (intro int_div_pos_eq) auto
  moreover have "lval taba mod lval tabb = lval (take (length tabb) taba')"
    using r(2,3) lval_nonneg[of "take (length tabb) taba'"] by (intro int_mod_pos_eq) auto
  ultimately show ?thesis using r(1) by auto
qed

theorem mp_divnorm_correct_witness:
  "\<exists>tabq' taba'. mp_divnorm (\<lambda>_ _ _. None) [0, 0] [1, 2, 3] [5, - 1] = Some (tabq', taba') \<and>
    lval tabq' = lval [1, 2, 3] div lval [5, - 1] \<and> lval (take (length [5, - 1 :: limb]) taba') = lval [1, 2, 3] mod lval [5, - 1]"
  by (rule mp_divnorm_correct) (simp_all add: DIVNORM_LARGE_THRESHOLD_def minus_one_limb BB_def)

end
