(* ===== verification/Js_Value.thy ===== *)
theory Js_Value
  imports Js_String_Conv Ta_Sort "HOL-Library.Log_Nat"
begin

text \<open>
  Values of the engine as the equality and the hash functions of \<^verbatim>\<open>quickjs.c\<close> see them: a tag and an
  integer, a double as its bit pattern, a string, or the address of an object or a symbol (the
  64-bit representation without NaN boxing). The big numbers are not part of the model.
\<close>

section \<open>Values\<close>

datatype js_val = VUndefined | VNull | VBool bool | VInt int | VFloat64 u64 | VStr js_string | VObject nat | VSymbol nat

fun js_tag :: "js_val \<Rightarrow> u32" where
  "js_tag (VSymbol _) = - 8"
| "js_tag (VStr _) = - 7"
| "js_tag (VObject _) = - 1"
| "js_tag (VInt _) = 0"
| "js_tag (VBool _) = 1"
| "js_tag VNull = 2"
| "js_tag VUndefined = 3"
| "js_tag (VFloat64 _) = 7"

text \<open>The double of a 32-bit integer: sign, exponent and the mantissa without its leading bit.\<close>

definition f64_of_int :: "int \<Rightarrow> u64" where
  "f64_of_int i =
     (if i = 0 then 0
      else let m = nat \<bar>i\<bar>; e = floorlog 2 m - 1 in
        word_of_int ((if i < 0 then 2 ^ 63 else 0) + (1023 + int e) * 2 ^ 52 + (int m - 2 ^ e) * 2 ^ (52 - e)))"

definition dbl_eq :: "u64 \<Rightarrow> u64 \<Rightarrow> bool" where
  "dbl_eq x y \<longleftrightarrow> \<not> isnan x \<and> \<not> isnan y \<and> dbl_key x = dbl_key y"

section \<open>Equality\<close>

datatype eq_mode = JS_EQ_STRICT | JS_EQ_SAME_VALUE | JS_EQ_SAME_VALUE_ZERO

definition number_test :: "eq_mode \<Rightarrow> u64 \<Rightarrow> u64 \<Rightarrow> bool" where
  "number_test mode d1 d2 =
     (if mode \<noteq> JS_EQ_STRICT then
        (if isnan d1 \<or> isnan d2 then isnan d1 = isnan d2
         else if mode = JS_EQ_SAME_VALUE_ZERO then dbl_eq d1 d2
         else d1 = d2)
      else dbl_eq d1 d2)"

fun js_strict_eq2 :: "js_val \<Rightarrow> js_val \<Rightarrow> eq_mode \<Rightarrow> bool option" where
  "js_strict_eq2 (VBool x) (VBool y) mode = Some (x = y)"
| "js_strict_eq2 VNull VNull mode = Some True"
| "js_strict_eq2 VUndefined VUndefined mode = Some True"
| "js_strict_eq2 (VStr p1) (VStr p2) mode = map_option (\<lambda>r. r = 0) (js_string_compare p1 p2)"
| "js_strict_eq2 (VSymbol p1) (VSymbol p2) mode = Some (p1 = p2)"
| "js_strict_eq2 (VObject p1) (VObject p2) mode = Some (p1 = p2)"
| "js_strict_eq2 (VInt i) (VInt j) mode = Some (number_test mode (f64_of_int i) (f64_of_int j))"
| "js_strict_eq2 (VInt i) (VFloat64 d) mode = Some (number_test mode (f64_of_int i) d)"
| "js_strict_eq2 (VFloat64 d) (VFloat64 d') mode = Some (number_test mode d d')"
| "js_strict_eq2 (VFloat64 d) (VInt i) mode = Some (number_test mode d (f64_of_int i))"
| "js_strict_eq2 _ _ mode = Some False"

definition js_same_value_zero :: "js_val \<Rightarrow> js_val \<Rightarrow> bool option" where
  "js_same_value_zero op1 op2 = js_strict_eq2 op1 op2 JS_EQ_SAME_VALUE_ZERO"

section \<open>Hashing\<close>

fun hash_string8 :: "u8 list \<Rightarrow> u32 \<Rightarrow> u32" where
  "hash_string8 [] h = h"
| "hash_string8 (c # str) h = hash_string8 str (h * 263 + ucast c)"

fun hash_string16 :: "u16 list \<Rightarrow> u32 \<Rightarrow> u32" where
  "hash_string16 [] h = h"
| "hash_string16 (c # str) h = hash_string16 str (h * 263 + ucast c)"

definition hash_string :: "js_string \<Rightarrow> u32 \<Rightarrow> u32 option" where
  "hash_string p h =
     (if is_wide_char p then do { cs \<leftarrow> read16 (str_u p) 0 (str_len p); Some (hash_string16 cs h) }
      else do { bs \<leftarrow> read8 (str_u p) 0 (str_len p); Some (hash_string8 bs h) })"

definition map_normalize_key :: "js_val \<Rightarrow> js_val" where
  "map_normalize_key key = (case key of VFloat64 d \<Rightarrow> if dbl_eq d 0 then VInt 0 else key | _ \<Rightarrow> key)"

definition JS_FLOAT64_NAN :: u64 where
  "JS_FLOAT64_NAN = 0x7FF8000000000000"

definition hash_float64 :: "u64 \<Rightarrow> u32" where
  "hash_float64 d = (ucast d XOR ucast (drop_bit 32 d)) * 3163"

text \<open>The product of an integer key is a signed computation; \<^const>\<open>None\<close> when it overflows.\<close>

definition map_hash_key :: "js_val \<Rightarrow> u32 option" where
  "map_hash_key key = do {
     h \<leftarrow> (case key of
        VBool b \<Rightarrow> Some (of_bool b)
      | VStr p \<Rightarrow> hash_string p 0
      | VObject p \<Rightarrow> Some (ucast ((of_nat p :: u64) * 3163))
      | VSymbol p \<Rightarrow> Some (ucast ((of_nat p :: u64) * 3163))
      | VInt i \<Rightarrow> if - (2 ^ 31) \<le> i * 3163 \<and> i * 3163 < 2 ^ 31 then Some (hash_float64 (f64_of_int (i * 3163))) else None
      | VFloat64 d \<Rightarrow> Some (hash_float64 (if isnan d then JS_FLOAT64_NAN else d))
      | _ \<Rightarrow> Some 0);
     Some (h XOR js_tag key) }"

section \<open>The double of an integer\<close>

text \<open>The exponent computed on integers, for evaluation.\<close>

function ilog2 :: "int \<Rightarrow> nat" where
  "ilog2 x = (if x < 2 then 0 else Suc (ilog2 (x div 2)))"
  by auto
termination by (relation "measure nat") auto

declare ilog2.simps [simp del]

lemma floorlog_ilog2: "0 < x \<Longrightarrow> floorlog 2 (nat x) = Suc (ilog2 x)"
proof (induction x rule: ilog2.induct)
  case (1 x)
  have half: "nat x div 2 = nat (x div 2)" using 1(2) by (simp add: nat_div_distrib)
  show ?case
  proof (cases "x < 2")
    case True
    then have "x = 1" using 1(2) by simp
    then show ?thesis by (simp add: ilog2.simps compute_floorlog)
  next
    case False
    then have "floorlog 2 (nat x) = Suc (floorlog 2 (nat (x div 2)))" using 1(2) half by (subst compute_floorlog) simp
    then show ?thesis using 1(1)[OF False] False by (subst ilog2.simps) simp
  qed
qed

lemma f64_of_int_code [code]:
  "f64_of_int i =
     (if i = 0 then 0
      else let e = ilog2 \<bar>i\<bar> in word_of_int ((if i < 0 then 2 ^ 63 else 0) + (1023 + int e) * 2 ^ 52 + (\<bar>i\<bar> - 2 ^ e) * 2 ^ (52 - e)))"
  using floorlog_ilog2[of "\<bar>i\<bar>"] by (simp add: f64_of_int_def Let_def)

lemma f64_exponent:
  assumes "0 < m" "m < 2 ^ 32"
  defines "e \<equiv> floorlog 2 m - 1"
  shows "2 ^ e \<le> int m" "int m < 2 * 2 ^ e" "e < 32"
proof -
  have f: "2 ^ e \<le> m" "m < 2 ^ floorlog 2 m" using floorlog_bounds[of m 2] assms(1) by (auto simp: e_def)
  have "floorlog 2 m \<noteq> 0" using f(2) assms(1) by (cases "floorlog 2 m = 0") auto
  then have "floorlog 2 m = Suc e" by (simp add: e_def)
  then have m: "m < 2 * 2 ^ e" using f(2) by simp
  have "(2 :: nat) ^ e < 2 ^ 32" using f(1) assms(2) by linarith
  then show "e < 32" by (rule power_less_imp_less_exp[rotated]) simp
  show "2 ^ e \<le> int m" "int m < 2 * 2 ^ e" using f(1) m
    by (metis of_nat_le_iff of_nat_power of_nat_numeral, metis of_nat_less_iff of_nat_mult of_nat_power of_nat_numeral)
qed

definition f64_mag :: "nat \<Rightarrow> int" where
  "f64_mag m = (let e = floorlog 2 m - 1 in (1023 + int e) * 2 ^ 52 + (int m - 2 ^ e) * 2 ^ (52 - e))"

lemma f64_mag_exponent:
  assumes "0 < m" "m < 2 ^ 32"
  defines "e \<equiv> floorlog 2 m - 1"
  shows "f64_mag m div 2 ^ 52 = 1023 + int e" "f64_mag m mod 2 ^ 52 = (int m - 2 ^ e) * 2 ^ (52 - e)"
proof -
  note b = f64_exponent[OF assms(1,2), folded e_def]
  let ?r = "(int m - 2 ^ e) * 2 ^ (52 - e)"
  have "?r < 2 ^ e * 2 ^ (52 - e)" using b(2) by (intro mult_strict_right_mono) auto
  also have "\<dots> = (2 :: int) ^ 52" using b(3) by (simp flip: power_add)
  finally have r: "0 \<le> ?r" "?r < 2 ^ 52" using b(1) by auto
  have v: "f64_mag m = 2 ^ 52 * (1023 + int e) + ?r" by (simp add: f64_mag_def Let_def e_def)
  show "f64_mag m div 2 ^ 52 = 1023 + int e" "f64_mag m mod 2 ^ 52 = ?r"
    using int_div_pos_eq[OF v r] int_mod_pos_eq[OF v r] by simp_all
qed

lemma f64_mag_bounds:
  assumes "0 < m" "m < 2 ^ 32"
  shows "0 < f64_mag m" "f64_mag m < 2047 * 2 ^ 52"
proof -
  have e: "f64_mag m div 2 ^ 52 \<le> 1055" "1023 \<le> f64_mag m div 2 ^ 52"
    using f64_mag_exponent(1)[OF assms] f64_exponent(3)[OF assms] by simp_all
  then show "0 < f64_mag m" "f64_mag m < 2047 * 2 ^ 52"
    using mult_div_mod_eq[of "2 ^ 52" "f64_mag m"] pos_mod_bound[of "2 ^ 52" "f64_mag m"] pos_mod_sign[of "2 ^ 52" "f64_mag m"] by simp_all
qed

lemma f64_mag_inj:
  assumes "0 < m" "m < 2 ^ 32" "0 < n" "n < 2 ^ 32" "f64_mag m = f64_mag n"
  shows "m = n"
proof -
  have e: "floorlog 2 m - 1 = floorlog 2 n - 1"
    using f64_mag_exponent(1)[OF assms(1,2)] f64_mag_exponent(1)[OF assms(3,4)] assms(5) by simp
  then have "(int m - 2 ^ (floorlog 2 n - 1)) * 2 ^ (52 - (floorlog 2 n - 1)) = (int n - 2 ^ (floorlog 2 n - 1)) * 2 ^ (52 - (floorlog 2 n - 1))"
    using f64_mag_exponent(2)[OF assms(1,2)] f64_mag_exponent(2)[OF assms(3,4)] assms(5) by simp
  then show ?thesis by simp
qed

lemma f64_of_int_parts:
  assumes "\<bar>i\<bar> < 2 ^ 32"
  shows "uint (take_bit 63 (f64_of_int i)) = (if i = 0 then 0 else f64_mag (nat \<bar>i\<bar>))" "signbit (f64_of_int i) \<longleftrightarrow> i < 0"
proof -
  define M where "M = (if i = 0 then 0 else f64_mag (nat \<bar>i\<bar>))"
  have M: "0 \<le> M" "M < 2 ^ 63" "i < 0 \<Longrightarrow> 0 < M" using f64_mag_bounds[of "nat \<bar>i\<bar>"] assms by (auto simp: M_def nat_less_iff)
  have f: "f64_of_int i = word_of_int ((if i < 0 then 2 ^ 63 else 0) + M)"
    by (auto simp: f64_of_int_def M_def f64_mag_def Let_def add.assoc)
  have u: "uint (f64_of_int i) = (if i < 0 then 2 ^ 63 else 0) + M" unfolding f uint_word_of_int using M by simp
  have "uint (take_bit 63 (f64_of_int i)) = uint (f64_of_int i) mod 2 ^ 63" unfolding unsigned_take_bit_eq by (simp add: take_bit_eq_mod)
  also have "\<dots> = M" unfolding u using M by simp
  finally show "uint (take_bit 63 (f64_of_int i)) = (if i = 0 then 0 else f64_mag (nat \<bar>i\<bar>))" by (simp add: M_def)
  have "signbit (f64_of_int i) \<longleftrightarrow> odd (uint (f64_of_int i) div 2 ^ 63)" 
    using bit_iff_odd[of "uint (f64_of_int i)" 63] by (simp only: signbit_def bit_uint_iff) simp
  also have "\<dots> \<longleftrightarrow> i < 0" unfolding u using M by simp
  finally show "signbit (f64_of_int i) \<longleftrightarrow> i < 0" .
qed

end
