(* ===== verification/Js_Map_Key.thy ===== *)
theory Js_Map_Key
  imports Js_Value
begin

text \<open>
  The keys of \<^verbatim>\<open>Map\<close> and \<^verbatim>\<open>Set\<close>: which keys the hash function and the equality of \<^verbatim>\<open>quickjs.c\<close> treat
  consistently, and the canonical form under which equal keys are equal.
\<close>

section \<open>Canonical keys\<close>

datatype ckey = CUndefined | CNull | CBool bool | CNum u64 | CStr "u16 list" | CObj nat | CSym nat

fun canon :: "js_val \<Rightarrow> ckey" where
  "canon VUndefined = CUndefined"
| "canon VNull = CNull"
| "canon (VBool b) = CBool b"
| "canon (VInt i) = CNum (f64_of_int i)"
| "canon (VFloat64 d) = CNum (if isnan d then JS_FLOAT64_NAN else d)"
| "canon (VStr p) = CStr (str_units p)"
| "canon (VObject p) = CObj p"
| "canon (VSymbol p) = CSym p"

text \<open>
  An integer key must not overflow in the hash function, and a double must not be one of the
  32-bit integers, which have a representation of their own.
\<close>

fun key_ok :: "js_val \<Rightarrow> bool" where
  "key_ok (VInt i) \<longleftrightarrow> - (2 ^ 31) \<le> i * 3163 \<and> i * 3163 < 2 ^ 31"
| "key_ok (VFloat64 d) \<longleftrightarrow> (\<forall>i\<in>{- (2 ^ 31)..2 ^ 31 - 1}. \<not> dbl_eq d (f64_of_int i))"
| "key_ok (VStr p) \<longleftrightarrow> str_wf p"
| "key_ok _ \<longleftrightarrow> True"

section \<open>Doubles\<close>

lemma f64_of_int_not_nan: "\<bar>i\<bar> < 2 ^ 32 \<Longrightarrow> \<not> isnan (f64_of_int i)"
  using f64_of_int_parts(1)[of i] f64_mag_bounds(2)[of "nat \<bar>i\<bar>"]
  by (auto simp: isnan_def word_less_def nat_less_iff not_less split: if_splits)

lemma dbl_key_int: "\<bar>i\<bar> < 2 ^ 32 \<Longrightarrow> dbl_key (f64_of_int i) = sgn i * (if i = 0 then 0 else f64_mag (nat \<bar>i\<bar>))"
  using f64_of_int_parts[of i] by (simp add: dbl_key_def sgn_if)

lemma dbl_key_int_inj:
  assumes "\<bar>i\<bar> < 2 ^ 32" "\<bar>j\<bar> < 2 ^ 32" "dbl_key (f64_of_int i) = dbl_key (f64_of_int j)"
  shows "i = j"
proof -
  have pos: "0 < f64_mag (nat \<bar>k\<bar>)" if "k \<noteq> 0" "\<bar>k\<bar> < 2 ^ 32" for k using f64_mag_bounds(1)[of "nat \<bar>k\<bar>"] that by (simp add: nat_less_iff)
  have k: "sgn i * (if i = 0 then 0 else f64_mag (nat \<bar>i\<bar>)) = sgn j * (if j = 0 then 0 else f64_mag (nat \<bar>j\<bar>))"
    using assms dbl_key_int by simp
  have s: "sgn i = sgn j" using k pos[of i] pos[of j] assms(1,2) by (auto simp: sgn_if split: if_splits)
  show ?thesis
  proof (cases "i = 0")
    case True
    then show ?thesis using s by (simp add: sgn_if split: if_splits)
  next
    case False
    then have j: "j \<noteq> 0" using s by (auto simp: sgn_if split: if_splits)
    then have "f64_mag (nat \<bar>i\<bar>) = f64_mag (nat \<bar>j\<bar>)" using k s False by (auto simp: sgn_if split: if_splits)
    then have "\<bar>i\<bar> = \<bar>j\<bar>" using f64_mag_inj[of "nat \<bar>i\<bar>" "nat \<bar>j\<bar>"] False j assms(1,2) by (simp add: nat_less_iff)
    then show ?thesis using s False by (auto simp: sgn_if abs_if split: if_splits)
  qed
qed

lemma dbl_key_inj:
  assumes "take_bit 63 x \<noteq> 0" "dbl_key x = dbl_key y"
  shows "x = y"
proof -
  define a b where "a = uint (take_bit 63 x)" and "b = uint (take_bit 63 y)"
  have "0 < a" "0 \<le> b" using assms(1) uint_0_iff[of "take_bit 63 x"] by (auto simp: a_def b_def order_less_le)
  then have "signbit x = signbit y \<and> uint (take_bit 63 x) = uint (take_bit 63 y)"
    using assms(2) unfolding dbl_key_def a_def[symmetric] b_def[symmetric] by (auto split: if_splits)
  then have e: "bit x 63 = bit y 63" "take_bit 63 x = take_bit 63 y" by (simp_all add: signbit_def word_uint_eq_iff)
  show ?thesis
  proof (rule bit_word_eqI)
    fix n assume "n < LENGTH(64)"
    then show "bit x n = bit y n" using e(1) arg_cong[OF e(2), of "\<lambda>w. bit w n"] by (cases "n = 63") (auto simp: bit_take_bit_iff)
  qed
qed

lemma dbl_eq_refl: "\<not> isnan d \<Longrightarrow> dbl_eq d d"
  by (simp add: dbl_eq_def)

lemma key_ok_float:
  assumes "key_ok (VFloat64 d)"
  shows "take_bit 63 d \<noteq> 0" "- (2 ^ 31) \<le> i \<Longrightarrow> i < 2 ^ 31 \<Longrightarrow> \<not> dbl_eq d (f64_of_int i)"
proof -
  show i: "- (2 ^ 31) \<le> i \<Longrightarrow> i < 2 ^ 31 \<Longrightarrow> \<not> dbl_eq d (f64_of_int i)" for i using assms by simp
  show "take_bit 63 d \<noteq> 0"
  proof
    assume "take_bit 63 d = 0"
    then have "dbl_eq d (f64_of_int 0)" by (simp add: dbl_eq_def isnan_def dbl_key_def f64_of_int_def)
    then show False using i[of 0] by simp
  qed
qed

lemma key_ok_int: "key_ok (VInt i) \<Longrightarrow> \<bar>i\<bar> < 2 ^ 32 \<and> \<bar>i * 3163\<bar> < 2 ^ 32 \<and> - (2 ^ 31) \<le> i \<and> i < 2 ^ 31"
  by auto

section \<open>Equality and hash of canonical keys\<close>

lemma same_float:
  assumes "key_ok (VFloat64 d)" "key_ok (VFloat64 d')"
  shows "number_test JS_EQ_SAME_VALUE_ZERO d d' \<longleftrightarrow> canon (VFloat64 d) = canon (VFloat64 d')"
proof -
  have "isnan JS_FLOAT64_NAN" by (simp add: isnan_def JS_FLOAT64_NAN_def)
  then show ?thesis using dbl_key_inj[OF key_ok_float(1)[OF assms(1)], of d'] by (auto simp: number_test_def dbl_eq_def)
qed

lemma same_int_float:
  assumes "key_ok (VInt i)" "key_ok (VFloat64 d)"
  shows "\<not> number_test JS_EQ_SAME_VALUE_ZERO (f64_of_int i) d" "\<not> number_test JS_EQ_SAME_VALUE_ZERO d (f64_of_int i)"
    "canon (VInt i) \<noteq> canon (VFloat64 d)"
proof -
  have n: "\<not> isnan (f64_of_int i)" using f64_of_int_not_nan key_ok_int[OF assms(1)] by blast
  have ne: "\<not> dbl_eq d (f64_of_int i)" using key_ok_float(2)[OF assms(2)] key_ok_int[OF assms(1)] by blast
  have nan: "isnan JS_FLOAT64_NAN" by (simp add: isnan_def JS_FLOAT64_NAN_def)
  show "\<not> number_test JS_EQ_SAME_VALUE_ZERO (f64_of_int i) d" "\<not> number_test JS_EQ_SAME_VALUE_ZERO d (f64_of_int i)"
    using n ne by (auto simp: number_test_def dbl_eq_def)
  show "canon (VInt i) \<noteq> canon (VFloat64 d)" using n ne nan dbl_eq_refl[of d] by auto
qed

lemma same_int:
  assumes "key_ok (VInt i)" "key_ok (VInt j)"
  shows "number_test JS_EQ_SAME_VALUE_ZERO (f64_of_int i) (f64_of_int j) \<longleftrightarrow> i = j" "f64_of_int i = f64_of_int j \<longleftrightarrow> i = j"
  using f64_of_int_not_nan[of i] f64_of_int_not_nan[of j] dbl_key_int_inj[of i j] key_ok_int[OF assms(1)] key_ok_int[OF assms(2)]
  by (auto simp: number_test_def dbl_eq_def)

lemma same_value_zero_canon:
  assumes "key_ok v" "key_ok w"
  shows "js_same_value_zero v w = Some (canon v = canon w)"
proof (cases v; cases w)
  fix p q assume "v = VStr p" "w = VStr q"
  then show ?thesis using assms js_string_compare_units[of p q] units_cmp_order[of "str_units p" "str_units q"]
    by (simp add: js_same_value_zero_def)
next
  fix i j assume "v = VInt i" "w = VInt j"
  then show ?thesis using assms same_int[of i j] by (simp add: js_same_value_zero_def)
next
  fix d d' assume "v = VFloat64 d" "w = VFloat64 d'"
  then show ?thesis using assms same_float[of d d'] by (simp only: js_same_value_zero_def js_strict_eq2.simps)
next
  fix i d assume "v = VInt i" "w = VFloat64 d"
  then show ?thesis using assms same_int_float[of i d] by (simp only: js_same_value_zero_def js_strict_eq2.simps)
next
  fix i d assume "w = VInt i" "v = VFloat64 d"
  then show ?thesis using assms same_int_float[of i d] by (simp only: js_same_value_zero_def js_strict_eq2.simps) metis
qed (auto simp: js_same_value_zero_def)

lemma hash_string_units: "str_wf p \<Longrightarrow> hash_string p h = Some (hash_string16 (str_units p) h)"
proof -
  assume p: "str_wf p"
  have u: "take_bit 16 (ucast c) = (ucast c :: u32)" for c :: u8
    by (rule bit_word_eqI) (auto simp: bit_simps dest: bit_imp_le_length)
  have n: "hash_string8 bs h = hash_string16 (map ucast bs) h" for bs :: "u8 list" and h
    by (induction bs arbitrary: h) (simp_all add: unsigned_ucast_eq u)
  have s: "sub_units p 0 (str_len p) = str_units p" using str_units_length[OF p] by (simp add: sub_units_def)
  show ?thesis using read_units[OF p le0 order_refl] s n by (auto simp: hash_string_def)
qed

lemma hash_canon:
  assumes "key_ok v" "key_ok w" "canon v = canon w"
  shows "map_hash_key v = map_hash_key w" "map_hash_key v \<noteq> None"
proof -
  have d: "\<exists>h. map_hash_key k = Some h" if "key_ok k" for k
    using that by (cases k) (simp_all add: map_hash_key_def hash_string_units)
  then show "map_hash_key v \<noteq> None" using assms(1) by fastforce
  show "map_hash_key v = map_hash_key w"
  proof (cases v; cases w)
    fix i j assume "v = VInt i" "w = VInt j"
    then show ?thesis using assms same_int(2)[of i j] by simp
  next
    fix i e assume "v = VInt i" "w = VFloat64 e"
    then show ?thesis using assms same_int_float(3)[of i e] by simp
  next
    fix i e assume "w = VInt i" "v = VFloat64 e"
    then show ?thesis using assms same_int_float(3)[of i e] by metis
  next
    fix p q assume "v = VStr p" "w = VStr q"
    then show ?thesis using assms by (simp add: map_hash_key_def hash_string_units)
  next
    fix x y assume "v = VFloat64 x" "w = VFloat64 y"
    then show ?thesis using assms(3) by (auto simp: map_hash_key_def)
  qed (use assms(3) in simp_all)
qed

end
