(* ===== verification/Js_Map.thy ===== *)
theory Js_Map
  imports Js_Map_Key
begin

text \<open>
  The collections \<^verbatim>\<open>Map\<close> and \<^verbatim>\<open>Set\<close> of \<^verbatim>\<open>quickjs.c\<close> with their iterators: records in the order of
  insertion, linked a second time into the buckets of a hash table, and kept as empty records
  while an iterator stands on them. The intrusive lists are lists of addresses. The allocator, the
  slack of a reallocation and the release of a value, which can run finalizers, are parameters.
  \<^const>\<open>None\<close> is an access to a freed record or a failed assertion.
\<close>

section \<open>State\<close>

record map_record =
  mr_ref_count :: int
  mr_empty :: bool
  mr_key :: js_val
  mr_value :: js_val

datatype iterator_kind = JS_ITERATOR_KIND_KEY | JS_ITERATOR_KIND_VALUE | JS_ITERATOR_KIND_KEY_AND_VALUE

text \<open>\<open>it_obj\<close> tells whether the iterator still refers to the map.\<close>

record map_iterator =
  it_obj :: bool
  it_kind :: iterator_kind
  cur_record :: "nat option"

text \<open>
  The state of one map, with the records in memory, the chains of weak references to each object,
  the reference counts of values and the iterators on the map.
\<close>

record map_state =
  is_weak :: bool
  records :: "nat list"
  record_count :: u32
  hash_table :: "nat list list"
  hash_size :: u32
  record_count_threshold :: u32
  rec_heap :: "nat \<rightharpoonup> map_record"
  weak_refs :: "nat \<Rightarrow> nat list"
  val_refs :: "js_val \<Rightarrow> int"
  iterators :: "nat \<rightharpoonup> map_iterator"

type_synonym free_func = "js_val \<Rightarrow> map_state \<Rightarrow> map_state option"
type_synonym malloc_func = "map_state \<Rightarrow> nat option"

text \<open>\<open>js_realloc2\<close>: the slack in bytes behind the size asked for, or no memory.\<close>

type_synonym slack_func = "nat \<Rightarrow> nat option"

definition dup_value :: "js_val \<Rightarrow> map_state \<Rightarrow> map_state" where
  "dup_value v s = s\<lparr>val_refs := (val_refs s)(v := val_refs s v + 1)\<rparr>"

text \<open>Releasing a value that runs no finalizer.\<close>

definition release_value :: free_func where
  "release_value v s = Some (s\<lparr>val_refs := (val_refs s)(v := val_refs s v - 1)\<rparr>)"

section \<open>Records\<close>

definition js_map_new :: "bool \<Rightarrow> map_state" where
  "js_map_new weak = \<lparr>is_weak = weak, records = [], record_count = 0, hash_table = [[]], hash_size = 1,
     record_count_threshold = 4, rec_heap = Map.empty, weak_refs = (\<lambda>_. []), val_refs = (\<lambda>_. 0), iterators = Map.empty\<rparr>"

definition hash_slot :: "u32 \<Rightarrow> js_val \<Rightarrow> nat option" where
  "hash_slot sz key = do { h \<leftarrow> map_hash_key key; Some (unat (h AND (sz - 1))) }"

fun find_in :: "map_state \<Rightarrow> nat list \<Rightarrow> js_val \<Rightarrow> nat option option" where
  "find_in s [] key = Some None"
| "find_in s (a # as) key = do {
     mr \<leftarrow> rec_heap s a;
     eq \<leftarrow> js_same_value_zero (mr_key mr) key;
     if eq then Some (Some a) else find_in s as key }"

definition map_find_record :: "map_state \<Rightarrow> js_val \<Rightarrow> nat option option" where
  "map_find_record s key = do {
     h \<leftarrow> hash_slot (hash_size s) key;
     bucket \<leftarrow> rd (hash_table s) h;
     find_in s bucket key }"

fun rehash :: "map_state \<Rightarrow> u32 \<Rightarrow> nat list \<Rightarrow> nat list list \<Rightarrow> nat list list option" where
  "rehash s sz [] tab = Some tab"
| "rehash s sz (a # as) tab = do {
     mr \<leftarrow> rec_heap s a;
     if mr_empty mr then rehash s sz as tab
     else do {
       h \<leftarrow> hash_slot sz (mr_key mr);
       bucket \<leftarrow> rd tab h;
       tab \<leftarrow> wr tab h (bucket @ [a]);
       rehash s sz as tab } }"

definition map_hash_resize :: "slack_func \<Rightarrow> map_state \<Rightarrow> map_state option" where
  "map_hash_resize re s =
     (let new_hash_size = (if hash_size s = 1 then 4 else hash_size s * 2) in
      case re (16 * unat new_hash_size) of
        None \<Rightarrow> Some s
      | Some slack \<Rightarrow> do {
          let new_hash_size = new_hash_size + of_nat (slack div 16);
          tab \<leftarrow> rehash s new_hash_size (records s) (replicate (unat new_hash_size) []);
          Some (s\<lparr>hash_table := tab, hash_size := new_hash_size, record_count_threshold := new_hash_size * 2\<rparr>) })"

text \<open>The value of a new record is set by the caller.\<close>

definition map_add_record :: "malloc_func \<Rightarrow> slack_func \<Rightarrow> map_state \<Rightarrow> js_val \<Rightarrow> (nat option \<times> map_state) option" where
  "map_add_record ma re s key =
     (case ma s of
        None \<Rightarrow> Some (None, s)
      | Some a \<Rightarrow> do {
          s \<leftarrow> (if is_weak s
               then (case key of VObject p \<Rightarrow> Some (s\<lparr>weak_refs := (weak_refs s)(p := a # weak_refs s p)\<rparr>) | _ \<Rightarrow> None)
               else Some (dup_value key s));
          let s = s\<lparr>rec_heap := (rec_heap s)(a \<mapsto> \<lparr>mr_ref_count = 1, mr_empty = False, mr_key = key, mr_value = VUndefined\<rparr>)\<rparr>;
          h \<leftarrow> hash_slot (hash_size s) key;
          bucket \<leftarrow> rd (hash_table s) h;
          tab \<leftarrow> wr (hash_table s) h (bucket @ [a]);
          let s = s\<lparr>hash_table := tab, records := records s @ [a], record_count := record_count s + 1\<rparr>;
          s \<leftarrow> (if record_count s \<ge> record_count_threshold s then map_hash_resize re s else Some s);
          Some (Some a, s) })"

definition delete_weak_ref :: "nat \<Rightarrow> map_state \<Rightarrow> map_state option" where
  "delete_weak_ref a s = do {
     mr \<leftarrow> rec_heap s a;
     case mr_key mr of
       VObject p \<Rightarrow> if a \<in> set (weak_refs s p) then Some (s\<lparr>weak_refs := (weak_refs s)(p := remove1 a (weak_refs s p))\<rparr>) else None
     | _ \<Rightarrow> None }"

text \<open>\<open>list_del\<close> on the two links of a record.\<close>

definition unlink_hash :: "nat \<Rightarrow> map_state \<Rightarrow> map_state option" where
  "unlink_hash a s =
     (if list_ex (\<lambda>b. a \<in> set b) (hash_table s) then Some (s\<lparr>hash_table := map (remove1 a) (hash_table s)\<rparr>) else None)"

definition free_record :: "nat \<Rightarrow> map_state \<Rightarrow> map_state option" where
  "free_record a s =
     (if a \<in> set (records s) then Some (s\<lparr>records := remove1 a (records s), rec_heap := (rec_heap s)(a := None)\<rparr>) else None)"

definition map_delete_record :: "free_func \<Rightarrow> map_state \<Rightarrow> nat \<Rightarrow> map_state option" where
  "map_delete_record fv s a = do {
     mr \<leftarrow> rec_heap s a;
     if mr_empty mr then Some s
     else do {
       s \<leftarrow> unlink_hash a s;
       s \<leftarrow> (if is_weak s then delete_weak_ref a s else fv (mr_key mr) s);
       mr \<leftarrow> rec_heap s a;
       s \<leftarrow> fv (mr_value mr) s;
       mr \<leftarrow> rec_heap s a;
       s \<leftarrow> (if mr_ref_count mr - 1 = 0 then free_record a s
            else Some (s\<lparr>rec_heap := (rec_heap s)(a \<mapsto> mr\<lparr>mr_ref_count := mr_ref_count mr - 1, mr_empty := True,
                   mr_key := VUndefined, mr_value := VUndefined\<rparr>)\<rparr>));
       Some (s\<lparr>record_count := record_count s - 1\<rparr>) } }"

definition map_decref_record :: "map_state \<Rightarrow> nat \<Rightarrow> map_state option" where
  "map_decref_record s a = do {
     mr \<leftarrow> rec_heap s a;
     if mr_ref_count mr - 1 = 0 then (if mr_empty mr then free_record a s else None)
     else Some (s\<lparr>rec_heap := (rec_heap s)(a \<mapsto> mr\<lparr>mr_ref_count := mr_ref_count mr - 1\<rparr>)\<rparr>) }"

section \<open>Methods\<close>

datatype map_error = TypeErrorNotAnObject | OutOfMemory

text \<open>The flag \<open>is_set\<close> is \<^verbatim>\<open>magic & MAGIC_SET\<close>.\<close>

definition js_map_set ::
  "malloc_func \<Rightarrow> slack_func \<Rightarrow> free_func \<Rightarrow> bool \<Rightarrow> map_state \<Rightarrow> js_val \<Rightarrow> js_val \<Rightarrow> (map_error option \<times> map_state) option" where
  "js_map_set ma re fv is_set s key val = do {
     let key = map_normalize_key key;
     if is_weak s \<and> \<not> (case key of VObject _ \<Rightarrow> True | _ \<Rightarrow> False) then Some (Some TypeErrorNotAnObject, s)
     else do {
       let val = (if is_set then VUndefined else val);
       found \<leftarrow> map_find_record s key;
       (mr, s) \<leftarrow> (case found of
           Some a \<Rightarrow> do { mr \<leftarrow> rec_heap s a; s \<leftarrow> fv (mr_value mr) s; Some (Some a, s) }
         | None \<Rightarrow> map_add_record ma re s key);
       case mr of
         None \<Rightarrow> Some (Some OutOfMemory, s)
       | Some a \<Rightarrow> do {
           mr \<leftarrow> rec_heap s a;
           let s = dup_value val s;
           Some (None, s\<lparr>rec_heap := (rec_heap s)(a \<mapsto> mr\<lparr>mr_value := val\<rparr>)\<rparr>) } } }"

definition js_map_get :: "map_state \<Rightarrow> js_val \<Rightarrow> (js_val \<times> map_state) option" where
  "js_map_get s key = do {
     let key = map_normalize_key key;
     found \<leftarrow> map_find_record s key;
     case found of
       None \<Rightarrow> Some (VUndefined, s)
     | Some a \<Rightarrow> do { mr \<leftarrow> rec_heap s a; Some (mr_value mr, dup_value (mr_value mr) s) } }"

definition js_map_has :: "map_state \<Rightarrow> js_val \<Rightarrow> bool option" where
  "js_map_has s key = do {
     let key = map_normalize_key key;
     found \<leftarrow> map_find_record s key;
     Some (found \<noteq> None) }"

definition js_map_delete :: "free_func \<Rightarrow> map_state \<Rightarrow> js_val \<Rightarrow> (bool \<times> map_state) option" where
  "js_map_delete fv s key = do {
     let key = map_normalize_key key;
     found \<leftarrow> map_find_record s key;
     case found of
       None \<Rightarrow> Some (False, s)
     | Some a \<Rightarrow> do { s \<leftarrow> map_delete_record fv s a; Some (True, s) } }"

text \<open>The next pointer of a record or of the list head; a record outside the list has been freed.\<close>

definition next_or_head :: "map_state \<Rightarrow> nat option \<Rightarrow> nat option option" where
  "next_or_head s el = (case el of None \<Rightarrow> Some None | Some b \<Rightarrow> next_in (records s) b)"

text \<open>\<open>list_for_each_safe\<close> with the saved successor \<open>el1\<close>.\<close>

partial_function (option) clear_loop :: "free_func \<Rightarrow> nat option \<Rightarrow> nat option \<Rightarrow> map_state \<Rightarrow> map_state option" where
  "clear_loop fv el el1 s =
     (case el of
        None \<Rightarrow> Some s
      | Some a \<Rightarrow> do {
          s \<leftarrow> map_delete_record fv s a;
          el2 \<leftarrow> next_or_head s el1;
          clear_loop fv el1 el2 s })"

declare clear_loop.simps [code]

definition js_map_clear :: "free_func \<Rightarrow> map_state \<Rightarrow> map_state option" where
  "js_map_clear fv s = do {
     let el = first_in (records s);
     el1 \<leftarrow> next_or_head s el;
     clear_loop fv el el1 s }"

definition js_map_get_size :: "map_state \<Rightarrow> u32" where
  "js_map_get_size s = record_count s"

section \<open>Iterators\<close>

definition js_create_map_iterator :: "malloc_func \<Rightarrow> iterator_kind \<Rightarrow> map_state \<Rightarrow> nat option \<times> map_state" where
  "js_create_map_iterator ma kind s =
     (case ma s of
        None \<Rightarrow> (None, s)
      | Some i \<Rightarrow> (Some i, s\<lparr>iterators := (iterators s)(i \<mapsto> \<lparr>it_obj = True, it_kind = kind, cur_record = None\<rparr>)\<rparr>))"

text \<open>The records behind the current one.\<close>

definition records_after :: "nat list \<Rightarrow> nat option \<Rightarrow> nat list option" where
  "records_after rs cur = (case cur of
       None \<Rightarrow> Some rs
     | Some a \<Rightarrow> if a \<in> set rs then Some (tl (dropWhile (\<lambda>x. x \<noteq> a) rs)) else None)"

fun skip_empty :: "map_state \<Rightarrow> nat list \<Rightarrow> nat option option" where
  "skip_empty s [] = Some None"
| "skip_empty s (a # as) = do {
     mr \<leftarrow> rec_heap s a;
     if \<not> mr_empty mr then Some (Some a) else skip_empty s as }"

text \<open>The end of the enumeration, or what the iterator yields: one value, or a pair as an array.\<close>

datatype iter_result = Done | Yield js_val | YieldPair js_val js_val

definition iter_result :: "bool \<Rightarrow> iterator_kind \<Rightarrow> map_record \<Rightarrow> map_state \<Rightarrow> iter_result \<times> map_state" where
  "iter_result is_set kind mr s =
     (let val = (if is_set then mr_key mr else mr_value mr) in
      case kind of
        JS_ITERATOR_KIND_KEY \<Rightarrow> (Yield (mr_key mr), dup_value (mr_key mr) s)
      | JS_ITERATOR_KIND_VALUE \<Rightarrow> (Yield val, dup_value val s)
      | JS_ITERATOR_KIND_KEY_AND_VALUE \<Rightarrow> (YieldPair (mr_key mr) val, dup_value val (dup_value (mr_key mr) s)))"

definition js_map_iterator_next :: "bool \<Rightarrow> map_state \<Rightarrow> nat \<Rightarrow> (iter_result \<times> map_state) option" where
  "js_map_iterator_next is_set s i = do {
     it \<leftarrow> iterators s i;
     if \<not> it_obj it then Some (Done, s)
     else do {
       els \<leftarrow> records_after (records s) (cur_record it);
       s \<leftarrow> (case cur_record it of None \<Rightarrow> Some s | Some a \<Rightarrow> map_decref_record s a);
       el \<leftarrow> skip_empty s els;
       case el of
         None \<Rightarrow> Some (Done, s\<lparr>iterators := (iterators s)(i \<mapsto> it\<lparr>cur_record := None, it_obj := False\<rparr>)\<rparr>)
       | Some a \<Rightarrow> do {
           mr \<leftarrow> rec_heap s a;
           let s = s\<lparr>rec_heap := (rec_heap s)(a \<mapsto> mr\<lparr>mr_ref_count := mr_ref_count mr + 1\<rparr>),
                     iterators := (iterators s)(i \<mapsto> it\<lparr>cur_record := Some a\<rparr>)\<rparr>;
           Some (iter_result is_set (it_kind it) mr s) } } }"

definition js_map_iterator_finalizer :: "map_state \<Rightarrow> nat \<Rightarrow> map_state option" where
  "js_map_iterator_finalizer s i = do {
     it \<leftarrow> iterators s i;
     s \<leftarrow> (if it_obj it then (case cur_record it of None \<Rightarrow> Some s | Some a \<Rightarrow> map_decref_record s a) else Some s);
     Some (s\<lparr>iterators := (iterators s)(i := None)\<rparr>) }"

end
