(* ===== verification/Js_Map_Inv.thy ===== *)
theory Js_Map_Inv
  imports Js_Map
begin

text \<open>
  The invariant of a map with iterators, and what each operation does to the abstract map: the
  entries in the order of insertion and, for each active iterator, the entries it has still to
  visit.
\<close>

section \<open>The abstract map\<close>

abbreviation the_rec :: "map_state \<Rightarrow> nat \<Rightarrow> map_record" where
  "the_rec s a \<equiv> the (rec_heap s a)"

definition lv :: "map_state \<Rightarrow> nat \<Rightarrow> bool" where
  "lv s a \<longleftrightarrow> \<not> mr_empty (the_rec s a)"

definition ent :: "map_state \<Rightarrow> nat \<Rightarrow> ckey \<times> js_val" where
  "ent s a = (canon (mr_key (the_rec s a)), mr_value (the_rec s a))"

definition vis :: "map_state \<Rightarrow> nat list \<Rightarrow> (ckey \<times> js_val) list" where
  "vis s rs = map (ent s) (filter (lv s) rs)"

definition entries :: "map_state \<Rightarrow> (ckey \<times> js_val) list" where
  "entries s = vis s (records s)"

definition after :: "nat list \<Rightarrow> nat option \<Rightarrow> nat list" where
  "after rs cur = (case cur of None \<Rightarrow> rs | Some a \<Rightarrow> tl (dropWhile (\<lambda>x. x \<noteq> a) rs))"

definition pend :: "map_state \<Rightarrow> nat \<Rightarrow> (ckey \<times> js_val) list option" where
  "pend s i = (case iterators s i of
       None \<Rightarrow> None
     | Some it \<Rightarrow> if it_obj it then Some (vis s (after (records s) (cur_record it))) else None)"

section \<open>The invariant\<close>

definition table_ok :: "map_state \<Rightarrow> bool" where
  "table_ok s \<longleftrightarrow> hash_size s \<noteq> 0 \<and> unat (hash_size s) < 2 ^ 31 \<and> length (hash_table s) = unat (hash_size s) \<and>
     (\<forall>j < length (hash_table s). distinct (hash_table s ! j) \<and>
        set (hash_table s ! j) = {a \<in> set (records s). lv s a \<and> hash_slot (hash_size s) (mr_key (the_rec s a)) = Some j})"

definition keys_ok :: "map_state \<Rightarrow> bool" where
  "keys_ok s \<longleftrightarrow> (\<forall>a\<in>set (records s). lv s a \<longrightarrow> key_ok (mr_key (the_rec s a))) \<and> distinct (map fst (entries s))"

definition lockers :: "map_state \<Rightarrow> nat \<Rightarrow> nat set" where
  "lockers s a = {i. \<exists>it. iterators s i = Some it \<and> cur_record it = Some a}"

definition refs_ok :: "map_state \<Rightarrow> bool" where
  "refs_ok s \<longleftrightarrow> finite (dom (iterators s)) \<and>
     (\<forall>a\<in>set (records s). mr_ref_count (the_rec s a) = of_bool (lv s a) + int (card (lockers s a)) \<and> (lv s a \<or> lockers s a \<noteq> {})) \<and>
     (\<forall>i it a. iterators s i = Some it \<longrightarrow> cur_record it = Some a \<longrightarrow> it_obj it \<and> a \<in> set (records s))"

definition map_inv :: "map_state \<Rightarrow> bool" where
  "map_inv s \<longleftrightarrow> \<not> is_weak s \<and> distinct (records s) \<and> dom (rec_heap s) = set (records s) \<and>
     table_ok s \<and> keys_ok s \<and> refs_ok s \<and> unat (record_count s) = length (entries s)"

text \<open>Reference counts of values do not matter for the invariant.\<close>

lemma val_refs_simps [simp]:
  "lv (s\<lparr>val_refs := x\<rparr>) = lv s" "ent (s\<lparr>val_refs := x\<rparr>) = ent s" "vis (s\<lparr>val_refs := x\<rparr>) = vis s"
  "entries (s\<lparr>val_refs := x\<rparr>) = entries s" "pend (s\<lparr>val_refs := x\<rparr>) = pend s" "map_inv (s\<lparr>val_refs := x\<rparr>) = map_inv s"
proof -
  show l: "lv (s\<lparr>val_refs := x\<rparr>) = lv s" "ent (s\<lparr>val_refs := x\<rparr>) = ent s" by (simp_all add: lv_def ent_def fun_eq_iff)
  show v: "vis (s\<lparr>val_refs := x\<rparr>) = vis s" by (rule ext) (simp only: vis_def l)
  show e: "entries (s\<lparr>val_refs := x\<rparr>) = entries s" by (simp add: entries_def v)
  show "pend (s\<lparr>val_refs := x\<rparr>) = pend s"
  proof
    show "pend (s\<lparr>val_refs := x\<rparr>) i = pend s i" for i by (cases "iterators s i") (simp_all add: pend_def v)
  qed
  show "map_inv (s\<lparr>val_refs := x\<rparr>) = map_inv s"
    by (simp add: map_inv_def table_ok_def keys_ok_def refs_ok_def lockers_def l e)
qed

lemma dup_value_simps [simp]:
  "rec_heap (dup_value v s) = rec_heap s" "records (dup_value v s) = records s" "iterators (dup_value v s) = iterators s"
  "entries (dup_value v s) = entries s" "pend (dup_value v s) = pend s" "map_inv (dup_value v s) = map_inv s"
  "hash_table (dup_value v s) = hash_table s" "hash_size (dup_value v s) = hash_size s" "record_count (dup_value v s) = record_count s"
  by (simp_all add: dup_value_def)

text \<open>A release that runs no finalizer on this map.\<close>

definition quiet :: "free_func \<Rightarrow> bool" where
  "quiet fv \<longleftrightarrow> (\<forall>v s. \<exists>x. fv v s = Some (s\<lparr>val_refs := x\<rparr>))"

lemma quietE: "quiet fv \<Longrightarrow> (\<And>x. fv v s = Some (s\<lparr>val_refs := x\<rparr>) \<Longrightarrow> P) \<Longrightarrow> P"
  unfolding quiet_def by metis

section \<open>Lookup\<close>

lemma rec_in: "map_inv s \<Longrightarrow> a \<in> set (records s) \<Longrightarrow> \<exists>r. rec_heap s a = Some r"
  unfolding map_inv_def by blast

lemma find_in_spec:
  "(\<And>a. a \<in> set as \<Longrightarrow> (\<exists>r. rec_heap s a = Some r) \<and> key_ok (mr_key (the_rec s a))) \<Longrightarrow> key_ok k \<Longrightarrow>
   find_in s as k = Some (List.find (\<lambda>a. canon (mr_key (the_rec s a)) = canon k) as)"
proof (induction as)
  case (Cons a as)
  obtain r where "rec_heap s a = Some r" "key_ok (mr_key r)" using Cons.prems(1)[of a] by fastforce
  moreover have "find_in s as k = Some (List.find (\<lambda>a. canon (mr_key (the_rec s a)) = canon k) as)" using Cons by simp
  ultimately show ?case using same_value_zero_canon[of "mr_key r" k] Cons.prems(2) by simp
qed simp

lemma hash_slot_ok:
  assumes "key_ok k" "sz \<noteq> 0"
  shows "\<exists>j. hash_slot sz k = Some j \<and> j < unat sz"
proof -
  obtain h where h: "map_hash_key k = Some h" using hash_canon(2)[OF assms(1,1) refl] by auto
  have "h AND (sz - 1) \<le> sz - 1" by (rule word_and_le1)
  then have "unat (h AND (sz - 1)) \<le> unat (sz - 1)" by (simp add: word_le_nat_alt)
  moreover have "unat (sz - 1) < unat sz" using assms(2) by (simp add: measure_unat)
  ultimately show ?thesis using h by (simp add: hash_slot_def)
qed

lemma map_find_record_spec:
  assumes inv: "map_inv s" and k: "key_ok k"
  obtains (found) a where "a \<in> set (records s)" "lv s a" "canon (mr_key (the_rec s a)) = canon k" "map_find_record s k = Some (Some a)"
  | (absent) "\<forall>a\<in>set (records s). lv s a \<longrightarrow> canon (mr_key (the_rec s a)) \<noteq> canon k" "map_find_record s k = Some None"
proof -
  obtain j where j: "hash_slot (hash_size s) k = Some j" "j < length (hash_table s)"
    using hash_slot_ok[OF k, of "hash_size s"] inv by (auto simp: map_inv_def table_ok_def)
  let ?b = "hash_table s ! j"
  have b: "set ?b = {a \<in> set (records s). lv s a \<and> hash_slot (hash_size s) (mr_key (the_rec s a)) = Some j}"
    using inv j(2) by (simp add: map_inv_def table_ok_def)
  have ok: "key_ok (mr_key (the_rec s a))" if "a \<in> set (records s)" "lv s a" for a using inv that by (simp add: map_inv_def keys_ok_def)
  have f: "map_find_record s k = Some (List.find (\<lambda>a. canon (mr_key (the_rec s a)) = canon k) ?b)"
    using j find_in_spec[of ?b s k] b ok rec_in[OF inv] k by (simp add: map_find_record_def rd_def)
  show thesis
  proof (cases "List.find (\<lambda>a. canon (mr_key (the_rec s a)) = canon k) ?b")
    case (Some a)
    then have "a \<in> set ?b" "canon (mr_key (the_rec s a)) = canon k" by (auto simp: find_Some_iff)
    then show thesis using found[of a] b f Some by auto
  next
    case None
    have "canon (mr_key (the_rec s a)) \<noteq> canon k" if a: "a \<in> set (records s)" "lv s a" for a
    proof
      assume c: "canon (mr_key (the_rec s a)) = canon k"
      then have "hash_slot (hash_size s) (mr_key (the_rec s a)) = Some j"
        using j(1) hash_canon(1)[OF ok[OF a] k c] by (simp add: hash_slot_def)
      then have "a \<in> set ?b" using b a by simp
      then show False using None c by (auto simp: find_None_iff)
    qed
    then show thesis using absent f unfolding None by blast
  qed
qed

lemma entry_of: "a \<in> set (records s) \<Longrightarrow> lv s a \<Longrightarrow> ent s a \<in> set (entries s)"
  by (auto simp: entries_def vis_def)

lemma absent_entries:
  "\<forall>a\<in>set (records s). lv s a \<longrightarrow> canon (mr_key (the_rec s a)) \<noteq> c \<Longrightarrow> c \<notin> fst ` set (entries s)"
  by (auto simp: entries_def vis_def ent_def)

section \<open>Positions in the list of records\<close>

lemma after_split: "distinct (xs @ a # ys) \<Longrightarrow> after (xs @ a # ys) (Some a) = ys"
  by (induction xs) (auto simp: after_def)

lemma after_subset: "set (after rs cur) \<subseteq> set rs"
proof -
  have t: "set (tl xs) \<subseteq> set xs" for xs :: "nat list" by (cases xs) auto
  show ?thesis using t[of "dropWhile _ rs"] by (cases cur) (auto simp: after_def dest!: set_mp[OF t] set_dropWhileD)
qed

lemma records_after_Some: "(\<And>a. cur = Some a \<Longrightarrow> a \<in> set rs) \<Longrightarrow> records_after rs cur = Some (after rs cur)"
  by (cases cur) (simp_all add: records_after_def after_def)

lemma after_snoc:
  assumes "distinct (rs @ [b])" "\<And>a. cur = Some a \<Longrightarrow> a \<in> set rs"
  shows "after (rs @ [b]) cur = after rs cur @ [b]"
proof (cases cur)
  case (Some a)
  then obtain xs ys where "rs = xs @ a # ys" using split_list[of a rs] assms(2) Some by auto
  then show ?thesis using Some assms(1) after_split[of xs a ys] after_split[of xs a "ys @ [b]"] by simp
qed (simp add: after_def)

lemma after_remove:
  assumes "distinct rs" "\<And>a. cur = Some a \<Longrightarrow> a \<in> set rs \<and> a \<noteq> b"
  shows "after (remove1 b rs) cur = remove1 b (after rs cur)"
proof (cases cur)
  case (Some a)
  then obtain xs ys where rs: "rs = xs @ a # ys" using split_list[of a rs] assms(2) Some by auto
  have "a \<noteq> b" using Some assms(2) by simp
  then have "remove1 b rs = remove1 b xs @ a # (if b \<in> set xs then ys else remove1 b ys)" 
    by (auto simp: rs remove1_append remove1_idem)
  moreover have "remove1 b ys = ys" if "b \<in> set xs" using that assms(1) rs by (intro remove1_idem) auto
  ultimately have "remove1 b rs = remove1 b xs @ a # remove1 b ys" by auto
  moreover have "distinct (remove1 b xs @ a # remove1 b ys)" using assms(1) rs by (auto dest: notin_set_remove1)
  ultimately show ?thesis using Some rs assms(1) after_split[of xs a ys] after_split[of "remove1 b xs" a "remove1 b ys"] by simp
qed (simp add: after_def)

section \<open>States with the same records\<close>

lemma live_key_inj:
  assumes "map_inv s" "a \<in> set (records s)" "b \<in> set (records s)" "lv s a" "lv s b"
    "canon (mr_key (the_rec s a)) = canon (mr_key (the_rec s b))"
  shows "a = b"
proof -
  have "distinct (map (\<lambda>a. fst (ent s a)) (filter (lv s) (records s)))"
    using assms(1) by (simp add: map_inv_def keys_ok_def entries_def vis_def comp_def)
  then have "inj_on (\<lambda>a. fst (ent s a)) (set (filter (lv s) (records s)))" by (simp add: distinct_map)
  then show ?thesis using assms by (auto simp: ent_def inj_on_def)
qed

text \<open>The invariant speaks of the keys, the flags and the counts of the records only.\<close>

lemma map_inv_same:
  assumes "map_inv s" "is_weak s' = is_weak s" "records s' = records s" "dom (rec_heap s') = dom (rec_heap s)" "iterators s' = iterators s"
    and "hash_table s' = hash_table s" "hash_size s' = hash_size s" "record_count s' = record_count s"
    and r: "\<And>b. b \<in> set (records s) \<Longrightarrow> mr_empty (the_rec s' b) = mr_empty (the_rec s b) \<and>
      mr_key (the_rec s' b) = mr_key (the_rec s b) \<and> mr_ref_count (the_rec s' b) = mr_ref_count (the_rec s b)"
  shows "map_inv s'"
proof -
  have l: "lv s' b = lv s b" if "b \<in> set (records s)" for b using r[OF that] by (simp add: lv_def)
  then have f: "filter (lv s') (records s) = filter (lv s) (records s)" by (intro filter_cong) auto
  then have e: "map fst (entries s') = map fst (entries s)"
    using r assms(3) by (auto simp: entries_def vis_def ent_def)
  have len: "length (entries s') = length (entries s)" using e map_eq_imp_length_eq by blast
  have lk: "lockers s' = lockers s" by (simp add: lockers_def fun_eq_iff assms(5))
  have slots: "{a \<in> set (records s). lv s' a \<and> hash_slot (hash_size s) (mr_key (the_rec s' a)) = Some j} =
      {a \<in> set (records s). lv s a \<and> hash_slot (hash_size s) (mr_key (the_rec s a)) = Some j}" for j
    using l r by auto
  have "table_ok s'" using assms(1) slots by (simp add: map_inv_def table_ok_def assms(3,6,7))
  moreover have "keys_ok s'" using assms(1) l r e by (simp add: map_inv_def keys_ok_def assms(3))
  moreover have "refs_ok s'" using assms(1) l r by (simp add: map_inv_def refs_ok_def assms(3,5) lk)
  ultimately show ?thesis using assms(1) by (simp add: map_inv_def assms(2-4,8) len)
qed

definition upd :: "ckey \<Rightarrow> js_val \<Rightarrow> (ckey \<times> js_val) list \<Rightarrow> (ckey \<times> js_val) list" where
  "upd k v xs = map (\<lambda>(k', w). (k', if k' = k then v else w)) xs"

lemma set_value:
  fixes v :: js_val
  assumes inv: "map_inv s" and a: "a \<in> set (records s)" "lv s a" "rec_heap s a = Some r"
  defines "s' \<equiv> s\<lparr>rec_heap := (rec_heap s)(a \<mapsto> r\<lparr>mr_value := v\<rparr>)\<rparr>"
  shows "map_inv s'" "set rs \<subseteq> set (records s) \<Longrightarrow> vis s' rs = upd (canon (mr_key r)) v (vis s rs)"
proof -
  show "map_inv s'" by (rule map_inv_same[OF inv]) (use a in \<open>auto simp: s'_def\<close>)
  have l: "lv s' = lv s" using a by (auto simp: s'_def lv_def fun_eq_iff)
  have "ent s' b = (\<lambda>(k', w). (k', if k' = canon (mr_key r) then v else w)) (ent s b)" if "b \<in> set (records s)" "lv s b" for b
  proof (cases "b = a")
    case True
    then show ?thesis using a(3) by (simp add: ent_def s'_def)
  next
    case False
    then have "canon (mr_key (the_rec s b)) \<noteq> canon (mr_key r)"
      using live_key_inj[OF inv that(1) a(1) that(2) a(2)] a(3) by (metis option.sel)
    then show ?thesis using False by (simp add: ent_def s'_def)
  qed
  then show "vis s' rs = upd (canon (mr_key r)) v (vis s rs)" if "set rs \<subseteq> set (records s)"
    using that by (auto simp: vis_def upd_def l)
qed

lemma heap_cong:
  assumes "rec_heap s' = rec_heap s"
  shows "lv s' = lv s" "ent s' = ent s" "vis s' = vis s" "records s' = records s \<Longrightarrow> entries s' = entries s"
    "records s' = records s \<Longrightarrow> iterators s' = iterators s \<Longrightarrow> pend s' = pend s"
proof -
  show l: "lv s' = lv s" "ent s' = ent s" using assms by (simp_all add: lv_def ent_def fun_eq_iff)
  show v: "vis s' = vis s" by (rule ext) (simp only: vis_def l)
  show "records s' = records s \<Longrightarrow> entries s' = entries s" by (simp add: entries_def v)
  show "records s' = records s \<Longrightarrow> iterators s' = iterators s \<Longrightarrow> pend s' = pend s" by (rule ext) (simp only: pend_def v)
qed

section \<open>Growing the table\<close>

lemma rehash_spec:
  assumes sz: "sz \<noteq> 0"
  shows "(\<And>a. a \<in> set rs \<Longrightarrow> (\<exists>r. rec_heap s a = Some r) \<and> (lv s a \<longrightarrow> key_ok (mr_key (the_rec s a)))) \<Longrightarrow> length tab = unat sz \<Longrightarrow>
    \<exists>tab'. rehash s sz rs tab = Some tab' \<and> length tab' = length tab \<and>
      (\<forall>j<length tab. tab' ! j = tab ! j @ filter (\<lambda>a. lv s a \<and> hash_slot sz (mr_key (the_rec s a)) = Some j) rs)"
proof (induction rs arbitrary: tab)
  case (Cons a rs)
  obtain r where r: "rec_heap s a = Some r" "lv s a \<longrightarrow> key_ok (mr_key r)" using Cons.prems(1)[of a] by fastforce
  show ?case
  proof (cases "mr_empty r")
    case True
    then show ?thesis using Cons r by (simp add: lv_def)
  next
    case False
    then have ok: "key_ok (mr_key r)" using r by (simp add: lv_def)
    obtain h where h: "hash_slot sz (mr_key r) = Some h" "h < unat sz" using hash_slot_ok[OF ok sz] by blast
    let ?t = "tab[h := tab ! h @ [a]]"
    obtain tab' where t: "rehash s sz rs ?t = Some tab'" "length tab' = length tab"
        "\<forall>j<length tab. tab' ! j = ?t ! j @ filter (\<lambda>a. lv s a \<and> hash_slot sz (mr_key (the_rec s a)) = Some j) rs"
      using Cons.IH[of ?t] Cons.prems by auto
    have "lv s a" using False r by (simp add: lv_def)
    then have "tab' ! j = tab ! j @ filter (\<lambda>a. lv s a \<and> hash_slot sz (mr_key (the_rec s a)) = Some j) (a # rs)" if "j < length tab" for j
      using t(3) that h r(1) by (auto simp: nth_list_update)
    then show ?thesis using t(1,2) r(1) False h Cons.prems(2) by (simp add: rd_def wr_def)
  qed
qed simp

text \<open>Memory for fewer than \<open>2 ^ 31\<close> buckets, slack included.\<close>

definition slack_ok :: "slack_func \<Rightarrow> bool" where
  "slack_ok re \<longleftrightarrow> (\<forall>n slack. re n = Some slack \<longrightarrow> n div 16 + slack div 16 < 2 ^ 31)"

lemma map_hash_resize_inv:
  assumes inv: "map_inv s" and re: "slack_ok re"
  shows "\<exists>tab sz th. map_hash_resize re s = Some (s\<lparr>hash_table := tab, hash_size := sz, record_count_threshold := th\<rparr>) \<and>
    map_inv (s\<lparr>hash_table := tab, hash_size := sz, record_count_threshold := th\<rparr>)"
proof -
  define n where "n = (if hash_size s = 1 then 4 else hash_size s * 2)"
  have hs: "hash_size s \<noteq> 0" "unat (hash_size s) < 2 ^ 31" using inv by (auto simp: map_inv_def table_ok_def)
  have un: "unat n = (if hash_size s = 1 then 4 else unat (hash_size s) * 2)"
    using hs(2) by (simp add: n_def unat_mult_lem[THEN iffD1])
  show ?thesis
  proof (cases "re (16 * unat n)")
    case None
    then show ?thesis using inv n_def
      by (intro exI[of _ "hash_table s"] exI[of _ "hash_size s"] exI[of _ "record_count_threshold s"]) (simp add: map_hash_resize_def)
  next
    case (Some slack)
    define m :: u32 where "m = n + of_nat (slack div 16)"
    have "16 * unat n div 16 + slack div 16 < 2 ^ 31" using re Some unfolding slack_ok_def by blast
    then have b: "unat n + slack div 16 < 2 ^ 31" by simp
    then have um: "unat m = unat n + slack div 16"
      unfolding m_def by (subst unat_add_lem[THEN iffD1]) (simp_all add: unat_of_nat_small)
    have m0: "m \<noteq> 0" using um un hs(1) by (auto simp: unat_eq_0 split: if_splits)
    have pre: "(\<exists>r. rec_heap s a = Some r) \<and> (lv s a \<longrightarrow> key_ok (mr_key (the_rec s a)))" if "a \<in> set (records s)" for a
      using rec_in[OF inv that] inv that by (auto simp: map_inv_def keys_ok_def)
    obtain tab where t: "rehash s m (records s) (replicate (unat m) []) = Some tab" "length tab = unat m"
        "\<forall>j<unat m. tab ! j = filter (\<lambda>a. lv s a \<and> hash_slot m (mr_key (the_rec s a)) = Some j) (records s)"
      using rehash_spec[OF m0 pre, of "records s" "replicate (unat m) []"] by auto
    let ?s = "s\<lparr>hash_table := tab, hash_size := m, record_count_threshold := m * 2\<rparr>"
    have c: "rec_heap ?s = rec_heap s" by simp
    note c = heap_cong(1,2)[OF c] heap_cong(4)[OF c]
    have "table_ok ?s" using t(2,3) m0 um b inv by (auto simp: table_ok_def c map_inv_def)
    moreover have "keys_ok ?s" "refs_ok ?s" using inv by (simp_all add: map_inv_def keys_ok_def refs_ok_def lockers_def c)
    ultimately have "map_inv ?s" using inv by (simp add: map_inv_def c)
    moreover have "map_hash_resize re s = Some ?s" using Some t(1) by (simp add: map_hash_resize_def n_def[symmetric] m_def[symmetric] Let_def)
    ultimately show ?thesis by blast
  qed
qed

section \<open>Adding a record\<close>

definition fresh_ok :: "malloc_func \<Rightarrow> bool" where
  "fresh_ok ma \<longleftrightarrow> (\<forall>s a. ma s = Some a \<longrightarrow> rec_heap s a = None \<and> iterators s a = None \<and> length (records s) < 2 ^ 32 - 1)"

lemma iterator_on: "map_inv s \<Longrightarrow> iterators s i = Some it \<Longrightarrow> cur_record it = Some a \<Longrightarrow> it_obj it \<and> a \<in> set (records s)"
  by (auto simp: map_inv_def refs_ok_def)

lemma pendI:
  assumes "iterators s' = iterators s"
    and "\<And>it. iterators s i = Some it \<Longrightarrow> it_obj it \<Longrightarrow> vis s' (after (records s') (cur_record it)) = f (vis s (after (records s) (cur_record it)))"
  shows "pend s' i = map_option f (pend s i)"
  using assms by (cases "iterators s i") (simp_all add: pend_def)

definition added :: "map_state \<Rightarrow> nat \<Rightarrow> js_val \<Rightarrow> nat \<Rightarrow> map_state" where
  "added s a k h = s\<lparr>rec_heap := (rec_heap s)(a \<mapsto> \<lparr>mr_ref_count = 1, mr_empty = False, mr_key = k, mr_value = VUndefined\<rparr>),
     hash_table := (hash_table s)[h := hash_table s ! h @ [a]], records := records s @ [a], record_count := record_count s + 1\<rparr>"

lemma added_sel:
  "records (added s a k h) = records s @ [a]" "iterators (added s a k h) = iterators s" "is_weak (added s a k h) = is_weak s"
  "hash_table (added s a k h) = (hash_table s)[h := hash_table s ! h @ [a]]" "hash_size (added s a k h) = hash_size s"
  "record_count (added s a k h) = record_count s + 1" "the_rec (added s a k h) a = \<lparr>mr_ref_count = 1, mr_empty = False, mr_key = k, mr_value = VUndefined\<rparr>"
  "b \<noteq> a \<Longrightarrow> the_rec (added s a k h) b = the_rec s b" "dom (rec_heap (added s a k h)) = insert a (dom (rec_heap s))"
  "lv (added s a k h) b = (b = a \<or> lv s b)" "ent (added s a k h) b = (if b = a then (canon k, VUndefined) else ent s b)"
  "lockers (added s a k h) b = lockers s b"
  by (simp_all add: added_def lv_def ent_def lockers_def)

lemma added_abs:
  assumes inv: "map_inv s" and a: "rec_heap s a = None"
  shows "a \<notin> set (records s)" "set rs \<subseteq> set (records s) \<Longrightarrow> vis (added s a k h) rs = vis s rs"
    "entries (added s a k h) = entries s @ [(canon k, VUndefined)]"
    "pend (added s a k h) i = map_option (\<lambda>p. p @ [(canon k, VUndefined)]) (pend s i)"
proof -
  show na: "a \<notin> set (records s)" using inv a by (auto simp: map_inv_def)
  have v: "vis (added s a k h) rs = vis s rs" if "set rs \<subseteq> set (records s)" for rs
  proof -
    have "\<forall>b\<in>set rs. b \<noteq> a" using that na by auto
    then have "filter (lv (added s a k h)) rs = filter (lv s) rs" by (intro filter_cong) (auto simp: added_sel)
    moreover have "map (ent (added s a k h)) (filter (lv s) rs) = map (ent s) (filter (lv s) rs)"
      using \<open>\<forall>b\<in>set rs. b \<noteq> a\<close> by (auto simp: added_sel)
    ultimately show ?thesis by (simp add: vis_def)
  qed
  then show "set rs \<subseteq> set (records s) \<Longrightarrow> vis (added s a k h) rs = vis s rs" .
  have snoc: "vis (added s a k h) (rs @ [a]) = vis s rs @ [(canon k, VUndefined)]" if "set rs \<subseteq> set (records s)" for rs
    using v[OF that] by (simp add: vis_def added_sel)
  show "entries (added s a k h) = entries s @ [(canon k, VUndefined)]" by (simp add: entries_def added_sel(1) snoc)
  show "pend (added s a k h) i = map_option (\<lambda>p. p @ [(canon k, VUndefined)]) (pend s i)"
  proof (rule pendI)
    fix it assume it: "iterators s i = Some it" "it_obj it"
    have "after (records s @ [a]) (cur_record it) = after (records s) (cur_record it) @ [a]"
      using na inv iterator_on[OF inv it(1)] by (intro after_snoc) (auto simp: map_inv_def)
    then show "vis (added s a k h) (after (records (added s a k h)) (cur_record it)) =
        vis s (after (records s) (cur_record it)) @ [(canon k, VUndefined)]"
      using snoc[OF after_subset] by (simp add: added_sel(1))
  qed (simp add: added_sel)
qed

lemma added_inv:
  assumes inv: "map_inv s" and a: "rec_heap s a = None" and k: "key_ok k"
    and absent: "\<forall>b\<in>set (records s). lv s b \<longrightarrow> canon (mr_key (the_rec s b)) \<noteq> canon k"
    and few: "length (records s) < 2 ^ 32 - 1" and h: "hash_slot (hash_size s) k = Some h" "h < length (hash_table s)"
  shows "map_inv (added s a k h)"
proof -
  let ?s = "added s a k h"
  note na = added_abs(1)[OF inv a] and ent = added_abs(3)[OF inv a]
  have b: "b \<noteq> a" if "b \<in> set (records s)" for b using that na by auto
  have "table_ok ?s"
  proof -
    have t: "hash_size s \<noteq> 0" "unat (hash_size s) < 2 ^ 31" "length (hash_table s) = unat (hash_size s)"
        "\<And>j. j < length (hash_table s) \<Longrightarrow> distinct (hash_table s ! j) \<and>
          set (hash_table s ! j) = {a \<in> set (records s). lv s a \<and> hash_slot (hash_size s) (mr_key (the_rec s a)) = Some j}"
      using inv by (simp_all add: map_inv_def table_ok_def)
    have "{c \<in> set (records s @ [a]). lv ?s c \<and> hash_slot (hash_size s) (mr_key (the_rec ?s c)) = Some j} =
        {c \<in> set (records s). lv s c \<and> hash_slot (hash_size s) (mr_key (the_rec s c)) = Some j} \<union> (if j = h then {a} else {})" for j
      using b h(1) by (auto simp: added_sel)
    moreover have "a \<notin> set (hash_table s ! j)" if "j < length (hash_table s)" for j using t(4)[OF that] na by auto
    ultimately show ?thesis unfolding table_ok_def added_sel(1,4,5) using t h(2) by (auto simp: nth_list_update)
  qed
  moreover have "keys_ok ?s"
  proof -
    have "canon k \<notin> fst ` set (entries s)" using absent_entries[OF absent] .
    then show ?thesis using inv k b unfolding keys_ok_def ent by (auto simp: map_inv_def keys_ok_def added_sel)
  qed
  moreover have "refs_ok ?s"
  proof -
    have "lockers s a = {}" using iterator_on[OF inv] na by (auto simp: lockers_def)
    then show ?thesis using inv b unfolding refs_ok_def added_sel(1,2,12) by (auto simp: map_inv_def refs_ok_def added_sel)
  qed
  moreover have "unat (record_count s + 1) = length (entries s) + 1"
  proof -
    have "length (entries s) \<le> length (records s)" by (simp add: entries_def vis_def)
    then have "unat (record_count s) + 1 < 2 ^ 32" using inv few by (simp add: map_inv_def)
    then show ?thesis using inv by (subst unat_add_lem[THEN iffD1]) (simp_all add: map_inv_def)
  qed
  ultimately show ?thesis using inv na by (simp add: map_inv_def added_sel ent)
qed

lemma map_add_record_spec:
  assumes inv: "map_inv s" and ma: "fresh_ok ma" and re: "slack_ok re" and k: "key_ok k"
    and absent: "\<forall>b\<in>set (records s). lv s b \<longrightarrow> canon (mr_key (the_rec s b)) \<noteq> canon k" and a: "ma s = Some a"
  shows "\<exists>s'. map_add_record ma re s k = Some (Some a, s') \<and> map_inv s' \<and> a \<in> set (records s') \<and> lv s' a \<and>
    mr_key (the_rec s' a) = k \<and> entries s' = entries s @ [(canon k, VUndefined)] \<and>
    (\<forall>i. pend s' i = map_option (\<lambda>p. p @ [(canon k, VUndefined)]) (pend s i))"
proof -
  let ?d = "dup_value k s"
  have d: "map_inv ?d" "rec_heap ?d a = None" "length (records ?d) < 2 ^ 32 - 1" using inv ma a by (simp_all add: fresh_ok_def)
  have absent': "\<forall>b\<in>set (records ?d). lv ?d b \<longrightarrow> canon (mr_key (the_rec ?d b)) \<noteq> canon k" using absent by (simp add: lv_def)
  obtain h where h: "hash_slot (hash_size ?d) k = Some h" "h < length (hash_table ?d)"
    using hash_slot_ok[OF k, of "hash_size s"] inv by (auto simp: map_inv_def table_ok_def)
  let ?s = "added ?d a k h"
  have s: "map_inv ?s" by (rule added_inv[OF d(1,2) k absent' d(3) h])
  have add: "map_add_record ma re s k =
      Option.bind (if record_count ?s \<ge> record_count_threshold ?s then map_hash_resize re ?s else Some ?s) (\<lambda>s. Some (Some a, s))"
    using a h inv by (simp add: map_add_record_def map_inv_def added_def rd_def wr_def)
  obtain s' where s': "(if record_count ?s \<ge> record_count_threshold ?s then map_hash_resize re ?s else Some ?s) = Some s'"
      "map_inv s'" "rec_heap s' = rec_heap ?s" "records s' = records ?s" "iterators s' = iterators ?s"
  proof (cases "record_count ?s \<ge> record_count_threshold ?s")
    case True
    then show thesis using map_hash_resize_inv[OF s re] that by auto
  qed (use s that in auto)
  have "entries s' = entries ?s" "pend s' = pend ?s" "lv s' = lv ?s" using heap_cong[OF s'(3)] s'(4,5) by auto
  then show ?thesis using add s'(1-4) added_abs(3,4)[OF d(1,2), of k h] by (simp add: added_sel)
qed

section \<open>The methods\<close>

definition put :: "bool \<Rightarrow> ckey \<Rightarrow> js_val \<Rightarrow> (ckey \<times> js_val) list \<Rightarrow> (ckey \<times> js_val) list" where
  "put present c v xs = (if present then upd c v xs else xs @ [(c, v)])"

lemma put_simps [simp]: "put True c v = upd c v" "put False c v = (\<lambda>xs. xs @ [(c, v)])"
  by (simp_all add: put_def fun_eq_iff)

lemma upd_absent: "c \<notin> fst ` set xs \<Longrightarrow> upd c v xs = xs"
  by (induction xs) (auto simp: upd_def)

lemma pend_vis:
  assumes "\<And>rs. set rs \<subseteq> set (records s) \<Longrightarrow> vis s' rs = f (vis s rs)" "records s' = records s" "iterators s' = iterators s"
  shows "entries s' = f (entries s)" "pend s' i = map_option f (pend s i)"
  using assms(1)[OF order_refl] assms(2) pendI[OF assms(3), of i f] assms(1)[OF after_subset] by (simp_all add: entries_def)

lemma pend_keys: "pend s i = Some p \<Longrightarrow> fst ` set p \<subseteq> fst ` set (entries s)"
  using after_subset by (fastforce simp: pend_def entries_def vis_def split: option.splits if_splits)

lemma store_value:
  fixes v :: js_val
  assumes "map_inv s" "a \<in> set (records s)" "lv s a" "rec_heap s a = Some r"
  defines "s' \<equiv> (dup_value v s)\<lparr>rec_heap := (rec_heap s)(a \<mapsto> r\<lparr>mr_value := v\<rparr>)\<rparr>"
  shows "map_inv s'" "entries s' = upd (canon (mr_key r)) v (entries s)" "pend s' i = map_option (upd (canon (mr_key r)) v) (pend s i)"
proof -
  let ?d = "dup_value v s"
  have d: "map_inv ?d" "a \<in> set (records ?d)" "lv ?d a" "rec_heap ?d a = Some r" using assms by (simp_all add: lv_def)
  have e: "s' = ?d\<lparr>rec_heap := (rec_heap ?d)(a \<mapsto> r\<lparr>mr_value := v\<rparr>)\<rparr>" by (simp add: s'_def)
  show "map_inv s'" unfolding e by (rule set_value(1)[OF d])
  have "vis s' rs = upd (canon (mr_key r)) v (vis ?d rs)" if "set rs \<subseteq> set (records ?d)" for rs
    unfolding e by (rule set_value(2)[OF d that])
  from pend_vis[of ?d s' "upd (canon (mr_key r)) v", OF this]
  show "entries s' = upd (canon (mr_key r)) v (entries s)" "pend s' i = map_option (upd (canon (mr_key r)) v) (pend s i)"
    by (simp_all add: s'_def)
qed

lemma js_map_set_spec:
  fixes is_set :: bool and val :: js_val
  assumes inv: "map_inv s" and ma: "fresh_ok ma" and re: "slack_ok re" and fv: "quiet fv" and k: "key_ok (map_normalize_key key)"
  defines "c \<equiv> canon (map_normalize_key key)" and "v \<equiv> if is_set then VUndefined else val"
  shows "\<exists>r s'. js_map_set ma re fv is_set s key val = Some (r, s') \<and> map_inv s' \<and>
    (r = None \<and> entries s' = put (c \<in> fst ` set (entries s)) c v (entries s) \<and>
       (\<forall>i. pend s' i = map_option (put (c \<in> fst ` set (entries s)) c v) (pend s i)) \<or>
     r = Some OutOfMemory \<and> ma s = None \<and> c \<notin> fst ` set (entries s) \<and> entries s' = entries s \<and> pend s' = pend s)"
proof -
  let ?k = "map_normalize_key key"
  have w: "\<not> is_weak s" using inv by (simp add: map_inv_def)
  from inv k show ?thesis
  proof (cases rule: map_find_record_spec)
    case (found a)
    then obtain r where r: "rec_heap s a = Some r" using rec_in[OF inv] by blast
    obtain x where x: "fv (mr_value r) s = Some (s\<lparr>val_refs := x\<rparr>)" using fv by (rule quietE)
    let ?d = "s\<lparr>val_refs := x\<rparr>"
    have d: "map_inv ?d" "a \<in> set (records ?d)" "lv ?d a" "rec_heap ?d a = Some r" using inv found r by simp_all
    have cr: "canon (mr_key r) = c" using found(3) r by (simp add: c_def)
    have "c \<in> fst ` set (entries s)" using entry_of[OF found(1,2)] found(3) by (force simp: ent_def c_def)
    moreover have "js_map_set ma re fv is_set s key val = Some (None, (dup_value v ?d)\<lparr>rec_heap := (rec_heap ?d)(a \<mapsto> r\<lparr>mr_value := v\<rparr>)\<rparr>)"
      using w found(4) r x by (simp add: js_map_set_def v_def)
    ultimately show ?thesis using store_value[OF d, of v, unfolded cr] by simp
  next
    case absent
    have nc: "c \<notin> fst ` set (entries s)" using absent_entries[OF absent(1)] by (simp add: c_def)
    show ?thesis
    proof (cases "ma s")
      case None
      then show ?thesis using w absent(2) inv nc by (simp add: js_map_set_def map_add_record_def)
    next
      case (Some a)
      obtain s1 where s1: "map_add_record ma re s ?k = Some (Some a, s1)" "map_inv s1" "a \<in> set (records s1)" "lv s1 a"
          "mr_key (the_rec s1 a) = ?k" "entries s1 = entries s @ [(c, VUndefined)]"
          "\<And>i. pend s1 i = map_option (\<lambda>p. p @ [(c, VUndefined)]) (pend s i)"
        using map_add_record_spec[OF inv ma re k absent(1) Some] unfolding c_def by blast
      obtain r where r: "rec_heap s1 a = Some r" using rec_in[OF s1(2,3)] by blast
      have cr: "canon (mr_key r) = c" using s1(5) r by (simp add: c_def)
      note st = store_value[OF s1(2-4) r, of v, unfolded cr]
      have u: "upd c v (xs @ [(c, VUndefined)]) = xs @ [(c, v)]" if "fst ` set xs \<subseteq> fst ` set (entries s)" for xs
        using upd_absent[of c xs v] that nc by (auto simp: upd_def)
      have "js_map_set ma re fv is_set s key val = Some (None, (dup_value v s1)\<lparr>rec_heap := (rec_heap s1)(a \<mapsto> r\<lparr>mr_value := v\<rparr>)\<rparr>)"
        using w absent(2) s1(1) r by (simp add: js_map_set_def v_def)
      moreover have "map_option (upd c v) (pend s1 i) = map_option (\<lambda>p. p @ [(c, v)]) (pend s i)" for i
        using s1(7)[of i] u pend_keys[of s i] by (cases "pend s i") simp_all
      ultimately show ?thesis using st s1(6) u[OF order_refl] nc by simp
    qed
  qed
qed

lemma found_entry:
  assumes "map_inv s" "a \<in> set (records s)" "lv s a"
  shows "map_of (entries s) (canon (mr_key (the_rec s a))) = Some (mr_value (the_rec s a))"
  using map_of_is_SomeI[of "entries s"] entry_of[OF assms(2,3)] assms(1) by (simp add: map_inv_def keys_ok_def ent_def)

lemma absent_entry:
  "\<forall>a\<in>set (records s). lv s a \<longrightarrow> canon (mr_key (the_rec s a)) \<noteq> c \<Longrightarrow> map_of (entries s) c = None"
  using absent_entries[of s c] by (simp add: map_of_eq_None_iff)

lemma js_map_get_spec:
  assumes inv: "map_inv s" and k: "key_ok (map_normalize_key key)"
  shows "\<exists>x. js_map_get s key =
    Some (case map_of (entries s) (canon (map_normalize_key key)) of None \<Rightarrow> VUndefined | Some v \<Rightarrow> v, s\<lparr>val_refs := x\<rparr>)"
  using inv k
proof (cases rule: map_find_record_spec)
  case (found a)
  obtain r where r: "rec_heap s a = Some r" using rec_in[OF inv found(1)] by blast
  then show ?thesis using found(4) found_entry[OF inv found(1,2), unfolded found(3)] by (auto simp: js_map_get_def dup_value_def)
next
  case absent
  then show ?thesis using absent_entry[OF absent(1)] by (intro exI[of _ "val_refs s"]) (simp add: js_map_get_def)
qed

lemma js_map_has_spec:
  assumes inv: "map_inv s" and k: "key_ok (map_normalize_key key)"
  shows "js_map_has s key = Some (canon (map_normalize_key key) \<in> fst ` set (entries s))"
  using inv k
proof (cases rule: map_find_record_spec)
  case (found a)
  then show ?thesis using entry_of[OF found(1,2)] by (force simp: js_map_has_def ent_def found(3))
next
  case absent
  then show ?thesis using absent_entries[OF absent(1)] by (simp add: js_map_has_def)
qed

section \<open>Deleting a record\<close>

text \<open>The record \<open>a\<close> leaves the table and is freed, or stays as an empty record under an iterator.\<close>

definition removes :: "map_state \<Rightarrow> nat \<Rightarrow> map_state \<Rightarrow> bool" where
  "removes s a s' \<longleftrightarrow> is_weak s' = is_weak s \<and> iterators s' = iterators s \<and> hash_size s' = hash_size s \<and>
     hash_table s' = map (remove1 a) (hash_table s) \<and> record_count s' = record_count s - 1 \<and>
     (\<forall>b. b \<noteq> a \<longrightarrow> rec_heap s' b = rec_heap s b) \<and>
     (records s' = remove1 a (records s) \<and> rec_heap s' a = None \<and> lockers s a = {} \<or>
      records s' = records s \<and> lockers s a \<noteq> {} \<and>
        (\<exists>r'. rec_heap s' a = Some r' \<and> mr_empty r' \<and> mr_ref_count r' = mr_ref_count (the_rec s a) - 1))"

lemma filter_key_length: "distinct (map fst xs) \<Longrightarrow> c \<in> fst ` set xs \<Longrightarrow> Suc (length (filter (\<lambda>e. fst e \<noteq> c) xs)) = length xs"
proof (induction xs)
  case (Cons x xs)
  show ?case
  proof (cases "fst x = c")
    case True
    then have "filter (\<lambda>e. fst e \<noteq> c) xs = xs" using Cons.prems(1) by (intro filter_True) (auto simp: image_iff)
    then show ?thesis using True by simp
  next
    case False
    then show ?thesis using Cons by auto
  qed
qed simp

lemma removes_vis:
  assumes inv: "map_inv s" and a: "a \<in> set (records s)" "lv s a" and s': "removes s a s'" and rs: "set rs \<subseteq> set (records s)"
  shows "vis s' (filter (\<lambda>b. b \<noteq> a) rs) = filter (\<lambda>e. fst e \<noteq> canon (mr_key (the_rec s a))) (vis s rs)"
proof -
  have same: "lv s' b = lv s b" "ent s' b = ent s b" if "b \<noteq> a" for b using s' that by (simp_all add: removes_def lv_def ent_def)
  have key: "fst (ent s b) \<noteq> canon (mr_key (the_rec s a)) \<longleftrightarrow> b \<noteq> a" if "b \<in> set rs" "lv s b" for b
    using live_key_inj[OF inv _ a(1) that(2) a(2), of] that(1) rs by (auto simp: ent_def)
  have "filter (lv s') (filter (\<lambda>b. b \<noteq> a) rs) = filter (\<lambda>b. fst (ent s b) \<noteq> canon (mr_key (the_rec s a))) (filter (lv s) rs)"
    unfolding filter_filter using same(1) key by (intro filter_cong) auto
  moreover have "map (ent s') (filter (\<lambda>b. fst (ent s b) \<noteq> canon (mr_key (the_rec s a))) (filter (lv s) rs)) =
      map (ent s) (filter (\<lambda>b. fst (ent s b) \<noteq> canon (mr_key (the_rec s a))) (filter (lv s) rs))"
    using same(2) key by (intro map_cong) auto
  ultimately show ?thesis by (simp add: vis_def filter_map comp_def)
qed

lemma removes_abs:
  assumes inv: "map_inv s" and a: "a \<in> set (records s)" "lv s a" and s': "removes s a s'"
  defines "f \<equiv> filter (\<lambda>e. fst e \<noteq> canon (mr_key (the_rec s a)))"
  shows "entries s' = f (entries s)" "pend s' i = map_option f (pend s i)"
proof -
  note vis = removes_vis[OF inv a s', folded f_def]
  have d: "distinct (records s)" using inv by (simp add: map_inv_def)
  have it: "iterators s' = iterators s" using s' by (simp add: removes_def)
  have rem: "remove1 a rs = filter (\<lambda>b. b \<noteq> a) rs" if "distinct rs" for rs
    using that by (simp add: distinct_remove1_removeAll removeAll_filter_not_eq) (metis (mono_tags) eq_commute)
  have zomb: "vis s' (filter (\<lambda>b. b \<noteq> a) rs) = vis s' rs" if "\<not> lv s' a" for rs
    using that by (auto simp: vis_def filter_filter intro!: arg_cong[where f = "map _"] filter_cong)
  have dist: "distinct (after (records s) cur)" for cur using d by (cases cur) (auto simp: after_def distinct_tl)
  consider (gone) "records s' = remove1 a (records s)" "lockers s a = {}" | (zombie) "records s' = records s" "\<not> lv s' a"
    using s' by (auto simp: removes_def lv_def)
  note cases = this
  show "entries s' = f (entries s)" using cases vis[OF order_refl] rem[OF d] zomb by cases (simp_all add: entries_def)
  show "pend s' i = map_option f (pend s i)"
  proof (rule pendI[OF it])
    fix iter assume iter: "iterators s i = Some iter" "it_obj iter"
    let ?A = "after (records s) (cur_record iter)"
    from cases show "vis s' (after (records s') (cur_record iter)) = f (vis s ?A)"
    proof cases
      case gone
      then have "cur_record iter \<noteq> Some a" using iter by (auto simp: lockers_def)
      then have "after (remove1 a (records s)) (cur_record iter) = remove1 a ?A"
        using d iterator_on[OF inv iter(1)] by (intro after_remove) auto
      then show ?thesis using gone(1) rem[OF dist] vis[OF after_subset] by simp
    next
      case zombie
      then show ?thesis using vis[OF after_subset] zomb by simp
    qed
  qed
qed

lemma lockers_finite: "map_inv s \<Longrightarrow> finite (lockers s a)"
  by (rule finite_subset[of _ "dom (iterators s)"]) (auto simp: lockers_def map_inv_def refs_ok_def)

lemma removes_same: "removes s a s' \<Longrightarrow> b \<noteq> a \<Longrightarrow> lv s' b = lv s b \<and> the_rec s' b = the_rec s b"
  by (simp add: removes_def lv_def)

lemma removes_live:
  assumes s': "removes s a s'" and d: "distinct (records s)"
  shows "b \<in> set (records s') \<and> lv s' b \<longleftrightarrow> b \<in> set (records s) \<and> lv s b \<and> b \<noteq> a"
proof (cases "b = a")
  case True
  then show ?thesis using s' d by (auto simp: removes_def lv_def)
next
  case False
  moreover have "b \<in> set (records s') \<longleftrightarrow> b \<in> set (records s)" using s' False by (auto simp: removes_def)
  ultimately show ?thesis using removes_same[OF s' False] by simp
qed

lemma removes_table:
  assumes inv: "map_inv s" and a: "a \<in> set (records s)" "lv s a" and s': "removes s a s'"
  shows "table_ok s'"
proof -
  have t: "hash_size s \<noteq> 0" "unat (hash_size s) < 2 ^ 31" "length (hash_table s) = unat (hash_size s)"
      "\<And>j. j < length (hash_table s) \<Longrightarrow> distinct (hash_table s ! j) \<and>
        set (hash_table s ! j) = {a \<in> set (records s). lv s a \<and> hash_slot (hash_size s) (mr_key (the_rec s a)) = Some j}"
    using inv by (simp_all add: map_inv_def table_ok_def)
  have d: "distinct (records s)" using inv by (simp add: map_inv_def)
  have "{b \<in> set (records s'). lv s' b \<and> hash_slot (hash_size s) (mr_key (the_rec s' b)) = Some j} =
      {b \<in> set (records s). lv s b \<and> hash_slot (hash_size s) (mr_key (the_rec s b)) = Some j} - {a}" for j
  proof (rule set_eqI)
    fix b
    show "b \<in> {b \<in> set (records s'). lv s' b \<and> hash_slot (hash_size s) (mr_key (the_rec s' b)) = Some j} \<longleftrightarrow>
        b \<in> {b \<in> set (records s). lv s b \<and> hash_slot (hash_size s) (mr_key (the_rec s b)) = Some j} - {a}"
      using removes_live[OF s' d, of b] removes_same[OF s', of b] by (cases "b = a") auto
  qed
  moreover have "hash_size s' = hash_size s" "hash_table s' = map (remove1 a) (hash_table s)" using s' by (simp_all add: removes_def)
  ultimately show ?thesis using t by (simp add: table_ok_def distinct_remove1)
qed

lemma removes_inv:
  assumes inv: "map_inv s" and a: "a \<in> set (records s)" "lv s a" and s': "removes s a s'"
  shows "map_inv s'"
proof -
  let ?c = "canon (mr_key (the_rec s a))"
  note e = removes_abs(1)[OF inv a s']
  have d: "distinct (records s)" "dom (rec_heap s) = set (records s)" "distinct (map fst (entries s))" "\<not> is_weak s"
    using inv by (simp_all add: map_inv_def keys_ok_def)
  have same: "lv s' b = lv s b" "the_rec s' b = the_rec s b" if "b \<noteq> a" for b using s' that by (simp_all add: removes_def lv_def)
  have rs: "set (records s') \<subseteq> set (records s)" "distinct (records s')" using s' d(1) by (auto simp: removes_def dest: notin_set_remove1)
  have dom: "dom (rec_heap s') = set (records s')"
  proof -
    have "rec_heap s' b = rec_heap s b" if "b \<noteq> a" for b using s' that by (simp add: removes_def)
    then have o: "b \<in> dom (rec_heap s') \<longleftrightarrow> b \<in> set (records s)" if "b \<noteq> a" for b using that d(2) by (auto simp: dom_def)
    have "a \<in> dom (rec_heap s') \<longleftrightarrow> a \<in> set (records s')" using s' d(1) a(1) by (auto simp: removes_def)
    moreover have "b \<in> set (records s') \<longleftrightarrow> b \<in> set (records s)" if "b \<noteq> a" for b using s' that by (auto simp: removes_def)
    ultimately have "b \<in> dom (rec_heap s') \<longleftrightarrow> b \<in> set (records s')" for b using o[of b] by (cases "b = a") auto
    then show ?thesis by (rule set_eqI)
  qed
  have "keys_ok s'"
  proof -
    have "distinct (map fst (filter (\<lambda>e. fst e \<noteq> ?c) (entries s)))" using d(3) by (simp add: distinct_map_filter)
    moreover have "key_ok (mr_key (the_rec s' b))" if "b \<in> set (records s')" "lv s' b" for b
    proof -
      have "b \<noteq> a" using removes_live[OF s' d(1), of b] that by blast
      then show ?thesis using same that rs(1) inv by (auto simp: map_inv_def keys_ok_def)
    qed
    ultimately show ?thesis by (simp add: keys_ok_def e)
  qed
  moreover have "refs_ok s'"
  proof -
    have it: "iterators s' = iterators s" and lk: "lockers s' = lockers s" using s' by (auto simp: removes_def lockers_def fun_eq_iff)
    have r: "mr_ref_count (the_rec s b) = of_bool (lv s b) + int (card (lockers s b)) \<and> (lv s b \<or> lockers s b \<noteq> {})" if "b \<in> set (records s)" for b
      using inv that by (simp add: map_inv_def refs_ok_def)
    have "mr_ref_count (the_rec s' b) = of_bool (lv s' b) + int (card (lockers s b)) \<and> (lv s' b \<or> lockers s b \<noteq> {})" if "b \<in> set (records s')" for b
    proof (cases "b = a")
      case True
      then show ?thesis using s' r[OF a(1)] a(2) that d(1) by (auto simp: removes_def lv_def)
    next
      case False
      then show ?thesis using r[of b] same that rs(1) by auto
    qed
    moreover have "c \<in> set (records s')" if "iterators s i = Some iter" "cur_record iter = Some c" for i iter c
    proof -
      have "i \<in> lockers s c" using that by (auto simp: lockers_def)
      then show ?thesis using s' iterator_on[OF inv that] by (cases "c = a") (auto simp: removes_def)
    qed
    ultimately show ?thesis using inv iterator_on[OF inv] by (auto simp: map_inv_def refs_ok_def it lk)
  qed
  moreover have "unat (record_count s') = length (entries s')"
  proof -
    have l: "Suc (length (entries s')) = length (entries s)"
      unfolding e using entry_of[OF a] by (intro filter_key_length[OF d(3)]) (force simp: ent_def)
    have u: "unat (record_count s) = length (entries s)" using inv by (simp add: map_inv_def)
    then have "record_count s \<noteq> 0" using l by auto
    then have "unat (record_count s - 1) = unat (record_count s) - 1" by (simp add: unat_minus_one)
    then show ?thesis using l u s' by (simp add: removes_def)
  qed
  ultimately show ?thesis using removes_table[OF inv a s'] dom rs(2) s' d(4) by (simp add: map_inv_def removes_def)
qed

lemma map_delete_record_removes:
  assumes inv: "map_inv s" and a: "a \<in> set (records s)" "lv s a" and fv: "quiet fv"
  shows "\<exists>s'. map_delete_record fv s a = Some s' \<and> removes s a s'"
proof -
  obtain r where r: "rec_heap s a = Some r" using rec_in[OF inv a(1)] by blast
  have live: "\<not> mr_empty r" "mr_ref_count r = 1 + int (card (lockers s a))" using a r inv by (auto simp: lv_def map_inv_def refs_ok_def)
  have rc: "mr_ref_count r = 1 \<longleftrightarrow> lockers s a = {}" using live(2) lockers_finite[OF inv, of a] by simp
  have ok: "key_ok (mr_key (the_rec s a))" using inv a by (simp add: map_inv_def keys_ok_def)
  obtain j where j: "hash_slot (hash_size s) (mr_key (the_rec s a)) = Some j" "j < length (hash_table s)"
    using hash_slot_ok[OF ok, of "hash_size s"] inv by (auto simp: map_inv_def table_ok_def)
  then have "a \<in> set (hash_table s ! j)" using inv a by (simp add: map_inv_def table_ok_def)
  then have ex: "list_ex (\<lambda>b. a \<in> set b) (hash_table s)" using j(2) by (auto simp: list_ex_iff)
  let ?t = "map (remove1 a) (hash_table s)"
  obtain x where x: "fv (mr_key r) (s\<lparr>hash_table := ?t\<rparr>) = Some (s\<lparr>hash_table := ?t, val_refs := x\<rparr>)"
    using fv by (rule quietE[of fv "mr_key r" "s\<lparr>hash_table := ?t\<rparr>"]) simp
  obtain y where y: "fv (mr_value r) (s\<lparr>hash_table := ?t, val_refs := x\<rparr>) = Some (s\<lparr>hash_table := ?t, val_refs := y\<rparr>)"
    using fv by (rule quietE[of fv "mr_value r" "s\<lparr>hash_table := ?t, val_refs := x\<rparr>"]) simp
  let ?g = "s\<lparr>hash_table := ?t, val_refs := y, records := remove1 a (records s), rec_heap := (rec_heap s)(a := None), record_count := record_count s - 1\<rparr>"
  let ?z = "s\<lparr>hash_table := ?t, val_refs := y, rec_heap := (rec_heap s)(a \<mapsto> r\<lparr>mr_ref_count := mr_ref_count r - 1, mr_empty := True,
      mr_key := VUndefined, mr_value := VUndefined\<rparr>), record_count := record_count s - 1\<rparr>"
  have "map_delete_record fv s a = Some (if mr_ref_count r - 1 = 0 then ?g else ?z)"
    using r live(1) ex x y a(1) inv by (simp add: map_delete_record_def unlink_hash_def free_record_def map_inv_def)
  moreover have "removes s a (if mr_ref_count r - 1 = 0 then ?g else ?z)" using rc r by (simp add: removes_def)
  ultimately show ?thesis by blast
qed

lemma js_map_delete_spec:
  assumes inv: "map_inv s" and fv: "quiet fv" and k: "key_ok (map_normalize_key key)"
  defines "c \<equiv> canon (map_normalize_key key)"
  shows "\<exists>s'. js_map_delete fv s key = Some (c \<in> fst ` set (entries s), s') \<and> map_inv s' \<and>
    entries s' = filter (\<lambda>e. fst e \<noteq> c) (entries s) \<and> (\<forall>i. pend s' i = map_option (filter (\<lambda>e. fst e \<noteq> c)) (pend s i))"
  using inv k
proof (cases rule: map_find_record_spec)
  case (found a)
  obtain s' where s': "map_delete_record fv s a = Some s'" "removes s a s'" using map_delete_record_removes[OF inv found(1,2) fv] by blast
  have "c \<in> fst ` set (entries s)" using entry_of[OF found(1,2)] found(3) by (force simp: ent_def c_def)
  then show ?thesis using s'(1) found(4) removes_inv[OF inv found(1,2) s'(2)] removes_abs[OF inv found(1,2) s'(2)]
    by (simp add: js_map_delete_def found(3) c_def)
next
  case absent
  have nc: "c \<notin> fst ` set (entries s)" using absent_entries[OF absent(1)] by (simp add: c_def)
  then have f: "filter (\<lambda>e. fst e \<noteq> c) xs = xs" if "fst ` set xs \<subseteq> fst ` set (entries s)" for xs using that by (intro filter_True) auto
  have "map_option (filter (\<lambda>e. fst e \<noteq> c)) (pend s i) = pend s i" for i using f pend_keys[of s i] by (cases "pend s i") simp_all
  then show ?thesis using absent(2) inv nc f[OF order_refl] by (simp add: js_map_delete_def c_def)
qed

section \<open>Clearing a map\<close>

lemma next_in_split: "distinct (xs @ a # ys) \<Longrightarrow> next_in (xs @ a # ys) a = Some (first_in ys)"
  by (induction xs) (auto simp: first_in_def)

lemma next_or_head_split:
  "distinct (xs @ ys) \<Longrightarrow> records s = xs @ ys \<Longrightarrow> next_or_head s (first_in ys) = Some (first_in (tl ys))"
  by (cases ys) (simp_all add: next_or_head_def first_in_def[of "[]"] first_in_def[of "_ # _"] next_in_split)

lemma clear_step:
  assumes inv: "map_inv s" and fv: "quiet fv" and rs: "records s = xs @ a # ys" "\<forall>b\<in>set xs. \<not> lv s b"
  shows "\<exists>s' xs'. map_delete_record fv s a = Some s' \<and> map_inv s' \<and> records s' = xs' @ ys \<and> (\<forall>b\<in>set xs'. \<not> lv s' b) \<and>
    (\<forall>i. pend s' i = None \<longleftrightarrow> pend s i = None)"
proof (cases "lv s a")
  case False
  have "a \<in> set (records s)" using rs(1) by simp
  then obtain r where "rec_heap s a = Some r" using rec_in[OF inv] by blast
  then have "map_delete_record fv s a = Some s" using False by (simp add: map_delete_record_def lv_def)
  then show ?thesis using inv rs False by (intro exI[of _ s] exI[of _ "xs @ [a]"]) auto
next
  case True
  have a: "a \<in> set (records s)" using rs(1) by simp
  have d: "distinct (xs @ a # ys)" using inv rs(1) by (simp add: map_inv_def)
  obtain s' where s': "map_delete_record fv s a = Some s'" "removes s a s'" using map_delete_record_removes[OF inv a True fv] by blast
  have o: "\<not> lv s' b" if "b \<in> set xs" for b using removes_same[OF s'(2), of b] rs(2) that d by auto
  have p: "pend s' i = None \<longleftrightarrow> pend s i = None" for i using removes_abs(2)[OF inv a True s'(2), of i] by simp
  have "\<exists>xs'. records s' = xs' @ ys \<and> (\<forall>b\<in>set xs'. \<not> lv s' b)"
  proof (cases "records s' = records s")
    case True
    then have "\<not> lv s' a" using removes_live[OF s'(2), of a] inv a by (auto simp: map_inv_def)
    then show ?thesis using True rs(1) o by (intro exI[of _ "xs @ [a]"]) auto
  next
    case False
    then have "records s' = remove1 a (xs @ a # ys)" using s'(2) rs(1) by (auto simp: removes_def)
    then show ?thesis using d o by (intro exI[of _ xs]) (simp add: remove1_append)
  qed
  then show ?thesis using s'(1) removes_inv[OF inv a True s'(2)] p by blast
qed

lemma clear_loop_spec:
  assumes fv: "quiet fv"
  shows "map_inv s \<Longrightarrow> records s = xs @ ys \<Longrightarrow> \<forall>b\<in>set xs. \<not> lv s b \<Longrightarrow>
    \<exists>s'. clear_loop fv (first_in ys) (first_in (tl ys)) s = Some s' \<and> map_inv s' \<and> entries s' = [] \<and>
      (\<forall>i. pend s' i = None \<longleftrightarrow> pend s i = None)"
proof (induction ys arbitrary: s xs)
  case Nil
  then show ?case by (subst clear_loop.simps) (simp add: first_in_def entries_def vis_def)
next
  case (Cons a ys)
  obtain s1 xs1 where s1: "map_delete_record fv s a = Some s1" "map_inv s1" "records s1 = xs1 @ ys" "\<forall>b\<in>set xs1. \<not> lv s1 b"
      "\<And>i. pend s1 i = None \<longleftrightarrow> pend s i = None"
    using clear_step[OF Cons.prems(1) fv Cons.prems(2,3)] by blast
  have "next_or_head s1 (first_in ys) = Some (first_in (tl ys))"
    using s1(2,3) by (intro next_or_head_split[of xs1]) (auto simp: map_inv_def)
  then have "clear_loop fv (first_in (a # ys)) (first_in (tl (a # ys))) s = clear_loop fv (first_in ys) (first_in (tl ys)) s1"
    using s1(1) by (subst clear_loop.simps) (simp add: first_in_def[of "_ # _"])
  then show ?case using Cons.IH[OF s1(2-4)] s1(5) by simp
qed

lemma js_map_clear_spec:
  assumes inv: "map_inv s" and fv: "quiet fv"
  shows "\<exists>s'. js_map_clear fv s = Some s' \<and> map_inv s' \<and> entries s' = [] \<and> (\<forall>i. pend s' i = map_option (\<lambda>_. []) (pend s i))"
proof -
  obtain s' where s': "clear_loop fv (first_in (records s)) (first_in (tl (records s))) s = Some s'" "map_inv s'" "entries s' = []"
      "\<And>i. pend s' i = None \<longleftrightarrow> pend s i = None"
    using clear_loop_spec[OF fv inv, of "[]" "records s"] by auto
  have "pend s' i = map_option (\<lambda>_. []) (pend s i)" for i
    using s'(3) s'(4)[of i] pend_keys[of s' i] by (cases "pend s' i"; cases "pend s i") auto
  moreover have "js_map_clear fv s = Some s'"
    using s'(1) next_or_head_split[of "[]" "records s" s] inv by (simp add: js_map_clear_def map_inv_def)
  ultimately show ?thesis using s' by blast
qed

end
