(* ===== verification/Js_Map_Iter.thy ===== *)
theory Js_Map_Iter
  imports Js_Map_Inv
begin

text \<open>
  The iterators of \<^verbatim>\<open>Map\<close> and \<^verbatim>\<open>Set\<close>: they survive every change of the map between two steps and
  visit exactly the entries behind their position.
\<close>

section \<open>Locking and unlocking records\<close>

lemma lockers_upd:
  "lockers (s\<lparr>iterators := (iterators s)(i := x)\<rparr>) a =
     (if (\<exists>it. x = Some it \<and> cur_record it = Some a) then insert i (lockers s a) else lockers s a - {i})"
  by (auto simp: lockers_def)

text \<open>Changes of the reference counts, and of records that are not live, keep the rest of the invariant.\<close>

lemma map_inv_refs:
  assumes inv: "map_inv s" and same: "is_weak s' = is_weak s" "hash_table s' = hash_table s" "hash_size s' = hash_size s" "record_count s' = record_count s"
    and rs: "records s' = filter Q (records s)" "\<And>b. b \<in> set (records s) \<Longrightarrow> lv s b \<Longrightarrow> Q b" and dom: "dom (rec_heap s') = set (records s')"
    and r: "\<And>b. b \<in> set (records s') \<Longrightarrow> lv s' b = lv s b \<and> mr_key (the_rec s' b) = mr_key (the_rec s b) \<and> ent s' b = ent s b"
    and refs: "refs_ok s'"
  shows "map_inv s'" "entries s' = entries s" "set xs \<subseteq> set (records s) \<Longrightarrow> vis s' (filter Q xs) = vis s xs"
proof -
  show v: "vis s' (filter Q xs) = vis s xs" if "set xs \<subseteq> set (records s)" for xs
  proof -
    have q: "lv s' b = lv s b \<and> ent s' b = ent s b" if "b \<in> set xs" "Q b" for b using r[of b] that \<open>set xs \<subseteq> set (records s)\<close> rs(1) by auto
    have "filter (lv s') (filter Q xs) = filter (lv s) xs"
      unfolding filter_filter using q rs(2) that by (intro filter_cong) auto
    moreover have "map (ent s') (filter (lv s) xs) = map (ent s) (filter (lv s) xs)"
      using q rs(2) that by (intro map_cong) auto
    ultimately show ?thesis by (simp add: vis_def)
  qed
  show e: "entries s' = entries s" using v[OF order_refl] by (simp add: entries_def rs(1))
  have "{b \<in> set (records s'). lv s' b \<and> hash_slot (hash_size s) (mr_key (the_rec s' b)) = Some j} =
      {b \<in> set (records s). lv s b \<and> hash_slot (hash_size s) (mr_key (the_rec s b)) = Some j}" for j
    using r rs by auto
  then have "table_ok s'" using inv by (simp add: map_inv_def table_ok_def same)
  moreover have "keys_ok s'" using inv r rs by (auto simp: map_inv_def keys_ok_def e)
  ultimately show "map_inv s'" using inv dom refs e by (simp add: map_inv_def same rs(1))
qed

lemma refs_okI:
  assumes "finite (dom (iterators s))"
    and "\<And>a. a \<in> set (records s) \<Longrightarrow> mr_ref_count (the_rec s a) = of_bool (lv s a) + int (card (lockers s a)) \<and> (lv s a \<or> lockers s a \<noteq> {})"
    and "\<And>i it a. iterators s i = Some it \<Longrightarrow> cur_record it = Some a \<Longrightarrow> it_obj it \<and> a \<in> set (records s)"
  shows "refs_ok s"
  using assms by (simp add: refs_ok_def)

definition unlocked :: "map_state \<Rightarrow> nat \<Rightarrow> map_state \<Rightarrow> bool" where
  "unlocked s a s1 \<longleftrightarrow> (\<exists>Q. records s1 = filter Q (records s) \<and> (\<forall>b\<in>set (records s). b \<noteq> a \<or> lv s b \<longrightarrow> Q b) \<and>
     (\<forall>xs. set xs \<subseteq> set (records s) \<longrightarrow> vis s1 (filter Q xs) = vis s xs)) \<and>
     (\<forall>b. b \<noteq> a \<longrightarrow> rec_heap s1 b = rec_heap s b) \<and> iterators s1 = iterators s"

lemma drop_lock:
  assumes inv: "map_inv s" and x: "\<And>it'. x = Some it' \<Longrightarrow> cur_record it' = None"
    and s1: "s1 = s\<lparr>records := filter Q (records s), rec_heap := h\<rparr>" and dom: "dom h = set (records s1)"
    and same: "\<And>b. b \<in> set (records s1) \<Longrightarrow> lv s1 b = lv s b \<and> mr_key (the_rec s1 b) = mr_key (the_rec s b) \<and> ent s1 b = ent s b"
    and ref: "\<And>b. b \<in> set (records s1) \<Longrightarrow>
      mr_ref_count (the_rec s1 b) = of_bool (lv s b) + int (card (lockers s b - {i})) \<and> (lv s b \<or> lockers s b - {i} \<noteq> {})"
    and gone: "\<And>b. b \<in> set (records s) \<Longrightarrow> \<not> Q b \<Longrightarrow> \<not> lv s b \<and> lockers s b - {i} = {}"
  shows "map_inv (s1\<lparr>iterators := (iterators s)(i := x)\<rparr>)"
    "set xs \<subseteq> set (records s) \<Longrightarrow> vis s1 (filter Q xs) = vis s xs"
proof -
  let ?s = "s1\<lparr>iterators := (iterators s)(i := x)\<rparr>"
  have lk: "lockers ?s b = lockers s b - {i}" for b using x by (auto simp: lockers_def)
  note h = heap_cong(1,2,3)[of ?s s1, simplified]
  have "it_obj it' \<and> c \<in> set (records ?s)" if j: "iterators ?s j = Some it'" "cur_record it' = Some c" for j it' c
  proof -
    have "j \<noteq> i" "iterators s j = Some it'" using j x by (auto split: if_splits)
    then have "j \<in> lockers s c - {i}" "it_obj it' \<and> c \<in> set (records s)" using j(2) iterator_on[OF inv, of j it' c] by (auto simp: lockers_def)
    then show ?thesis using gone[of c] by (auto simp: s1)
  qed
  then have refs: "refs_ok ?s"
    using ref same inv unfolding lk by (intro refs_okI) (simp_all add: lk h map_inv_def refs_ok_def)
  have sel: "is_weak ?s = is_weak s" "hash_table ?s = hash_table s" "hash_size ?s = hash_size s" "record_count ?s = record_count s"
    "records ?s = filter Q (records s)" "dom (rec_heap ?s) = set (records ?s)" using dom by (simp_all add: s1)
  have "lv ?s b = lv s b \<and> mr_key (the_rec ?s b) = mr_key (the_rec s b) \<and> ent ?s b = ent s b" if "b \<in> set (records ?s)" for b
    using same[of b] that unfolding h by simp
  note M = map_inv_refs[of s ?s Q, OF inv sel(1-5) _ sel(6) this refs]
  show "map_inv ?s" using M(1) gone by blast
  show "vis s1 (filter Q xs) = vis s xs" if "set xs \<subseteq> set (records s)" using M(3)[OF _ _ that] gone h(3) by metis
qed

lemma map_decref_record_spec:
  assumes inv: "map_inv s" and i: "iterators s i = Some it" "cur_record it = Some a"
    and x: "\<And>it'. x = Some it' \<Longrightarrow> cur_record it' = None"
  shows "\<exists>s1. map_decref_record s a = Some s1 \<and> map_inv (s1\<lparr>iterators := (iterators s)(i := x)\<rparr>) \<and> unlocked s a s1"
proof -
  have a: "a \<in> set (records s)" using iterator_on[OF inv i] by simp
  have d: "distinct (records s)" "dom (rec_heap s) = set (records s)" using inv by (simp_all add: map_inv_def)
  obtain r where r: "rec_heap s a = Some r" using rec_in[OF inv a] by blast
  let ?L = "lockers s a"
  have L: "i \<in> ?L" "finite ?L" using i lockers_finite[OF inv] by (auto simp: lockers_def)
  have R: "mr_ref_count (the_rec s b) = of_bool (lv s b) + int (card (lockers s b)) \<and> (lv s b \<or> lockers s b \<noteq> {})" if "b \<in> set (records s)" for b
    using inv that by (simp add: map_inv_def refs_ok_def)
  have rc: "mr_ref_count r = of_bool (lv s a) + 1 + int (card (?L - {i}))"
    using R[OF a] r card.remove[OF L(2,1)] by simp
  have "lockers s b - {i} = lockers s b" if "b \<noteq> a" for b using i that by (auto simp: lockers_def)
  then have other: "mr_ref_count (the_rec s b) = of_bool (lv s b) + int (card (lockers s b - {i})) \<and> (lv s b \<or> lockers s b - {i} \<noteq> {})"
    if "b \<in> set (records s)" "b \<noteq> a" for b using R[OF that(1)] that(2) by simp
  show ?thesis
  proof (cases "mr_ref_count r - 1 = 0")
    case True
    then have "\<not> lv s a" "card (?L - {i}) = 0" using rc by (auto simp: of_bool_def split: if_splits)
    then have z: "\<not> lv s a" "?L - {i} = {}" using L(2) card_0_eq[of "?L - {i}"] by blast+
    let ?Q = "\<lambda>b. b \<noteq> a"
    define s1 where "s1 = s\<lparr>records := filter ?Q (records s), rec_heap := (rec_heap s)(a := None)\<rparr>"
    have "remove1 a (records s) = filter ?Q (records s)"
      using d(1) by (simp add: distinct_remove1_removeAll removeAll_filter_not_eq) (metis (mono_tags) eq_commute)
    then have "map_decref_record s a = Some s1" using True r z(1) a by (simp add: map_decref_record_def free_record_def lv_def s1_def)
    moreover have dom: "dom ((rec_heap s)(a := None)) = set (records s1)" using d(2) by (auto simp: s1_def)
    moreover have sm: "lv s1 b = lv s b \<and> mr_key (the_rec s1 b) = mr_key (the_rec s b) \<and> ent s1 b = ent s b"
      "mr_ref_count (the_rec s1 b) = of_bool (lv s b) + int (card (lockers s b - {i})) \<and> (lv s b \<or> lockers s b - {i} \<noteq> {})"
      if "b \<in> set (records s1)" for b using that other by (auto simp: s1_def lv_def ent_def)
    ultimately have "map_inv (s1\<lparr>iterators := (iterators s)(i := x)\<rparr>)" "\<And>xs. set xs \<subseteq> set (records s) \<Longrightarrow> vis s1 (filter ?Q xs) = vis s xs"
        "map_decref_record s a = Some s1"
      using drop_lock[where x = x and Q = ?Q and i = i, OF inv x s1_def dom sm] z by auto
    then show ?thesis using z(1) by (auto simp: unlocked_def s1_def intro!: exI[of _ ?Q])
  next
    case False
    let ?Q = "\<lambda>b::nat. True"
    define s1 where "s1 = s\<lparr>records := filter ?Q (records s), rec_heap := (rec_heap s)(a \<mapsto> r\<lparr>mr_ref_count := mr_ref_count r - 1\<rparr>)\<rparr>"
    have "map_decref_record s a = Some s1" using False r by (simp add: map_decref_record_def s1_def)
    moreover have dom: "dom ((rec_heap s)(a \<mapsto> r\<lparr>mr_ref_count := mr_ref_count r - 1\<rparr>)) = set (records s1)" using d(2) a by (auto simp: s1_def)
    moreover have sm: "lv s1 b = lv s b \<and> mr_key (the_rec s1 b) = mr_key (the_rec s b) \<and> ent s1 b = ent s b" for b
      using r by (simp add: s1_def lv_def ent_def)
    moreover have rf: "mr_ref_count (the_rec s1 b) = of_bool (lv s b) + int (card (lockers s b - {i})) \<and> (lv s b \<or> lockers s b - {i} \<noteq> {})"
      if "b \<in> set (records s1)" for b using other[of b] that rc False L(2) by (cases "b = a") (auto simp: s1_def)
    ultimately have "map_inv (s1\<lparr>iterators := (iterators s)(i := x)\<rparr>)" "\<And>xs. set xs \<subseteq> set (records s) \<Longrightarrow> vis s1 (filter ?Q xs) = vis s xs"
        "map_decref_record s a = Some s1"
      using drop_lock[where x = x and Q = ?Q and i = i, OF inv x s1_def dom sm rf] by auto
    then show ?thesis by (auto simp: unlocked_def s1_def intro!: exI[of _ ?Q])
  qed
qed

lemma after_filter:
  assumes "distinct rs" "\<And>c. cur = Some c \<Longrightarrow> c \<in> set rs \<and> Q c"
  shows "after (filter Q rs) cur = filter Q (after rs cur)"
proof (cases cur)
  case (Some c)
  then obtain xs ys where rs: "rs = xs @ c # ys" "Q c" using split_list[of c rs] assms(2) by auto
  have "distinct (filter Q xs @ c # filter Q ys)" using assms(1) rs(1) by auto
  then show ?thesis using Some rs assms(1) after_split[of xs c ys] after_split[of "filter Q xs" c "filter Q ys"] by simp
qed (simp add: after_def)

text \<open>An iterator that stands on no record.\<close>

lemma map_inv_iterators:
  assumes inv: "map_inv s" and i: "\<And>it. iterators s i = Some it \<Longrightarrow> cur_record it = None" and x: "\<And>it. x = Some it \<Longrightarrow> cur_record it = None"
  shows "map_inv (s\<lparr>iterators := (iterators s)(i := x)\<rparr>)"
proof -
  let ?s = "s\<lparr>iterators := (iterators s)(i := x)\<rparr>"
  have lk: "lockers ?s a = lockers s a" for a using i x by (auto simp: lockers_def)
  have h: "rec_heap ?s = rec_heap s" by simp
  note c = heap_cong(1,2)[OF h]
  have refs: "refs_ok ?s"
  proof (rule refs_okI)
    show "it_obj it \<and> a \<in> set (records ?s)" if "iterators ?s j = Some it" "cur_record it = Some a" for j it a
      using that x iterator_on[OF inv, of j it a] by (auto split: if_splits)
  qed (use inv in \<open>simp_all add: lk c map_inv_def refs_ok_def\<close>)
  have "dom (rec_heap ?s) = set (records ?s)" using inv by (simp add: map_inv_def)
  then show ?thesis using map_inv_refs(1)[of s ?s "\<lambda>_. True", OF inv _ _ _ _ _ _ _ _ refs] c by simp
qed

lemma lock_record:
  assumes inv: "map_inv s" and i: "\<And>it. iterators s i = Some it \<Longrightarrow> cur_record it = None"
    and b: "b \<in> set (records s)" "rec_heap s b = Some r" and it': "it_obj it'" "cur_record it' = Some b"
  defines "s' \<equiv> s\<lparr>rec_heap := (rec_heap s)(b \<mapsto> r\<lparr>mr_ref_count := mr_ref_count r + 1\<rparr>), iterators := (iterators s)(i \<mapsto> it')\<rparr>"
  shows "map_inv s'" "vis s' = vis s" "entries s' = entries s"
proof -
  have h: "lv s' = lv s" "ent s' = ent s" "mr_key (the_rec s' c) = mr_key (the_rec s c)" for c using b(2) by (auto simp: s'_def lv_def ent_def fun_eq_iff)
  show v: "vis s' = vis s" by (rule ext) (simp only: vis_def h)
  then show "entries s' = entries s" by (simp add: entries_def s'_def)
  have i0: "i \<notin> lockers s c" for c using i by (auto simp: lockers_def)
  have lk: "lockers s' c = (if c = b then insert i (lockers s c) else lockers s c)" for c
    using i it'(2) by (auto simp: lockers_def s'_def)
  have R: "mr_ref_count (the_rec s c) = of_bool (lv s c) + int (card (lockers s c)) \<and> (lv s c \<or> lockers s c \<noteq> {})" if "c \<in> set (records s)" for c
    using inv that by (simp add: map_inv_def refs_ok_def)
  have refs: "refs_ok s'"
  proof (rule refs_okI)
    show "finite (dom (iterators s'))" using inv by (simp add: map_inv_def refs_ok_def s'_def)
    show "mr_ref_count (the_rec s' c) = of_bool (lv s' c) + int (card (lockers s' c)) \<and> (lv s' c \<or> lockers s' c \<noteq> {})" if "c \<in> set (records s')" for c
      using R[of c] that i0[of c] lockers_finite[OF inv, of c] b(2) unfolding lk h(1) by (auto simp: s'_def)
    show "it_obj it \<and> a \<in> set (records s')" if "iterators s' j = Some it" "cur_record it = Some a" for j it a
      using that b(1) it' iterator_on[OF inv, of j it a] by (auto simp: s'_def split: if_splits)
  qed
  have "dom (rec_heap s') = set (records s')" using inv b(1) by (auto simp: map_inv_def s'_def)
  then show "map_inv s'" using map_inv_refs(1)[of s s' "\<lambda>_. True", OF inv _ _ _ _ _ _ _ _ refs] h by (simp add: s'_def)
qed

lemma skip_empty_spec:
  "(\<And>a. a \<in> set as \<Longrightarrow> \<exists>r. rec_heap s a = Some r) \<Longrightarrow> skip_empty s as = Some (List.find (lv s) as)"
proof (induction as)
  case (Cons a as)
  obtain r where "rec_heap s a = Some r" using Cons.prems[of a] by auto
  then show ?case using Cons by (simp add: lv_def)
qed simp

lemma find_split: "List.find P xs = Some b \<Longrightarrow> \<exists>ys ws. xs = ys @ b # ws \<and> P b \<and> (\<forall>y\<in>set ys. \<not> P y)"
proof (induction xs)
  case (Cons x xs)
  show ?case
  proof (cases "P x")
    case True
    then show ?thesis using Cons.prems by (intro exI[of _ "[]"] exI[of _ xs]) auto
  next
    case False
    then obtain ys ws where "xs = ys @ b # ws" "P b" "\<forall>y\<in>set ys. \<not> P y" using Cons by auto
    then show ?thesis using False by (intro exI[of _ "x # ys"] exI[of _ ws]) auto
  qed
qed simp

section \<open>A step of an iterator\<close>

lemma leave_record:
  assumes inv: "map_inv s" and i: "iterators s i = Some it" and x: "\<And>it'. x = Some it' \<Longrightarrow> cur_record it' = None"
  shows "\<exists>s1. (case cur_record it of None \<Rightarrow> Some s | Some a \<Rightarrow> map_decref_record s a) = Some s1 \<and>
    map_inv (s1\<lparr>iterators := (iterators s)(i := x)\<rparr>) \<and> iterators s1 = iterators s \<and> entries s1 = entries s \<and>
    (\<exists>zs. records s1 = zs @ after (records s) (cur_record it)) \<and> vis s1 (after (records s) (cur_record it)) = vis s (after (records s) (cur_record it)) \<and>
    (\<forall>j. j \<noteq> i \<longrightarrow> pend s1 j = pend s j)"
proof (cases "cur_record it")
  case None
  have "map_inv (s\<lparr>iterators := (iterators s)(i := x)\<rparr>)" using map_inv_iterators[OF inv, of i x] i None x by simp
  then show ?thesis using None by (intro exI[of _ s]) (simp add: after_def)
next
  case (Some a)
  have a: "a \<in> set (records s)" using iterator_on[OF inv i Some] by simp
  have d: "distinct (records s)" using inv by (simp add: map_inv_def)
  obtain xs ys where rs: "records s = xs @ a # ys" using split_list[OF a] by blast
  then have af: "after (records s) (Some a) = ys" using d after_split[of xs a ys] by simp
  obtain s1 where s1: "map_decref_record s a = Some s1" "map_inv (s1\<lparr>iterators := (iterators s)(i := x)\<rparr>)" "unlocked s a s1"
    using map_decref_record_spec[OF inv i Some x] by blast
  obtain Q where Q: "records s1 = filter Q (records s)" "\<And>b. b \<in> set (records s) \<Longrightarrow> b \<noteq> a \<or> lv s b \<Longrightarrow> Q b"
      "\<And>xs. set xs \<subseteq> set (records s) \<Longrightarrow> vis s1 (filter Q xs) = vis s xs" and it1: "iterators s1 = iterators s"
    using s1(3) unfolding unlocked_def by blast
  have fy: "filter Q ys = ys" using Q(2) rs d by (intro filter_True) auto
  then have r1: "\<exists>zs. records s1 = zs @ ys" using Q(1) rs by simp
  have vy: "vis s1 ys = vis s ys" using Q(3)[of ys] fy rs by auto
  have e: "entries s1 = entries s" using Q(1) Q(3)[OF order_refl] by (simp add: entries_def)
  have "pend s1 j = pend s j" if "j \<noteq> i" for j
  proof -
    have "pend s1 j = map_option (\<lambda>p. p) (pend s j)"
    proof (rule pendI[OF it1])
      fix it' assume it': "iterators s j = Some it'" "it_obj it'"
      have "c \<in> set (records s) \<and> Q c" if "cur_record it' = Some c" for c
        using iterator_on[OF s1(2), of j it' c] it'(1) that \<open>j \<noteq> i\<close> Q(1) by auto
      then show "vis s1 (after (records s1) (cur_record it')) = vis s (after (records s) (cur_record it'))"
        using after_filter[OF d, of "cur_record it'" Q] Q(3)[OF after_subset] by (simp add: Q(1))
    qed
    then show ?thesis by (simp add: option.map_ident)
  qed
  then show ?thesis using s1(1,2) Some it1 e r1 vy af by auto
qed

lemma vis_iterators [simp]: "vis (s\<lparr>iterators := y\<rparr>) = vis s" "entries (s\<lparr>iterators := y\<rparr>) = entries s"
  by (rule heap_cong(3,4); simp)+

lemma pend_iterators:
  "pend (s\<lparr>iterators := (iterators s')(i := x)\<rparr>) j =
     (if j = i then (case x of None \<Rightarrow> None | Some it \<Rightarrow> if it_obj it then Some (vis s (after (records s) (cur_record it))) else None)
      else pend (s\<lparr>iterators := iterators s'\<rparr>) j)"
  by (cases x; cases "iterators s' j") (simp_all add: pend_def)

text \<open>What a step yields for an entry, by the kind of the iterator.\<close>

definition yields :: "bool \<Rightarrow> iterator_kind \<Rightarrow> ckey \<times> js_val \<Rightarrow> iter_result \<Rightarrow> bool" where
  "yields is_set kind e r \<longleftrightarrow> (\<exists>k. canon k = fst e \<and>
     (let v = (if is_set then k else snd e) in
      r = (case kind of JS_ITERATOR_KIND_KEY \<Rightarrow> Yield k | JS_ITERATOR_KIND_VALUE \<Rightarrow> Yield v | JS_ITERATOR_KIND_KEY_AND_VALUE \<Rightarrow> YieldPair k v)))"

lemma iter_result_yields:
  "\<exists>r x. iter_result is_set kind mr s = (r, s\<lparr>val_refs := x\<rparr>) \<and> yields is_set kind (canon (mr_key mr), mr_value mr) r"
  by (cases kind) (auto simp: iter_result_def yields_def dup_value_def Let_def)

definition advanced :: "map_state \<Rightarrow> nat \<Rightarrow> (ckey \<times> js_val) list option \<Rightarrow> map_state \<Rightarrow> bool" where
  "advanced s i p s' \<longleftrightarrow> map_inv s' \<and> entries s' = entries s \<and> (\<forall>j. pend s' j = (if j = i then p else pend s j)) \<and>
     (\<forall>j. map_option it_kind (iterators s' j) = map_option it_kind (iterators s j))"

lemma js_map_iterator_next_spec:
  assumes inv: "map_inv s" and i: "iterators s i = Some it"
  shows "\<exists>r s'. js_map_iterator_next is_set s i = Some (r, s') \<and>
    (case pend s i of
       None \<Rightarrow> r = Done \<and> s' = s
     | Some [] \<Rightarrow> r = Done \<and> advanced s i None s'
     | Some (e # p) \<Rightarrow> yields is_set (it_kind it) e r \<and> advanced s i (Some p) s')"
proof (cases "it_obj it")
  case False
  then show ?thesis using i by (simp add: js_map_iterator_next_def pend_def)
next
  case True
  let ?els = "after (records s) (cur_record it)" and ?x = "Some (it\<lparr>cur_record := None\<rparr>)"
  have p: "pend s i = Some (vis s ?els)" using i True by (simp add: pend_def)
  have ra: "records_after (records s) (cur_record it) = Some ?els" using records_after_Some iterator_on[OF inv i] by simp
  obtain s1 zs where s1: "(case cur_record it of None \<Rightarrow> Some s | Some a \<Rightarrow> map_decref_record s a) = Some s1"
      "map_inv (s1\<lparr>iterators := (iterators s)(i := ?x)\<rparr>)" "iterators s1 = iterators s" "entries s1 = entries s"
      "records s1 = zs @ ?els" "vis s1 ?els = vis s ?els" "\<And>j. j \<noteq> i \<Longrightarrow> pend s1 j = pend s j"
    using leave_record[OF inv i, of ?x] by auto
  let ?s2 = "s1\<lparr>iterators := (iterators s)(i := ?x)\<rparr>"
  have s1i: "s1\<lparr>iterators := iterators s\<rparr> = s1" using s1(3) by simp
  have ex: "\<exists>r. rec_heap s1 a = Some r" if "a \<in> set ?els" for a
    using rec_in[OF s1(2), of a] that s1(5) by auto
  have sk: "skip_empty s1 ?els = Some (List.find (lv s1) ?els)" by (rule skip_empty_spec) (rule ex)
  show ?thesis
  proof (cases "List.find (lv s1) ?els")
    case None
    let ?y = "Some (it\<lparr>cur_record := None, it_obj := False\<rparr>)"
    have "vis s ?els = []" using None s1(6) by (auto simp: vis_def find_None_iff filter_empty_conv)
    moreover have "advanced s i None (s1\<lparr>iterators := (iterators s)(i := ?y)\<rparr>)"
      using map_inv_iterators[OF s1(2), of i ?y] s1(4,7) i
      by (auto simp: advanced_def pend_iterators s1i)
    ultimately show ?thesis using i True ra s1(1,3) sk None p by (simp add: js_map_iterator_next_def)
  next
    case (Some b)
    obtain ys ws where els: "?els = ys @ b # ws" "lv s1 b" "\<forall>y\<in>set ys. \<not> lv s1 y"
      using find_split[OF Some] by blast
    obtain mr where mr: "rec_heap s1 b = Some mr" using ex[of b] els(1) by auto
    let ?y = "it\<lparr>cur_record := Some b\<rparr>"
    let ?s3 = "?s2\<lparr>rec_heap := (rec_heap ?s2)(b \<mapsto> mr\<lparr>mr_ref_count := mr_ref_count mr + 1\<rparr>), iterators := (iterators ?s2)(i \<mapsto> ?y)\<rparr>"
    let ?s4 = "s1\<lparr>rec_heap := (rec_heap s1)(b \<mapsto> mr\<lparr>mr_ref_count := mr_ref_count mr + 1\<rparr>), iterators := (iterators s)(i \<mapsto> ?y)\<rparr>"
    have eq: "?s3 = ?s4" by simp
    have b: "b \<in> set (records ?s2)" using s1(5) els(1) by simp
    have L: "map_inv ?s4" "vis ?s4 = vis s1" "entries ?s4 = entries s"
      using lock_record[OF s1(2), of i b mr ?y] b mr True s1(4) unfolding eq by simp_all
    have aft: "after (records s1) (Some b) = ws"
      using after_split[of "zs @ ys" b ws] s1(2,5) els(1) by (simp add: map_inv_def)
    have v: "vis s ?els = ent s1 b # vis s1 ws" using s1(6) els(2,3) unfolding els(1) by (auto simp: vis_def filter_empty_conv)
    have pe: "pend ?s4 j = (if j = i then Some (vis s1 ws) else pend s j)" for j
      using L(2) aft True s1(7)[of j] s1(3) by (cases "iterators s j") (auto simp: pend_def split: if_splits)
    obtain r x where r: "iter_result is_set (it_kind it) mr ?s4 = (r, ?s4\<lparr>val_refs := x\<rparr>)" "yields is_set (it_kind it) (ent s1 b) r"
      using iter_result_yields[of is_set "it_kind it" mr ?s4] mr by (auto simp: ent_def)
    have "js_map_iterator_next is_set s i = Some (r, ?s4\<lparr>val_refs := x\<rparr>)"
      using i True ra s1(1,3) sk Some mr r(1) by (simp add: js_map_iterator_next_def)
    moreover have "advanced s i (Some (vis s1 ws)) (?s4\<lparr>val_refs := x\<rparr>)"
      using L pe i by (auto simp: advanced_def)
    ultimately show ?thesis using p v r(2) by simp
  qed
qed

lemma js_map_iterator_finalizer_spec:
  assumes inv: "map_inv s" and i: "iterators s i = Some it"
  shows "\<exists>s'. js_map_iterator_finalizer s i = Some s' \<and> map_inv s' \<and> entries s' = entries s \<and>
    iterators s' = (iterators s)(i := None) \<and> (\<forall>j. pend s' j = (if j = i then None else pend s j))"
proof -
  obtain s1 where s1: "(case cur_record it of None \<Rightarrow> Some s | Some a \<Rightarrow> map_decref_record s a) = Some s1"
      "map_inv (s1\<lparr>iterators := (iterators s)(i := None)\<rparr>)" "iterators s1 = iterators s" "entries s1 = entries s"
      "\<And>j. j \<noteq> i \<Longrightarrow> pend s1 j = pend s j"
    using leave_record[OF inv i, of None] by auto
  have s1i: "s1\<lparr>iterators := iterators s\<rparr> = s1" using s1(3) by simp
  have "(if it_obj it then (case cur_record it of None \<Rightarrow> Some s | Some a \<Rightarrow> map_decref_record s a) else Some s) = Some s1"
    using s1(1) iterator_on[OF inv i] by (auto split: option.splits)
  then show ?thesis using i s1
    by (auto simp: js_map_iterator_finalizer_def pend_iterators s1i)
qed

lemma js_create_map_iterator_spec:
  assumes inv: "map_inv s" and ma: "fresh_ok ma"
  shows "case js_create_map_iterator ma kind s of
      (None, s') \<Rightarrow> s' = s
    | (Some i, s') \<Rightarrow> map_inv s' \<and> entries s' = entries s \<and> (\<forall>j. pend s' j = (if j = i then Some (entries s) else pend s j))"
proof (cases "ma s")
  case None
  then show ?thesis by (simp add: js_create_map_iterator_def)
next
  case (Some i)
  then have n: "iterators s i = None" using ma by (simp add: fresh_ok_def)
  let ?x = "Some \<lparr>it_obj = True, it_kind = kind, cur_record = None\<rparr>"
  have "map_inv (s\<lparr>iterators := (iterators s)(i := ?x)\<rparr>)" using map_inv_iterators[OF inv, of i ?x] n by simp
  then show ?thesis using Some by (simp add: js_create_map_iterator_def pend_iterators entries_def after_def)
qed

end
