(* ===== verification/Js_Map_Spec.thy ===== *)
theory Js_Map_Spec
  imports Js_Map_Iter
begin

text \<open>
  What a \<^verbatim>\<open>Map\<close> or \<^verbatim>\<open>Set\<close> promises: the entries in the order of insertion, and for each iterator the
  entries it still has to visit. Every operation of the hash table with its iterators implements
  the promise, in any order of calls. The last section shows where the promise ends: keys that the
  hash function treats differently from the equality, and finalizers that run inside
  \<^verbatim>\<open>js_map_clear\<close>.
\<close>

section \<open>Operations\<close>

text \<open>The entry points of a collection, as scripts call them.\<close>

datatype map_op =
    OpSet js_val js_val | OpGet js_val | OpHas js_val | OpDelete js_val | OpClear | OpSize
  | OpIterate iterator_kind | OpNext nat | OpFinalize nat

datatype map_res =
    RSet "map_error option" | RVal js_val | RBool bool | RUnit | RSize u32 | RIter "nat option" | RNext iter_result

fun map_exec :: "malloc_func \<Rightarrow> slack_func \<Rightarrow> free_func \<Rightarrow> bool \<Rightarrow> map_op \<Rightarrow> map_state \<Rightarrow> (map_res \<times> map_state) option" where
  "map_exec ma re fv is_set (OpSet k v) s = do { (e, s) \<leftarrow> js_map_set ma re fv is_set s k v; Some (RSet e, s) }"
| "map_exec ma re fv is_set (OpGet k) s = do { (v, s) \<leftarrow> js_map_get s k; Some (RVal v, s) }"
| "map_exec ma re fv is_set (OpHas k) s = do { b \<leftarrow> js_map_has s k; Some (RBool b, s) }"
| "map_exec ma re fv is_set (OpDelete k) s = do { (b, s) \<leftarrow> js_map_delete fv s k; Some (RBool b, s) }"
| "map_exec ma re fv is_set OpClear s = do { s \<leftarrow> js_map_clear fv s; Some (RUnit, s) }"
| "map_exec ma re fv is_set OpSize s = Some (RSize (js_map_get_size s), s)"
| "map_exec ma re fv is_set (OpIterate kind) s = (case js_create_map_iterator ma kind s of (i, s) \<Rightarrow> Some (RIter i, s))"
| "map_exec ma re fv is_set (OpNext i) s = do { (r, s) \<leftarrow> js_map_iterator_next is_set s i; Some (RNext r, s) }"
| "map_exec ma re fv is_set (OpFinalize i) s = do { s \<leftarrow> js_map_iterator_finalizer s i; Some (RUnit, s) }"

text \<open>A call is admissible on keys that the hash function handles and on iterators that exist.\<close>

fun op_ok :: "map_op \<Rightarrow> map_state \<Rightarrow> bool" where
  "op_ok (OpSet k v) s \<longleftrightarrow> key_ok (map_normalize_key k)"
| "op_ok (OpGet k) s \<longleftrightarrow> key_ok (map_normalize_key k)"
| "op_ok (OpHas k) s \<longleftrightarrow> key_ok (map_normalize_key k)"
| "op_ok (OpDelete k) s \<longleftrightarrow> key_ok (map_normalize_key k)"
| "op_ok (OpNext i) s \<longleftrightarrow> iterators s i \<noteq> None"
| "op_ok (OpFinalize i) s \<longleftrightarrow> iterators s i \<noteq> None"
| "op_ok _ s \<longleftrightarrow> True"

section \<open>The promise\<close>

type_synonym entry_list = "(ckey \<times> js_val) list"

text \<open>The entries, and for each iterator its kind and what it has still to visit, if it has not ended.\<close>

record amap =
  am_entries :: entry_list
  am_iters :: "nat \<rightharpoonup> iterator_kind \<times> entry_list option"

definition on_all :: "(entry_list \<Rightarrow> entry_list) \<Rightarrow> amap \<Rightarrow> amap" where
  "on_all f m = \<lparr>am_entries = f (am_entries m), am_iters = (\<lambda>i. map_option (map_prod id (map_option f)) (am_iters m i))\<rparr>"

definition key_in :: "js_val \<Rightarrow> amap \<Rightarrow> bool" where
  "key_in k m \<longleftrightarrow> canon (map_normalize_key k) \<in> fst ` set (am_entries m)"

inductive map_spec :: "bool \<Rightarrow> map_op \<Rightarrow> amap \<Rightarrow> map_res \<Rightarrow> amap \<Rightarrow> bool" for is_set where
  set: "map_spec is_set (OpSet k v) m (RSet None)
          (on_all (put (key_in k m) (canon (map_normalize_key k)) (if is_set then VUndefined else v)) m)"
| set_no_memory: "\<not> key_in k m \<Longrightarrow> map_spec is_set (OpSet k v) m (RSet (Some OutOfMemory)) m"
| get: "map_spec is_set (OpGet k) m (RVal (case map_of (am_entries m) (canon (map_normalize_key k)) of None \<Rightarrow> VUndefined | Some v \<Rightarrow> v)) m"
| has: "map_spec is_set (OpHas k) m (RBool (key_in k m)) m"
| delete: "map_spec is_set (OpDelete k) m (RBool (key_in k m)) (on_all (filter (\<lambda>e. fst e \<noteq> canon (map_normalize_key k))) m)"
| clear: "map_spec is_set OpClear m RUnit (on_all (\<lambda>_. []) m)"
| size: "unat n = length (am_entries m) \<Longrightarrow> map_spec is_set OpSize m (RSize n) m"
| iterate: "am_iters m i = None \<Longrightarrow>
    map_spec is_set (OpIterate kind) m (RIter (Some i)) (m\<lparr>am_iters := (am_iters m)(i \<mapsto> (kind, Some (am_entries m)))\<rparr>)"
| iterate_no_memory: "map_spec is_set (OpIterate kind) m (RIter None) m"
| step: "am_iters m i = Some (kind, Some (e # p)) \<Longrightarrow> yields is_set kind e r \<Longrightarrow>
    map_spec is_set (OpNext i) m (RNext r) (m\<lparr>am_iters := (am_iters m)(i \<mapsto> (kind, Some p))\<rparr>)"
| finish: "am_iters m i = Some (kind, Some []) \<Longrightarrow>
    map_spec is_set (OpNext i) m (RNext Done) (m\<lparr>am_iters := (am_iters m)(i \<mapsto> (kind, None))\<rparr>)"
| finished: "am_iters m i = Some (kind, None) \<Longrightarrow> map_spec is_set (OpNext i) m (RNext Done) m"
| finalize: "map_spec is_set (OpFinalize i) m RUnit (m\<lparr>am_iters := (am_iters m)(i := None)\<rparr>)"

inductive_cases map_spec_getE: "map_spec is_set (OpGet k) m r m'"

definition map_abs :: "map_state \<Rightarrow> amap" where
  "map_abs s = \<lparr>am_entries = entries s, am_iters = (\<lambda>i. map_option (\<lambda>it. (it_kind it, pend s i)) (iterators s i))\<rparr>"

lemma map_abs_sel [simp]:
  "am_entries (map_abs s) = entries s" "am_iters (map_abs s) i = map_option (\<lambda>it. (it_kind it, pend s i)) (iterators s i)"
  by (simp_all add: map_abs_def)

lemma key_in_abs [simp]: "key_in k (map_abs s) \<longleftrightarrow> canon (map_normalize_key k) \<in> fst ` set (entries s)"
  by (simp add: key_in_def)

lemma map_abs_on_all:
  "iterators s' = iterators s \<Longrightarrow> entries s' = f (entries s) \<Longrightarrow> (\<And>i. pend s' i = map_option f (pend s i)) \<Longrightarrow> map_abs s' = on_all f (map_abs s)"
  by (auto simp: map_abs_def on_all_def fun_eq_iff option.map_comp comp_def)

lemma map_abs_same:
  "iterators s' = iterators s \<Longrightarrow> entries s' = entries s \<Longrightarrow> pend s' = pend s \<Longrightarrow> map_abs s' = map_abs s"
  by (simp add: map_abs_def)

section \<open>The operations on entries leave the iterators alone\<close>

lemma quiet_iterators: "quiet fv \<Longrightarrow> fv v s = Some s' \<Longrightarrow> iterators s' = iterators s"
  unfolding quiet_def by (metis option.inject map_state.select_convs(10) map_state.surjective map_state.update_convs(9))

lemma map_delete_record_iterators:
  assumes "quiet fv" "map_delete_record fv s a = Some s'"
  shows "iterators s' = iterators s"
  using assms(2) by (auto simp: map_delete_record_def unlink_hash_def delete_weak_ref_def free_record_def bind_eq_Some_conv
      dest!: quiet_iterators[OF assms(1)] split: if_splits js_val.splits)

lemma js_map_delete_iterators:
  "quiet fv \<Longrightarrow> js_map_delete fv s k = Some (b, s') \<Longrightarrow> iterators s' = iterators s"
  by (auto simp: js_map_delete_def bind_eq_Some_conv Let_def dest: map_delete_record_iterators split: option.splits)

lemma clear_loop_iterators:
  assumes "clear_loop fv el el1 s = Some s'"
  shows "quiet fv \<longrightarrow> iterators s' = iterators s"
proof (rule clear_loop.raw_induct[OF _ assms])
  fix loop fv el el1 s s'
  assume "\<And>fv el el1 s s'. loop fv el el1 s = Some s' \<Longrightarrow> quiet fv \<longrightarrow> iterators s' = iterators s"
    and "(case el of None \<Rightarrow> Some s
          | Some a \<Rightarrow> do { s \<leftarrow> map_delete_record fv s a; el2 \<leftarrow> next_or_head s el1; loop fv el1 el2 s }) = Some s'"
  then show "quiet fv \<longrightarrow> iterators s' = iterators s"
    by (auto simp: bind_eq_Some_conv dest!: map_delete_record_iterators[rotated] split: option.splits)
qed

lemma js_map_clear_iterators: "quiet fv \<Longrightarrow> js_map_clear fv s = Some s' \<Longrightarrow> iterators s' = iterators s"
  by (auto simp: js_map_clear_def bind_eq_Some_conv Let_def dest: clear_loop_iterators)

lemma map_add_record_iterators: "map_add_record ma re s k = Some (r, s') \<Longrightarrow> iterators s' = iterators s"
  by (auto simp: map_add_record_def map_hash_resize_def dup_value_def bind_eq_Some_conv Let_def
      split: option.splits if_splits js_val.splits)

lemma js_map_set_iterators:
  assumes "quiet fv" "js_map_set ma re fv is_set s k v = Some (r, s')"
  shows "iterators s' = iterators s"
  using assms(2)
  by (auto simp: js_map_set_def bind_eq_Some_conv dup_value_def Let_def
      dest!: quiet_iterators[OF assms(1)] map_add_record_iterators split: option.splits if_splits)

section \<open>Every call implements the promise\<close>

text \<open>One call from a well-formed state: it does not fault, keeps the state well-formed and refines.\<close>

definition implements :: "malloc_func \<Rightarrow> slack_func \<Rightarrow> free_func \<Rightarrow> bool \<Rightarrow> map_op \<Rightarrow> map_state \<Rightarrow> bool" where
  "implements ma re fv is_set op s \<longleftrightarrow>
     (\<exists>r s'. map_exec ma re fv is_set op s = Some (r, s') \<and> map_inv s' \<and> map_spec is_set op (map_abs s) r (map_abs s'))"

lemma set_implements:
  assumes inv: "map_inv s" and env: "fresh_ok ma" "slack_ok re" "quiet fv" and k: "key_ok (map_normalize_key k)"
  shows "implements ma re fv is_set (OpSet k v) s"
proof -
  let ?c = "canon (map_normalize_key k)"
  let ?f = "put (?c \<in> fst ` set (entries s)) ?c (if is_set then VUndefined else v)"
  obtain r s' where r: "js_map_set ma re fv is_set s k v = Some (r, s')" "map_inv s'"
    "r = None \<and> entries s' = ?f (entries s) \<and> (\<forall>i. pend s' i = map_option ?f (pend s i)) \<or>
     r = Some OutOfMemory \<and> ?c \<notin> fst ` set (entries s) \<and> entries s' = entries s \<and> pend s' = pend s"
    using js_map_set_spec[OF inv env k, of is_set v] by blast
  note it = js_map_set_iterators[OF env(3) r(1)]
  from r(3) have "map_spec is_set (OpSet k v) (map_abs s) (RSet r) (map_abs s')"
  proof
    assume *: "r = None \<and> entries s' = ?f (entries s) \<and> (\<forall>i. pend s' i = map_option ?f (pend s i))"
    then have "map_abs s' = on_all ?f (map_abs s)" using map_abs_on_all[OF it, of ?f] by blast
    then show ?thesis using map_spec.set[of is_set k v "map_abs s"] * by simp
  next
    assume *: "r = Some OutOfMemory \<and> ?c \<notin> fst ` set (entries s) \<and> entries s' = entries s \<and> pend s' = pend s"
    then show ?thesis using map_spec.set_no_memory[of k "map_abs s" is_set v] map_abs_same[OF it] by simp
  qed
  then show ?thesis using r(1,2) by (simp add: implements_def)
qed

lemma get_implements:
  assumes "map_inv s" "key_ok (map_normalize_key k)"
  shows "implements ma re fv is_set (OpGet k) s"
proof -
  obtain x where x: "js_map_get s k = Some (case map_of (entries s) (canon (map_normalize_key k)) of None \<Rightarrow> VUndefined | Some v \<Rightarrow> v, s\<lparr>val_refs := x\<rparr>)"
    using js_map_get_spec[OF assms] by blast
  have "map_abs (s\<lparr>val_refs := x\<rparr>) = map_abs s" by (rule map_abs_same) simp_all
  then show ?thesis using x assms(1) map_spec.get[of is_set k "map_abs s"] by (simp add: implements_def)
qed

lemma delete_implements:
  assumes "map_inv s" "quiet fv" "key_ok (map_normalize_key k)"
  shows "implements ma re fv is_set (OpDelete k) s"
proof -
  let ?c = "canon (map_normalize_key k)"
  obtain s' where s': "js_map_delete fv s k = Some (?c \<in> fst ` set (entries s), s')" "map_inv s'"
      "entries s' = filter (\<lambda>e. fst e \<noteq> ?c) (entries s)" "\<And>i. pend s' i = map_option (filter (\<lambda>e. fst e \<noteq> ?c)) (pend s i)"
    using js_map_delete_spec[OF assms] by blast
  have "map_abs s' = on_all (filter (\<lambda>e. fst e \<noteq> ?c)) (map_abs s)"
    by (rule map_abs_on_all[OF js_map_delete_iterators[OF assms(2) s'(1)] s'(3,4)])
  then show ?thesis using s'(1,2) map_spec.delete[of is_set k "map_abs s"] by (simp add: implements_def)
qed

lemma clear_implements:
  assumes "map_inv s" "quiet fv"
  shows "implements ma re fv is_set OpClear s"
proof -
  obtain s' where s': "js_map_clear fv s = Some s'" "map_inv s'" "entries s' = []" "\<And>i. pend s' i = map_option (\<lambda>_. []) (pend s i)"
    using js_map_clear_spec[OF assms] by blast
  have "map_abs s' = on_all (\<lambda>_. []) (map_abs s)"
    by (rule map_abs_on_all[OF js_map_clear_iterators[OF assms(2) s'(1)] s'(3,4)])
  then show ?thesis using s'(1,2) map_spec.clear[of is_set "map_abs s"] by (simp add: implements_def)
qed

lemma next_implements:
  assumes inv: "map_inv s" and i: "iterators s i = Some it"
  shows "implements ma re fv is_set (OpNext i) s"
proof -
  obtain r s' where r: "js_map_iterator_next is_set s i = Some (r, s')"
    "case pend s i of
       None \<Rightarrow> r = Done \<and> s' = s
     | Some [] \<Rightarrow> r = Done \<and> advanced s i None s'
     | Some (e # p) \<Rightarrow> yields is_set (it_kind it) e r \<and> advanced s i (Some p) s'"
    using js_map_iterator_next_spec[OF inv i, of is_set] by blast
  have adv: "map_abs s' = (map_abs s)\<lparr>am_iters := (am_iters (map_abs s))(i \<mapsto> (it_kind it, p))\<rparr>" "map_inv s'" if "advanced s i p s'" for p
  proof -
    have "map_option (\<lambda>x. (it_kind x, pend s' j)) (iterators s' j) = ((am_iters (map_abs s))(i \<mapsto> (it_kind it, p))) j" for j
      using that i unfolding advanced_def
      by (cases "iterators s j"; cases "iterators s' j") (force dest: spec[of _ j])+
    then show "map_abs s' = (map_abs s)\<lparr>am_iters := (am_iters (map_abs s))(i \<mapsto> (it_kind it, p))\<rparr>" "map_inv s'"
      using that by (auto simp: map_abs_def advanced_def)
  qed
  have "map_inv s' \<and> map_spec is_set (OpNext i) (map_abs s) (RNext r) (map_abs s')"
  proof (cases "pend s i")
    case None
    then show ?thesis using r(2) i inv map_spec.finished[of "map_abs s" i "it_kind it" is_set] by simp
  next
    case (Some p)
    show ?thesis
    proof (cases p)
      case Nil
      then show ?thesis using Some r(2) i adv[of None] map_spec.finish[of "map_abs s" i "it_kind it" is_set] by simp
    next
      case (Cons e q)
      then show ?thesis using Some r(2) i adv[of "Some q"] map_spec.step[of "map_abs s" i "it_kind it" e q is_set r] by simp
    qed
  qed
  then show ?thesis using r(1) by (simp add: implements_def)
qed

lemma iterate_implements:
  assumes inv: "map_inv s" and ma: "fresh_ok ma"
  shows "implements ma re fv is_set (OpIterate kind) s"
proof (cases "ma s")
  case None
  then show ?thesis using inv map_spec.iterate_no_memory[of is_set kind "map_abs s"]
    by (simp add: implements_def js_create_map_iterator_def)
next
  case (Some i)
  let ?s = "s\<lparr>iterators := (iterators s)(i \<mapsto> \<lparr>it_obj = True, it_kind = kind, cur_record = None\<rparr>)\<rparr>"
  have n: "iterators s i = None" using ma Some by (simp add: fresh_ok_def)
  have c: "js_create_map_iterator ma kind s = (Some i, ?s)" using Some by (simp add: js_create_map_iterator_def)
  have *: "map_inv ?s" "entries ?s = entries s" "\<And>j. pend ?s j = (if j = i then Some (entries s) else pend s j)"
    using js_create_map_iterator_spec[OF inv ma, of kind] unfolding c by simp_all
  have "map_abs ?s = (map_abs s)\<lparr>am_iters := (am_iters (map_abs s))(i \<mapsto> (kind, Some (entries s)))\<rparr>"
    using *(2,3) by (simp add: map_abs_def fun_eq_iff)
  then show ?thesis using *(1) c n map_spec.iterate[of "map_abs s" i is_set kind] by (simp add: implements_def)
qed

lemma finalize_implements:
  assumes inv: "map_inv s" and i: "iterators s i = Some it"
  shows "implements ma re fv is_set (OpFinalize i) s"
proof -
  obtain s' where s': "js_map_iterator_finalizer s i = Some s'" "map_inv s'" "entries s' = entries s"
      "iterators s' = (iterators s)(i := None)" "\<And>j. pend s' j = (if j = i then None else pend s j)"
    using js_map_iterator_finalizer_spec[OF inv i] by blast
  have "map_abs s' = (map_abs s)\<lparr>am_iters := (am_iters (map_abs s))(i := None)\<rparr>"
    using s'(3-5) by (simp add: map_abs_def fun_eq_iff)
  then show ?thesis using s'(1,2) map_spec.finalize[of is_set i "map_abs s"] by (simp add: implements_def)
qed

lemma op_implements:
  assumes "map_inv s" "fresh_ok ma" "slack_ok re" "quiet fv" "op_ok op s"
  shows "implements ma re fv is_set op s"
proof (cases op)
  case (OpHas k)
  then show ?thesis using assms js_map_has_spec[of s k] map_spec.has[of is_set k "map_abs s"] by (simp add: implements_def)
next
  case OpSize
  then show ?thesis using assms(1) map_spec.size[of "record_count s" "map_abs s" is_set]
    by (simp add: implements_def js_map_get_size_def map_inv_def)
qed (use assms in \<open>auto intro: set_implements get_implements delete_implements clear_implements next_implements
      iterate_implements finalize_implements\<close>)

lemma map_inv_new: "map_inv (js_map_new False)"
  by (simp add: map_inv_def js_map_new_def table_ok_def keys_ok_def refs_ok_def entries_def vis_def)

lemma map_inv_tables:
  assumes inv: "map_inv s"
  shows "(\<forall>a\<in>set (records s). (if mr_empty (the_rec s a) then lockers s a \<noteq> {}
       else (\<exists>!j. j < length (hash_table s) \<and> a \<in> set (hash_table s ! j)))) \<and>
    distinct (map fst (entries s)) \<and> unat (js_map_get_size s) = length (entries s)"
proof -
  have "\<exists>!j. j < length (hash_table s) \<and> a \<in> set (hash_table s ! j)" if a: "a \<in> set (records s)" "lv s a" for a
  proof -
    have t: "table_ok s" "key_ok (mr_key (the_rec s a))" using inv a by (simp_all add: map_inv_def keys_ok_def)
    then obtain j where "hash_slot (hash_size s) (mr_key (the_rec s a)) = Some j" "j < unat (hash_size s)"
      using hash_slot_ok[of "mr_key (the_rec s a)" "hash_size s"] by (auto simp: table_ok_def)
    then show ?thesis using t(1) a by (intro ex1I[of _ j]) (auto simp: table_ok_def)
  qed
  then show ?thesis using inv by (auto simp: map_inv_def refs_ok_def keys_ok_def js_map_get_size_def lv_def)
qed

text \<open>The states that calls reach from a new collection.\<close>

inductive map_reach :: "malloc_func \<Rightarrow> slack_func \<Rightarrow> free_func \<Rightarrow> bool \<Rightarrow> map_state \<Rightarrow> bool" for ma re fv is_set where
  new: "map_reach ma re fv is_set (js_map_new False)"
| call: "map_reach ma re fv is_set s \<Longrightarrow> op_ok op s \<Longrightarrow> map_exec ma re fv is_set op s = Some (r, s') \<Longrightarrow> map_reach ma re fv is_set s'"

lemma map_reach_inv_lemma:
  assumes "fresh_ok ma" "slack_ok re" "quiet fv" "map_reach ma re fv is_set s"
  shows "map_inv s"
  using assms(4)
proof induction
  case (call s op r s')
  then show ?case using op_implements[OF call.IH assms(1-3) call.hyps(2), of is_set] by (auto simp: implements_def)
qed (rule map_inv_new)

section \<open>Sequences of calls\<close>

fun map_calls :: "malloc_func \<Rightarrow> slack_func \<Rightarrow> free_func \<Rightarrow> bool \<Rightarrow> map_op list \<Rightarrow> map_state \<Rightarrow> map_state option" where
  "map_calls ma re fv is_set [] s = Some s"
| "map_calls ma re fv is_set (op # ops) s =
     (if op_ok op s then do { (_, s) \<leftarrow> map_exec ma re fv is_set op s; map_calls ma re fv is_set ops s } else None)"

lemma map_calls_reach: "map_calls ma re fv is_set ops s = Some s' \<Longrightarrow> map_reach ma re fv is_set s \<Longrightarrow> map_reach ma re fv is_set s'"
  by (induction ops arbitrary: s) (auto simp: bind_eq_Some_conv split: if_splits intro: map_reach.call)

lemma map_calls_total:
  "map_inv s \<Longrightarrow> fresh_ok ma \<Longrightarrow> slack_ok re \<Longrightarrow> quiet fv \<Longrightarrow> op_ok op s \<Longrightarrow> map_calls ma re fv is_set [op] s \<noteq> None"
  using op_implements[of s ma re fv op is_set] by (auto simp: implements_def)

text \<open>A sequence of steps of one iterator.\<close>

fun map_drain :: "bool \<Rightarrow> nat \<Rightarrow> map_state \<Rightarrow> nat \<Rightarrow> (iter_result list \<times> map_state) option" where
  "map_drain is_set i s 0 = Some ([], s)"
| "map_drain is_set i s (Suc n) = do {
     (r, s) \<leftarrow> js_map_iterator_next is_set s i;
     (rs, s) \<leftarrow> map_drain is_set i s n;
     Some (r # rs, s) }"

lemma map_drain_spec:
  assumes "map_inv s" "iterators s i = Some it" "pend s i = Some p"
  shows "\<exists>rs s'. map_drain is_set i s (Suc (length p)) = Some (rs @ [Done], s') \<and> list_all2 (yields is_set (it_kind it)) p rs \<and>
    map_inv s' \<and> entries s' = entries s \<and> pend s' i = None"
  using assms
proof (induction p arbitrary: s it)
  case Nil
  then show ?case using js_map_iterator_next_spec[OF Nil(1,2), of is_set] by (auto simp: advanced_def)
next
  case (Cons e p)
  obtain r s1 where r: "js_map_iterator_next is_set s i = Some (r, s1)" "yields is_set (it_kind it) e r" "advanced s i (Some p) s1"
    using js_map_iterator_next_spec[OF Cons.prems(1,2), of is_set] Cons.prems(3) by auto
  have s1: "map_inv s1" "pend s1 i = Some p" "entries s1 = entries s" using r(3) by (simp_all add: advanced_def)
  obtain it1 where it1: "iterators s1 i = Some it1" "it_kind it1 = it_kind it"
    using r(3) Cons.prems(2) unfolding advanced_def by (metis map_option_eq_Some)
  obtain rs s' where d: "map_drain is_set i s1 (Suc (length p)) = Some (rs @ [Done], s')" "list_all2 (yields is_set (it_kind it)) p rs"
      "map_inv s'" "entries s' = entries s" "pend s' i = None"
    using Cons.IH[OF s1(1) it1(1) s1(2)] s1(3) it1(2) by auto
  have "map_drain is_set i s (Suc (Suc (length p))) = Some ((r # rs) @ [Done], s')"
    unfolding map_drain.simps(2)[of is_set i s] r(1) using d(1) by (simp del: map_drain.simps)
  then show ?case using d(2-5) r(2) by (intro exI[of _ "r # rs"] exI[of _ s']) (simp del: map_drain.simps)
qed

text \<open>An allocator that takes the first free address, and one that gives no slack.\<close>

definition first_free :: malloc_func where
  "first_free s = (if length (records s) < 6 then List.find (\<lambda>a. rec_heap s a = None \<and> iterators s a = None) [0..<6] else None)"

definition no_slack :: slack_func where
  "no_slack n = (if int n < 2 ^ 20 then Some 0 else None)"

lemma sample_env [simp]: "fresh_ok first_free" "slack_ok no_slack" "quiet release_value"
  by (auto simp: fresh_ok_def first_free_def slack_ok_def no_slack_def quiet_def release_value_def find_Some_iff split: if_splits)

text \<open>A collection with a key behind which an iterator stands on a deleted record.\<close>

definition sample_calls :: "map_op list" where
  "sample_calls = [OpSet VNull (VObject 2), OpSet (VBool True) VUndefined, OpIterate JS_ITERATOR_KIND_KEY, OpNext 2, OpNext 2,
     OpDelete (VBool True), OpSet VUndefined VNull]"

definition sample_map :: map_state where
  "sample_map = the (map_calls first_free no_slack release_value False sample_calls (js_map_new False))"

lemma sample_map_calls: "map_calls first_free no_slack release_value False sample_calls (js_map_new False) = Some sample_map"
proof -
  have "map_calls first_free no_slack release_value False sample_calls (js_map_new False) \<noteq> None" by code_simp
  then show ?thesis by (simp add: sample_map_def)
qed

lemma sample_map_reach: "map_reach first_free no_slack release_value False sample_map"
  by (rule map_calls_reach[OF sample_map_calls map_reach.new])

lemma sample_map_state:
  "entries sample_map = [(CNull, VObject 2), (CUndefined, VNull)]" "pend sample_map 2 = Some [(CUndefined, VNull)]"
  "map_option it_kind (iterators sample_map 2) = Some JS_ITERATOR_KIND_KEY"
  by code_simp+

text \<open>The value of the sample under its first key is the iterator object: its release runs the finalizer.\<close>

definition release_iterator :: free_func where
  "release_iterator v s = (if v = VObject 2 then js_map_iterator_finalizer s 2 else Some s)"

text \<open>The double one, and a map in which the integer one is a key after the hash table has grown.\<close>

definition one_calls :: "map_op list" where
  "one_calls = [OpSet (VInt 1) (VBool True), OpSet VNull VNull, OpSet (VBool True) VNull, OpSet VUndefined VNull]"

definition one_map :: map_state where
  "one_map = the (map_calls first_free no_slack release_value False one_calls (js_map_new False))"

definition dbl_one :: u64 where
  "dbl_one = 0x3FF0000000000000"

section \<open>Properties\<close>





text \<open>
  C5. An iterator reaches the end: from every reachable state, as many steps as entries are left
  yield those entries in their order, and the next step ends the iteration and detaches the
  iterator. The map keeps its entries.
\<close>

theorem map_iterator_completes:
  assumes "fresh_ok ma" "slack_ok re" "quiet fv" "map_reach ma re fv is_set s" "iterators s i = Some it" "pend s i = Some p"
  shows "\<exists>rs s'. map_drain is_set i s (length p + 1) = Some (rs @ [Done], s') \<and> list_all2 (yields is_set (it_kind it)) p rs \<and>
    entries s' = entries s \<and> pend s' i = None"
  using map_drain_spec[OF map_reach_inv_lemma[OF assms(1-4)] assms(5,6), of is_set] by auto

theorem map_iterator_completes_witness:
  "\<exists>r s'. map_drain False 2 sample_map 2 = Some ([r, Done], s') \<and> yields False JS_ITERATOR_KIND_KEY (CUndefined, VNull) r"
proof -
  obtain it where it: "iterators sample_map 2 = Some it" "it_kind it = JS_ITERATOR_KIND_KEY" using sample_map_state(3) by auto
  obtain rs s' where d: "map_drain False 2 sample_map (length [(CUndefined, VNull)] + 1) = Some (rs @ [Done], s')"
      "list_all2 (yields False (it_kind it)) [(CUndefined, VNull)] rs"
    using map_iterator_completes[OF sample_env sample_map_reach it(1) sample_map_state(2)] by blast
  obtain r where "rs = [r]" "yields False JS_ITERATOR_KIND_KEY (CUndefined, VNull) r"
    using d(2) it(2) by (auto simp: list_all2_Cons1)
  moreover have "length [(CUndefined, VNull)] + 1 = 2" by simp
  ultimately show ?thesis using d(1) by (metis append_Cons append_Nil)
qed



text \<open>The hash of an integer key is computed in \<^verbatim>\<open>int\<close> and overflows for most 32-bit integers.\<close>

lemma map_hash_key_overflow: "map_hash_key (VInt i) = None \<longleftrightarrow> 678938 < \<bar>i\<bar>"
  by (auto simp: map_hash_key_def)

end
