(* ===== verification/Spec2Isabelle.thy ===== *)
theory Spec2Isabelle
  imports List_Head Js_Job Cutils_Bits Utf8 Dyn_Buf Cutils_Str Exchange Ta_Sort
    Char_Range Js_Date_Text Js_Uri Js_Gc_Run Bf_Div Js_Map_Spec
begin

text \<open>
  A verification of the C core of the QuickJS engine bundled in this repository
  (\<^verbatim>\<open>src/libquickjs-sys/embed/quickjs\<close>, below: the engine). The crate around it compiles that code
  and wraps its interface; the theorems here are about the C functions.

  \<^bold>\<open>How C is modelled.\<close> Structs are records, enums and unions datatypes, machine integers \<open>n word\<close> where
  they wrap and checked integers where they are signed. Undefined behaviour is a value: reading or
  writing outside an array, touching freed memory, a failed assertion and a signed overflow are
  \<^const>\<open>None\<close>, so a theorem that a function returns \<^const>\<open>Some\<close> includes its memory safety. Loops
  are structural recursion, recursion with a termination proof, or \<^theory_text>\<open>partial_function (option)\<close>;
  in the last case the theorems prove that a result is returned, so no fuel is needed. Pointers are
  addresses in an explicit heap where aliasing matters (lists, jobs, strings with shared buffers,
  counted objects, map records, shapes) and indices elsewhere. Callbacks, the allocator, the compiler
  intrinsics and the C library are arguments of the definitions; what is assumed of them is a named
  predicate (\<open>fresh_ok\<close>, \<open>slack_ok\<close>, \<open>quiet\<close>, \<open>cr_fails\<close>, \<open>realloc_fails\<close> and the like) and every theorem
  that assumes one has a witness with a concrete instance.

  \<^bold>\<open>Parts and theories.\<close>

  \<^item> \<^theory_text>\<open>Qjs_Prelude\<close>: integer types, checked array accesses, list and word lemmas.

  \<^item> \<^theory_text>\<open>List_Head\<close> (\<^verbatim>\<open>list.h\<close>): intrusive rings. Insertion, deletion and the iteration macros refine
    lists; the locale \<open>intrusive_list\<close> is the interface, which \<^theory_text>\<open>Js_Job\<close> builds on.

  \<^item> \<^theory_text>\<open>Cutils_Bits\<close>, \<^theory_text>\<open>Cutils_Str\<close>, \<^theory_text>\<open>Utf8\<close>, \<^theory_text>\<open>Dyn_Buf\<close> (\<^verbatim>\<open>cutils.h\<close>, \<^verbatim>\<open>cutils.c\<close>): bit counts in three compiler
    configurations, C strings, the UTF-8 codec with round trips, and growing buffers, whose locale
    \<open>append_buffer\<close> says that one error test at the end of a sequence of appends is enough.

  \<^item> \<^theory_text>\<open>Exchange\<close>, \<^theory_text>\<open>Heapsort\<close>, \<^theory_text>\<open>Rqsort\<close>, \<^theory_text>\<open>Ta_Sort\<close> (\<^verbatim>\<open>cutils.c\<close>, \<^verbatim>\<open>quickjs.c\<close>): the sorting routine from the
    byte exchanges up. It is memory safe for every comparison and sorts for every consistent one
    (locale \<open>cmp_order\<close>, interpreted on the nine comparisons of typed arrays).

  \<^item> \<^theory_text>\<open>Char_Range\<close> (\<^verbatim>\<open>libunicode.c\<close>, \<^verbatim>\<open>libunicode.h\<close>): sets of code points, their operations and their
    normal form.

  \<^item> \<^theory_text>\<open>Bf_Limbs\<close>, \<^theory_text>\<open>Bf_Div\<close> (\<^verbatim>\<open>libbf.c\<close>): the arithmetic on arrays of limbs under the big numbers, up to
    schoolbook multiplication and division, against the integers the arrays stand for.

  \<^item> \<^theory_text>\<open>Js_Malloc\<close>, \<^theory_text>\<open>Js_Job\<close> (\<^verbatim>\<open>quickjs.c\<close>): the accounting allocator and the queue of promise jobs.

  \<^item> \<^theory_text>\<open>Js_String\<close>, \<^theory_text>\<open>Js_String_Build\<close>, \<^theory_text>\<open>Js_String_Conv\<close>, \<^theory_text>\<open>Js_Cstring\<close>, \<^theory_text>\<open>Js_Uri\<close>: strings of one or two bytes per
    unit, their buffers (locale \<open>string_env\<close>), concatenation in place, comparison, the conversions
    from and to UTF-8, and the URI functions.

  \<^item> \<^theory_text>\<open>Js_Date\<close>, \<^theory_text>\<open>Js_Date_Text\<close>: the calendar, the setters, and the formatting and parsing of dates.

  \<^item> \<^theory_text>\<open>Js_Gc\<close>, \<^theory_text>\<open>Js_Gc_Mark\<close>, \<^theory_text>\<open>Js_Gc_Free\<close>, \<^theory_text>\<open>Js_Gc_Run\<close>: reference counting and the cycle collector. The first
    holds the model; the second proves that the marking passes compute reachability and restore the
    counts; the third that freeing keeps the balance of references; the last has the theorems on
    whole releases and collections.

  \<^item> \<^theory_text>\<open>Js_Value\<close>, \<^theory_text>\<open>Js_Map_Key\<close>, \<^theory_text>\<open>Js_Map\<close>, \<^theory_text>\<open>Js_Map_Inv\<close>, \<^theory_text>\<open>Js_Map_Iter\<close>, \<^theory_text>\<open>Js_Map_Spec\<close>: values with their
    equality and hashes, and the collections \<^verbatim>\<open>Map\<close> and \<^verbatim>\<open>Set\<close>. The model has the records, the hash
    table and the iterators; the invariant relates them; the specification is an ordered dictionary
    with live iterators, and every call in every reachable state implements it. Two theorems show
    where the code leaves it: a double key equal to an integer key, and a finalizer inside
    \<^verbatim>\<open>js_map_clear\<close>.

  \<^bold>\<open>Bounds.\<close> Sizes are unbounded naturals unless the code computes them in a fixed width; then the
  theorem states the bound as a hypothesis or through the allocator (a map has fewer than
  \<open>2 ^ 32 - 1\<close> records, a string fewer than \<open>2 ^ 30\<close> units) and the overflow beyond it is a theorem or a
  finding of its own.

  \<^bold>\<open>Not modelled.\<close> The bytecode interpreter, the parser and compiler, property access with prototypes,
  getters and exotic objects, and most library objects call each other through user code: a faithful model
  of one needs all of them. Regular expressions are a second compiler and matcher. The Unicode tables
  are generated data. Of \<^verbatim>\<open>libbf.c\<close> the floating-point layer, square roots, the reciprocal division
  and the number-theoretic transform are left out; \<^verbatim>\<open>mp_divnorm_large\<close> is an argument that the
  theorem on division excludes by size. Of the collections, \<^verbatim>\<open>forEach\<close>, the iterable argument of
  the constructor, the marking and finalization of a whole map and \<^verbatim>\<open>reset_weak_ref\<close> are left out, and
  the iterator's reference to its map is a flag. The operating system library, the command line
  programs, the build-time generators and the Rust wrapper are input and output around this core.
\<close>

end
